(* ===== verification/Return_Codes.thy ===== *)
theory Return_Codes
  imports Main
begin

text \<open>
  The enumeration \<open>return_code_t\<close> of include/return_codes.h. Every function of the program
  returns one of these codes; the C enumerators are numbered from 0 in the order of the
  declaration, which is what a process returning one of them as its exit status shows.
  The type is ordered by those numbers.
\<close>

datatype return_code_t =
    SUCCESS
  | FAILURE_COULD_NOT_MALLOC
  | FAILURE_INVALID_INPUT
  | FAILURE_LINKED_LIST_EMPTY
  | FAILURE_LINKED_LIST_NO_COMPARE_FUNCTION
  | FAILURE_COULD_NOT_FIND_VALID_PROOF_OF_WORK
  | FAILURE_INVALID_COMMAND_LINE_ARGS
  | FAILURE_OPENSSL_FUNCTION
  | FAILURE_FILE_IO
  | FAILURE_SIGNATURE_TOO_LONG
  | FAILURE_BUFFER_TOO_SMALL
  | FAILURE_INVALID_BLOCKCHAIN
  | FAILURE_PTHREAD_FUNCTION
  | FAILURE_STOPPED_EARLY
  | FAILURE_LONGER_BLOCKCHAIN_DETECTED
  | FAILURE_NETWORK_FUNCTION
  | FAILURE_INVALID_COMMAND_PREFIX
  | FAILURE_INVALID_COMMAND
  | FAILURE_INVALID_COMMAND_LEN
  | FAILURE_SLEEP

fun enumerator :: "return_code_t \<Rightarrow> nat" where
  "enumerator SUCCESS = 0"
| "enumerator FAILURE_COULD_NOT_MALLOC = 1"
| "enumerator FAILURE_INVALID_INPUT = 2"
| "enumerator FAILURE_LINKED_LIST_EMPTY = 3"
| "enumerator FAILURE_LINKED_LIST_NO_COMPARE_FUNCTION = 4"
| "enumerator FAILURE_COULD_NOT_FIND_VALID_PROOF_OF_WORK = 5"
| "enumerator FAILURE_INVALID_COMMAND_LINE_ARGS = 6"
| "enumerator FAILURE_OPENSSL_FUNCTION = 7"
| "enumerator FAILURE_FILE_IO = 8"
| "enumerator FAILURE_SIGNATURE_TOO_LONG = 9"
| "enumerator FAILURE_BUFFER_TOO_SMALL = 10"
| "enumerator FAILURE_INVALID_BLOCKCHAIN = 11"
| "enumerator FAILURE_PTHREAD_FUNCTION = 12"
| "enumerator FAILURE_STOPPED_EARLY = 13"
| "enumerator FAILURE_LONGER_BLOCKCHAIN_DETECTED = 14"
| "enumerator FAILURE_NETWORK_FUNCTION = 15"
| "enumerator FAILURE_INVALID_COMMAND_PREFIX = 16"
| "enumerator FAILURE_INVALID_COMMAND = 17"
| "enumerator FAILURE_INVALID_COMMAND_LEN = 18"
| "enumerator FAILURE_SLEEP = 19"

lemma enumerator_inject [simp]: "enumerator a = enumerator b \<longleftrightarrow> a = b"
  by (cases a; cases b; simp)

instantiation return_code_t :: linorder
begin

definition less_eq_return_code_t :: "return_code_t \<Rightarrow> return_code_t \<Rightarrow> bool" where
  "less_eq_return_code_t a b \<longleftrightarrow> enumerator a \<le> enumerator b"

definition less_return_code_t :: "return_code_t \<Rightarrow> return_code_t \<Rightarrow> bool" where
  "less_return_code_t a b \<longleftrightarrow> enumerator a < enumerator b"

instance
  by intro_classes (auto simp: less_eq_return_code_t_def less_return_code_t_def)

end

lemma SUCCESS_least [simp]: "SUCCESS \<le> c"
  by (simp add: less_eq_return_code_t_def)

end
