(* ===== verification/Prelude.thy ===== *)
theory Prelude
  imports Return_Codes "HOL-Library.Word" "HOL-Library.While_Combinator"
begin

text \<open>
  What the components share: the C integer types, the outcome of a C function, the
  composition of calls with the early return of the source (\<open>if (SUCCESS != return_code)
  goto end\<close>), the allocator, and a weakest-precondition operator to reason about them.

  A C function of the program is modelled by a \<open>prog\<close>: from a state it yields an outcome and
  the state it leaves. The outcome is \<open>Ok v\<close> when the function returns SUCCESS, with \<open>v\<close> the
  values it wrote through its out-parameters; \<open>Fail c\<close> when it returns the other code \<open>c\<close>;
  \<open>Undefined\<close> when it would access memory outside an object, through a null pointer or after a
  free; \<open>Diverges\<close> when it never returns.
\<close>

section \<open>Machine integers\<close>

type_synonym u8 = "8 word"
type_synonym u16 = "16 word"
type_synonym u32 = "32 word"
type_synonym u64 = "64 word"

section \<open>Outcomes and programs\<close>

datatype 'a outcome = Ok 'a | Fail return_code_t | Undefined | Diverges

type_synonym ('s, 'a) prog = "'s \<Rightarrow> 'a outcome \<times> 's"

definition ret :: "'a \<Rightarrow> ('s, 'a) prog" where
  "ret v s = (Ok v, s)"

definition fail :: "return_code_t \<Rightarrow> ('s, 'a) prog" where
  "fail c s = (Fail c, s)"

definition undef :: "('s, 'a) prog" where
  "undef s = (Undefined, s)"

definition diverge :: "('s, 'a) prog" where
  "diverge s = (Diverges, s)"

definition get :: "('s, 's) prog" where
  "get s = (Ok s, s)"

definition modify :: "('s \<Rightarrow> 's) \<Rightarrow> ('s, unit) prog" where
  "modify f s = (Ok (), f s)"

text \<open>\<open>seq m f\<close> runs \<open>m\<close> and, when it returns SUCCESS, goes on with \<open>f\<close>; every other outcome is
  passed on at once.\<close>

definition seq :: "('s, 'a) prog \<Rightarrow> ('a \<Rightarrow> ('s, 'b) prog) \<Rightarrow> ('s, 'b) prog" where
  "seq m f s =
     (case m s of
        (Ok v, t) \<Rightarrow> f v t
      | (Fail c, t) \<Rightarrow> (Fail c, t)
      | (Undefined, t) \<Rightarrow> (Undefined, t)
      | (Diverges, t) \<Rightarrow> (Diverges, t))"

text \<open>\<open>attempt m\<close> runs \<open>m\<close> and hands its return code to the caller, who decides what to do
  with it; it is used where the source does not return at once.\<close>

definition attempt :: "('s, 'a) prog \<Rightarrow> ('s, return_code_t + 'a) prog" where
  "attempt m s =
     (case m s of
        (Ok v, t) \<Rightarrow> (Ok (Inr v), t)
      | (Fail c, t) \<Rightarrow> (Ok (Inl c), t)
      | (Undefined, t) \<Rightarrow> (Undefined, t)
      | (Diverges, t) \<Rightarrow> (Diverges, t))"

definition require :: "bool \<Rightarrow> return_code_t \<Rightarrow> ('s, unit) prog" where
  "require b c = (if b then ret () else fail c)"

named_theorems prog_defs "unfolding of the program combinators"

lemmas prog_basic = ret_def fail_def undef_def diverge_def get_def modify_def require_def

declare prog_basic [prog_defs] attempt_def [prog_defs]

lemma seq_ret [simp]: "seq (ret v) f = f v"
  by (simp add: seq_def ret_def fun_eq_iff)

lemma seq_fail [simp]: "seq (fail c) f = fail c"
  by (simp add: seq_def fail_def fun_eq_iff)

lemma seq_undef [simp]: "seq undef f = undef"
  by (simp add: seq_def undef_def fun_eq_iff)

lemma seq_ret_right [simp]: "seq m ret = m"
  by (auto simp: seq_def ret_def fun_eq_iff split: prod.split outcome.split)

lemma seq_assoc: "seq (seq m f) g = seq m (\<lambda>x. seq (f x) g)"
  by (auto simp: seq_def fun_eq_iff split: prod.split outcome.split)

lemma seq_Ok: "m s = (Ok v, t) \<Longrightarrow> seq m f s = f v t"
  by (simp add: seq_def)

lemma seq_Fail: "m s = (Fail c, t) \<Longrightarrow> seq m f s = (Fail c, t)"
  by (simp add: seq_def)

lemma seq_eq_Ok_iff:
  "seq m f s = (Ok y, t) \<longleftrightarrow> (\<exists>x u. m s = (Ok x, u) \<and> f x u = (Ok y, t))"
  by (auto simp: seq_def split: prod.splits outcome.splits)

lemma ret_eq_Ok_iff [simp]: "ret v s = (Ok y, t) \<longleftrightarrow> y = v \<and> t = s"
  by (auto simp: ret_def)

lemma fail_neq_Ok [simp]: "fail c s \<noteq> (Ok y, t)"
  by (simp add: fail_def)

lemma undef_neq_Ok [simp]: "undef s \<noteq> (Ok y, t)"
  by (simp add: undef_def)

lemma require_eq_Ok_iff [simp]: "require b c s = (Ok y, t) \<longleftrightarrow> b \<and> t = s"
  by (auto simp: require_def ret_def fail_def)

lemma require_True [simp]: "b \<Longrightarrow> require b c = ret ()"
  by (simp add: require_def)

lemma require_False [simp]: "\<not> b \<Longrightarrow> require b c = fail c"
  by (simp add: require_def)

section \<open>Weakest preconditions\<close>

text \<open>\<open>wp m Q E s\<close>: run from \<open>s\<close>, \<open>m\<close> neither has undefined behaviour nor diverges; when it
  returns SUCCESS its value and state satisfy \<open>Q\<close>, when it returns another code they satisfy
  \<open>E\<close>.\<close>

definition wp :: "('s, 'a) prog \<Rightarrow> ('a \<Rightarrow> 's \<Rightarrow> bool) \<Rightarrow> (return_code_t \<Rightarrow> 's \<Rightarrow> bool) \<Rightarrow> 's \<Rightarrow> bool"
  where "wp m Q E s =
     (case m s of
        (Ok v, t) \<Rightarrow> Q v t
      | (Fail c, t) \<Rightarrow> E c t
      | (Undefined, t) \<Rightarrow> False
      | (Diverges, t) \<Rightarrow> False)"

lemma wp_ret [simp]: "wp (ret v) Q E s = Q v s"
  by (simp add: wp_def ret_def)

lemma wp_fail [simp]: "wp (fail c) Q E s = E c s"
  by (simp add: wp_def fail_def)

lemma wp_undef [simp]: "\<not> wp undef Q E s"
  by (simp add: wp_def undef_def)

lemma wp_diverge [simp]: "\<not> wp diverge Q E s"
  by (simp add: wp_def diverge_def)

lemma wp_get [simp]: "wp get Q E s = Q s s"
  by (simp add: wp_def get_def)

lemma wp_modify [simp]: "wp (modify f) Q E s = Q () (f s)"
  by (simp add: wp_def modify_def)

lemma wp_seq [simp]: "wp (seq m f) Q E s = wp m (\<lambda>v. wp (f v) Q E) E s"
  by (auto simp: wp_def seq_def split: prod.split outcome.split)

lemma wp_seqI: "wp m (\<lambda>v. wp (f v) Q E) E s \<Longrightarrow> wp (seq m f) Q E s"
  by simp

lemma wp_attempt [simp]:
  "wp (attempt m) Q E s = wp m (\<lambda>v. Q (Inr v)) (\<lambda>c. Q (Inl c)) s"
  by (auto simp: wp_def attempt_def split: prod.split outcome.split)

lemma wp_require [simp]:
  "wp (require b c) Q E s = ((b \<longrightarrow> Q () s) \<and> (\<not> b \<longrightarrow> E c s))"
  by (simp add: require_def)

lemma wp_if [simp]:
  "wp (if b then m else n) Q E s = ((b \<longrightarrow> wp m Q E s) \<and> (\<not> b \<longrightarrow> wp n Q E s))"
  by simp

lemma wp_mono:
  assumes "wp m Q E s"
    and "\<And>v t. Q v t \<Longrightarrow> Q' v t" and "\<And>c t. E c t \<Longrightarrow> E' c t"
  shows "wp m Q' E' s"
  using assms by (auto simp: wp_def split: prod.splits outcome.splits)

lemma wp_Ok_iff: "wp m Q (\<lambda>_ _. False) s \<longleftrightarrow> (\<exists>v t. m s = (Ok v, t) \<and> Q v t)"
  by (auto simp: wp_def split: prod.splits outcome.splits)

lemma wpI_Ok: "m s = (Ok v, t) \<Longrightarrow> Q v t \<Longrightarrow> wp m Q E s"
  by (simp add: wp_def)

lemma wp_Ok_D: "wp m Q E s \<Longrightarrow> m s = (Ok v, t) \<Longrightarrow> Q v t"
  by (simp add: wp_def)

lemma wp_Fail_D: "wp m Q E s \<Longrightarrow> m s = (Fail c, t) \<Longrightarrow> E c t"
  by (simp add: wp_def)

lemma wp_not_Undefined: "wp m Q E s \<Longrightarrow> fst (m s) \<noteq> Undefined"
  by (auto simp: wp_def split: prod.splits outcome.splits)

section \<open>Loops\<close>

text \<open>
  \<open>loop body x\<close> is a C loop whose variables have the value \<open>x\<close>: \<open>body\<close> either goes on with
  new values (\<open>Inl\<close>) or leaves the loop with a result (\<open>Inr\<close>). A loop that never leaves is
  \<open>Diverges\<close>.
\<close>

fun goes_on :: "('x + 'r) outcome \<times> 's \<Rightarrow> bool" where
  "goes_on (Ok (Inl x), s) = True"
| "goes_on (Ok (Inr r), s) = False"
| "goes_on (Fail c, s) = False"
| "goes_on (Undefined, s) = False"
| "goes_on (Diverges, s) = False"

fun loop_step ::
  "('x \<Rightarrow> ('s, 'x + 'r) prog) \<Rightarrow> ('x + 'r) outcome \<times> 's \<Rightarrow> ('x + 'r) outcome \<times> 's" where
  "loop_step body (Ok (Inl x), s) = body x s"
| "loop_step body (out, s) = (out, s)"

fun loop_exit :: "('x + 'r) outcome \<times> 's \<Rightarrow> 'r outcome \<times> 's" where
  "loop_exit (Ok (Inr r), s) = (Ok r, s)"
| "loop_exit (Ok (Inl x), s) = (Diverges, s)"
| "loop_exit (Fail c, s) = (Fail c, s)"
| "loop_exit (Undefined, s) = (Undefined, s)"
| "loop_exit (Diverges, s) = (Diverges, s)"

definition loop :: "('x \<Rightarrow> ('s, 'x + 'r) prog) \<Rightarrow> 'x \<Rightarrow> ('s, 'r) prog" where
  "loop body x s =
     (case while_option goes_on (loop_step body) (Ok (Inl x), s) of
        None \<Rightarrow> (Diverges, s)
      | Some out \<Rightarrow> loop_exit out)"

lemma loop_continue:
  assumes "body x s = (Ok (Inl y), t)"
  shows "fst (loop body x s) = fst (loop body y t)"
    and "fst (loop body x s) \<noteq> Diverges \<Longrightarrow> loop body x s = loop body y t"
proof -
  have "while_option goes_on (loop_step body) (Ok (Inl x), s) =
      while_option goes_on (loop_step body) (Ok (Inl y), t)"
    by (subst while_option_unfold) (simp add: assms)
  then show "fst (loop body x s) = fst (loop body y t)"
    and "fst (loop body x s) \<noteq> Diverges \<Longrightarrow> loop body x s = loop body y t"
    by (auto simp: loop_def split: option.splits)
qed

lemma loop_Inl:
  assumes "body x s = (Ok (Inl y), t)" and "loop body y t = (out, u)" and "out \<noteq> Diverges"
  shows "loop body x s = (out, u)"
  using loop_continue [of body, OF assms(1)] assms(2,3) by simp

lemma loop_exit_Inr: "body x s = (Ok (Inr r), t) \<Longrightarrow> loop body x s = (Ok r, t)"
  by (simp add: loop_def while_option_unfold)

lemma loop_exit_Fail: "body x s = (Fail c, t) \<Longrightarrow> loop body x s = (Fail c, t)"
  by (simp add: loop_def while_option_unfold)

lemma loop_exit_Undefined: "body x s = (Undefined, t) \<Longrightarrow> loop body x s = (Undefined, t)"
  by (simp add: loop_def while_option_unfold)

lemma wp_loop_unfold:
  "wp (loop body x) Q E s \<longleftrightarrow>
     wp (body x) (\<lambda>v. case v of Inl y \<Rightarrow> wp (loop body y) Q E | Inr r \<Rightarrow> Q r) E s"
proof (cases "body x s")
  case (Pair out t)
  show ?thesis
  proof (cases out)
    case (Ok v)
    show ?thesis
    proof (cases v)
      case (Inl y)
      with Ok Pair have "body x s = (Ok (Inl y), t)" by simp
      from loop_continue [where body = body, OF this] show ?thesis
        by (auto simp: wp_def Inl Ok Pair split: prod.splits outcome.splits)
    next
      case (Inr r)
      then show ?thesis by (simp add: wp_def Ok Pair loop_exit_Inr)
    qed
  next
    case (Fail c)
    then show ?thesis by (simp add: wp_def Pair loop_exit_Fail)
  next
    case Undefined
    then show ?thesis by (simp add: wp_def Pair loop_exit_Undefined)
  next
    case Diverges
    then show ?thesis by (simp add: wp_def Pair loop_def while_option_unfold)
  qed
qed

text \<open>Total correctness: an invariant over the loop variables and the state, and a
  well-founded relation in which every iteration goes down.\<close>

lemma wp_loop:
  assumes "wf r" and "I x s"
    and "\<And>x s. I x s \<Longrightarrow>
      wp (body x) (\<lambda>v t. case v of Inl y \<Rightarrow> I y t \<and> ((y, t), (x, s)) \<in> r | Inr z \<Rightarrow> Q z t) E s"
  shows "wp (loop body x) Q E s"
  using assms(1,2)
proof (induction "(x, s)" arbitrary: x s rule: wf_induct_rule)
  case (less x s)
  from assms(3) [OF less.prems] show ?case
    unfolding wp_loop_unfold [of body x]
    by (rule wp_mono) (auto split: sum.splits intro: less.hyps)
qed

text \<open>A loop whose every iteration goes on never returns.\<close>

lemma loop_diverges:
  assumes "I x s" and "\<And>x s. I x s \<Longrightarrow> \<exists>y t. body x s = (Ok (Inl y), t) \<and> I y t"
  shows "fst (loop body x s) = Diverges"
proof -
  have "while_option goes_on (loop_step body) (Ok (Inl x), s) = None"
  proof (rule ccontr)
    assume "while_option goes_on (loop_step body) (Ok (Inl x), s) \<noteq> None"
    then obtain out where out: "while_option goes_on (loop_step body) (Ok (Inl x), s) = Some out"
      by blast
    define P where "P w = (\<exists>x s. w = (Ok (Inl x), s) \<and> I x s)" for w :: "('a + 'c) outcome \<times> 'b"
    have "P out"
    proof (rule while_option_rule [OF _ out])
      show "P (Ok (Inl x), s)" using assms(1) by (auto simp: P_def)
    next
      fix w assume "P w" "goes_on w"
      then show "P (loop_step body w)"
        using assms(2) by (fastforce simp: P_def)
    qed
    moreover have "\<not> goes_on out" by (rule while_option_stop [OF out])
    ultimately show False by (auto simp: P_def)
  qed
  then show ?thesis by (simp add: loop_def)
qed

section \<open>The allocator\<close>

text \<open>
  The state holds the outcomes of the next requests to malloc, calloc and realloc, oldest
  first; a request beyond the end of the schedule succeeds. \<open>alloc\<close> is the pattern
  \<open>p = malloc(n); if (NULL == p) return FAILURE_COULD_NOT_MALLOC\<close>.
\<close>

record env =
  mallocs :: "bool list"

definition malloc :: "('z env_scheme, bool) prog" where
  "malloc s = (case mallocs s of
      [] \<Rightarrow> (Ok True, s)
    | b # bs \<Rightarrow> (Ok b, s\<lparr>mallocs := bs\<rparr>))"

definition alloc :: "('z env_scheme, unit) prog" where
  "alloc = seq malloc (\<lambda>ok. require ok FAILURE_COULD_NOT_MALLOC)"

definition no_oom :: "'z env_scheme \<Rightarrow> bool" where
  "no_oom s \<longleftrightarrow> False \<notin> set (mallocs s)"

text \<open>\<open>alloc_step s t\<close>: \<open>t\<close> is \<open>s\<close> after some allocation requests and nothing else.\<close>

definition alloc_step :: "'z env_scheme \<Rightarrow> 'z env_scheme \<Rightarrow> bool" where
  "alloc_step s t \<longleftrightarrow> (\<exists>n. t = s\<lparr>mallocs := drop n (mallocs s)\<rparr>)"

lemma alloc_step_refl [simp, intro]: "alloc_step s s"
  by (auto simp: alloc_step_def intro: exI [of _ 0])

lemma alloc_step_trans [trans]: "alloc_step s t \<Longrightarrow> alloc_step t u \<Longrightarrow> alloc_step s u"
  by (auto simp: alloc_step_def)

lemma alloc_step_no_oom: "alloc_step s t \<Longrightarrow> no_oom s \<Longrightarrow> no_oom t"
  by (auto simp: alloc_step_def no_oom_def dest: in_set_dropD)

lemma wp_malloc:
  "wp malloc Q E s \<longleftrightarrow>
     (case mallocs s of [] \<Rightarrow> Q True s | b # bs \<Rightarrow> Q b (s\<lparr>mallocs := bs\<rparr>))"
  by (simp add: wp_def malloc_def split: list.split)

lemma wp_mallocI:
  assumes "\<And>b t. alloc_step s t \<Longrightarrow> (no_oom s \<Longrightarrow> b) \<Longrightarrow> Q b t"
  shows "wp malloc Q E s"
proof (cases "mallocs s")
  case Nil
  then show ?thesis using assms by (simp add: wp_malloc)
next
  case (Cons b bs)
  then have "alloc_step s (s\<lparr>mallocs := bs\<rparr>)"
    by (auto simp: alloc_step_def intro: exI [of _ 1])
  moreover from Cons have "no_oom s \<Longrightarrow> b" by (auto simp: no_oom_def)
  ultimately show ?thesis using assms Cons by (simp add: wp_malloc)
qed

lemma wp_allocI:
  assumes "\<And>t. alloc_step s t \<Longrightarrow> Q () t"
    and "\<And>t. alloc_step s t \<Longrightarrow> \<not> no_oom s \<Longrightarrow> E FAILURE_COULD_NOT_MALLOC t"
  shows "wp alloc Q E s"
  unfolding alloc_def wp_seq
  by (rule wp_mallocI) (use assms in auto)

lemma alloc_eq_Ok: "alloc s = (Ok v, t) \<Longrightarrow> alloc_step s t"
  by (auto simp: alloc_def seq_eq_Ok_iff malloc_def alloc_step_def
      split: list.splits intro: exI [of _ 0] exI [of _ "Suc 0"])

lemma alloc_Nil [simp]: "mallocs s = [] \<Longrightarrow> alloc s = (Ok (), s)"
  by (simp add: alloc_def malloc_def seq_def ret_def)

lemma alloc_False [simp]:
  "mallocs s = False # bs \<Longrightarrow> alloc s = (Fail FAILURE_COULD_NOT_MALLOC, s\<lparr>mallocs := bs\<rparr>)"
  by (simp add: alloc_def malloc_def seq_def fail_def)

lemma alloc_cases:
  obtains bs where "alloc s = (Ok (), s\<lparr>mallocs := bs\<rparr>)"
  | bs where "alloc s = (Fail FAILURE_COULD_NOT_MALLOC, s\<lparr>mallocs := bs\<rparr>)"
proof (cases "mallocs s")
  case Nil
  then have "alloc s = (Ok (), s\<lparr>mallocs := []\<rparr>)" by simp
  then show ?thesis by (rule that)
next
  case (Cons b bs)
  show ?thesis
  proof (cases b)
    case True
    with Cons have "alloc s = (Ok (), s\<lparr>mallocs := bs\<rparr>)"
      by (simp add: alloc_def malloc_def seq_def ret_def)
    then show ?thesis by (rule that)
  next
    case False
    with Cons show ?thesis using that by simp
  qed
qed

lemma no_oom_Nil [simp]: "mallocs s = [] \<Longrightarrow> no_oom s"
  by (simp add: no_oom_def)

end
