(* ===== verification/Endian.thy ===== *)
theory Endian
  imports Prelude
begin

unbundle bit_operations_syntax

text \<open>
  src/endian.c and the byte-order functions of the C library. A word is stored in memory as
  its bytes in the host's byte order; \<open>htobe64\<close> and \<open>betoh64\<close> are written in the source with
  byte pointers, so their models take the host's byte order. The lemmas show that what they
  produce in memory does not depend on it.
\<close>

section \<open>Words in memory\<close>

datatype byte_order = Little_Endian | Big_Endian

text \<open>Least significant byte first.\<close>

definition le_bytes :: "'a::len word \<Rightarrow> u8 list" where
  "le_bytes x = map (\<lambda>i. ucast (drop_bit (8 * i) x)) [0..<LENGTH('a) div 8]"

definition of_le_bytes :: "u8 list \<Rightarrow> 'a::len word" where
  "of_le_bytes bs = foldr (\<lambda>b acc. ucast b OR push_bit 8 acc) bs 0"

definition be_bytes :: "'a::len word \<Rightarrow> u8 list" where
  "be_bytes x = rev (le_bytes x)"

definition of_be_bytes :: "u8 list \<Rightarrow> 'a::len word" where
  "of_be_bytes bs = of_le_bytes (rev bs)"

definition mem_of_word :: "byte_order \<Rightarrow> 'a::len word \<Rightarrow> u8 list" where
  "mem_of_word bo x = (case bo of Little_Endian \<Rightarrow> le_bytes x | Big_Endian \<Rightarrow> be_bytes x)"

definition word_of_mem :: "byte_order \<Rightarrow> u8 list \<Rightarrow> 'a::len word" where
  "word_of_mem bo bs =
     (case bo of Little_Endian \<Rightarrow> of_le_bytes bs | Big_Endian \<Rightarrow> of_be_bytes bs)"

lemma of_le_bytes_simps [simp]:
  "of_le_bytes [] = 0"
  "of_le_bytes (b # bs) = (ucast b OR push_bit 8 (of_le_bytes bs))"
  by (simp_all add: of_le_bytes_def)

lemma length_bytes [simp]:
  "length (le_bytes (x :: 'a::len word)) = LENGTH('a) div 8"
  "length (be_bytes (x :: 'a::len word)) = LENGTH('a) div 8"
  "length (mem_of_word bo (x :: 'a::len word)) = LENGTH('a) div 8"
  by (simp_all add: le_bytes_def be_bytes_def mem_of_word_def split: byte_order.split)

lemma bit_le_bytes:
  fixes x :: "'a::len word"
  assumes "i < LENGTH('a) div 8"
  shows "bit (le_bytes x ! i) j \<longleftrightarrow> j < 8 \<and> bit x (8 * i + j)"
  using assms by (auto simp: le_bytes_def bit_simps)

lemma bit_of_le_bytes:
  "bit (of_le_bytes bs :: 'a::len word) n \<longleftrightarrow>
     n < LENGTH('a) \<and> n div 8 < length bs \<and> bit (bs ! (n div 8)) (n mod 8)"
proof (induction bs arbitrary: n)
  case Nil
  then show ?case by simp
next
  case (Cons b bs)
  show ?case
  proof (cases "n < 8")
    case True
    then show ?thesis by (auto simp: bit_simps dest: bit_imp_le_length)
  next
    case False
    then obtain m where m: "n = 8 + m"
      by (metis le_Suc_ex not_less)
    moreover have "\<not> bit b n"
      using False by (auto dest: bit_imp_le_length)
    moreover have "(8 + m) div 8 = Suc (m div 8)"
      by presburger
    ultimately show ?thesis
      using Cons.IH [of m] by (auto simp: bit_simps)
  qed
qed

lemma of_le_bytes_le_bytes [simp]:
  fixes x :: "'a::len word"
  assumes "8 dvd LENGTH('a)"
  shows "of_le_bytes (le_bytes x) = x"
proof (rule bit_word_eqI)
  fix n assume n: "n < LENGTH('a)"
  with assms have i: "n div 8 < LENGTH('a) div 8"
    by (auto simp: dvd_def)
  then show "bit (of_le_bytes (le_bytes x) :: 'a word) n = bit x n"
    using n by (simp add: bit_of_le_bytes bit_le_bytes)
qed

lemma le_bytes_of_le_bytes:
  assumes "8 * length bs = LENGTH('a::len)"
  shows "le_bytes (of_le_bytes bs :: 'a word) = bs"
proof (rule nth_equalityI)
  show l: "length (le_bytes (of_le_bytes bs :: 'a word)) = length bs"
    using assms by simp
  fix i assume "i < length (le_bytes (of_le_bytes bs :: 'a word))"
  with l have i: "i < length bs" by simp
  show "le_bytes (of_le_bytes bs :: 'a word) ! i = bs ! i"
  proof (rule bit_word_eqI)
    fix j assume j: "j < LENGTH(8)"
    then have "8 * i + j < LENGTH('a)" and "(8 * i + j) div 8 = i" and "(8 * i + j) mod 8 = j"
      using i assms by auto
    moreover have "i < LENGTH('a) div 8" using i assms by simp
    ultimately show "bit (le_bytes (of_le_bytes bs :: 'a word) ! i) j = bit (bs ! i) j"
      using i j by (simp add: bit_le_bytes bit_of_le_bytes)
  qed
qed

lemma of_be_bytes_be_bytes [simp]:
  "8 dvd LENGTH('a) \<Longrightarrow> of_be_bytes (be_bytes (x :: 'a::len word)) = x"
  by (simp add: of_be_bytes_def be_bytes_def)

lemma be_bytes_of_be_bytes:
  "8 * length bs = LENGTH('a::len) \<Longrightarrow> be_bytes (of_be_bytes bs :: 'a word) = bs"
  by (simp add: of_be_bytes_def be_bytes_def le_bytes_of_le_bytes)

lemma word_of_mem_of_word [simp]:
  "8 dvd LENGTH('a) \<Longrightarrow> word_of_mem bo (mem_of_word bo (x :: 'a::len word)) = x"
  by (simp add: word_of_mem_def mem_of_word_def split: byte_order.split)

lemma mem_of_word_of_mem:
  "8 * length bs = LENGTH('a::len) \<Longrightarrow> mem_of_word bo (word_of_mem bo bs :: 'a word) = bs"
  by (simp add: word_of_mem_def mem_of_word_def le_bytes_of_le_bytes be_bytes_of_be_bytes
      split: byte_order.split)

lemma be_bytes_inject:
  assumes "8 dvd LENGTH('a::len)"
  shows "be_bytes (x :: 'a word) = be_bytes y \<longleftrightarrow> x = y"
  using of_be_bytes_be_bytes [OF assms] by metis

section \<open>htobe64 and betoh64\<close>

definition htobe64 :: "byte_order \<Rightarrow> u64 \<Rightarrow> u64" where
  "htobe64 bo data = word_of_mem bo
     [ucast (drop_bit 56 data), ucast (drop_bit 48 data), ucast (drop_bit 40 data),
      ucast (drop_bit 32 data), ucast (drop_bit 24 data), ucast (drop_bit 16 data),
      ucast (drop_bit 8 data), ucast (drop_bit 0 data)]"

definition betoh64 :: "byte_order \<Rightarrow> u64 \<Rightarrow> u64" where
  "betoh64 bo data = (let p = mem_of_word bo data in
     push_bit 56 (ucast (p ! 0)) OR push_bit 48 (ucast (p ! 1)) OR push_bit 40 (ucast (p ! 2)) OR
     push_bit 32 (ucast (p ! 3)) OR push_bit 24 (ucast (p ! 4)) OR push_bit 16 (ucast (p ! 5)) OR
     push_bit 8 (ucast (p ! 6)) OR push_bit 0 (ucast (p ! 7)))"

lemma be_bytes_u64:
  "be_bytes (x :: u64) =
     [ucast (drop_bit 56 x), ucast (drop_bit 48 x), ucast (drop_bit 40 x),
      ucast (drop_bit 32 x), ucast (drop_bit 24 x), ucast (drop_bit 16 x),
      ucast (drop_bit 8 x), ucast (drop_bit 0 x)]"
  by (simp add: be_bytes_def le_bytes_def upt_rec)

lemma mem_htobe64 [simp]: "mem_of_word bo (htobe64 bo x) = be_bytes x"
  unfolding htobe64_def be_bytes_u64 by (rule mem_of_word_of_mem) simp

lemma list_8_nth:
  "length p = 8 \<Longrightarrow> p = [p ! 0, p ! 1, p ! 2, p ! 3, p ! 4, p ! 5, p ! 6, p ! 7]"
  by (rule nth_equalityI) (auto simp: less_Suc_eq numeral_eq_Suc)

lemma betoh64_mem: "betoh64 bo x = of_be_bytes (mem_of_word bo x)"
proof -
  define p where "p = mem_of_word bo x"
  have "length p = 8" by (simp add: p_def)
  then have "(of_be_bytes p :: u64) =
    of_be_bytes [p ! 0, p ! 1, p ! 2, p ! 3, p ! 4, p ! 5, p ! 6, p ! 7]"
    using list_8_nth by metis
  also have "\<dots> = betoh64 bo x"
    by (simp add: betoh64_def of_be_bytes_def push_bit_or p_def [symmetric] Let_def
        ac_simps)
  finally show ?thesis by (simp add: p_def)
qed

lemma betoh64_of_mem [simp]:
  "length bs = 8 \<Longrightarrow> betoh64 bo (word_of_mem bo bs) = of_be_bytes bs"
  by (simp add: betoh64_mem mem_of_word_of_mem)

section \<open>htons, htonl, ntohs and ntohl of the C library\<close>

definition htons :: "byte_order \<Rightarrow> u16 \<Rightarrow> u16" where
  "htons bo x = word_of_mem bo (be_bytes x)"

definition ntohs :: "byte_order \<Rightarrow> u16 \<Rightarrow> u16" where
  "ntohs bo x = of_be_bytes (mem_of_word bo x)"

definition htonl :: "byte_order \<Rightarrow> u32 \<Rightarrow> u32" where
  "htonl bo x = word_of_mem bo (be_bytes x)"

definition ntohl :: "byte_order \<Rightarrow> u32 \<Rightarrow> u32" where
  "ntohl bo x = of_be_bytes (mem_of_word bo x)"

lemma mem_htons [simp]: "mem_of_word bo (htons bo x) = be_bytes x"
  and mem_htonl [simp]: "mem_of_word bo (htonl bo y) = be_bytes y"
  by (simp_all add: htons_def htonl_def mem_of_word_of_mem)

lemma ntohs_of_mem [simp]: "length bs = 2 \<Longrightarrow> ntohs bo (word_of_mem bo bs) = of_be_bytes bs"
  and ntohl_of_mem [simp]: "length cs = 4 \<Longrightarrow> ntohl bo (word_of_mem bo cs) = of_be_bytes cs"
  by (simp_all add: ntohs_def ntohl_def mem_of_word_of_mem)

end
