(* ===== verification/Byte_Codec.thy ===== *)
theory Byte_Codec
  imports Endian
begin

text \<open>
  Byte strings of records of a fixed width: the memory image of a transaction, its wire format
  and the wire format of a peer all have one. The interface \<open>fixed_width\<close> states what the
  encoders of single records promise; its lemmas lift that to sequences of records and are
  used through the interpretations in the theories that define the encoders.
\<close>

locale fixed_width =
  fixes enc :: "'a \<Rightarrow> u8 list"
    and wf :: "'a \<Rightarrow> bool"
    and width :: nat
  assumes enc_length: "wf x \<Longrightarrow> length (enc x) = width"
    and enc_inject: "wf x \<Longrightarrow> wf y \<Longrightarrow> enc x = enc y \<Longrightarrow> x = y"
    and width_pos: "0 < width"
begin

lemma concat_length:
  "(\<And>x. x \<in> set xs \<Longrightarrow> wf x) \<Longrightarrow> length (concat (map enc xs)) = width * length xs"
  by (induction xs) (simp_all add: enc_length)

lemma concat_inject:
  assumes "\<And>x. x \<in> set xs \<Longrightarrow> wf x" and "\<And>y. y \<in> set ys \<Longrightarrow> wf y"
    and "concat (map enc xs) = concat (map enc ys)"
  shows "xs = ys"
  using assms
proof (induction xs arbitrary: ys)
  case Nil
  then have "concat (map enc ys) = []" by simp
  then have "width * length ys = 0"
    using concat_length [OF Nil.prems(2)] by (metis list.size(3))
  then show ?case using width_pos by simp
next
  case (Cons x xs)
  then have "width * length ys = width * length (x # xs)"
    using concat_length [of ys] concat_length [of "x # xs"] by metis
  then obtain y ys' where ys: "ys = y # ys'"
    using width_pos by (cases ys) auto
  with Cons.prems have "enc x @ concat (map enc xs) = enc y @ concat (map enc ys')"
    by simp
  then have "enc x = enc y" and "concat (map enc xs) = concat (map enc ys')"
    using Cons.prems(1) [of x] Cons.prems(2) [of y] ys
    by (simp_all add: append_eq_append_conv enc_length)
  then show ?case
    using Cons.IH [of ys'] Cons.prems(1,2) ys by (auto intro: enc_inject)
qed

end

text \<open>Concatenations of parts of known lengths are equal only part by part.\<close>

lemma append_eq_lengthD:
  "xs @ ys = us @ vs \<Longrightarrow> length xs = length us \<Longrightarrow> xs = us \<and> ys = vs"
  by simp

lemma mem_of_word_inject:
  "8 dvd LENGTH('a::len) \<Longrightarrow> mem_of_word bo (x :: 'a word) = mem_of_word bo y \<longleftrightarrow> x = y"
  by (metis word_of_mem_of_word)

section \<open>memcmp\<close>

text \<open>\<open>memcmp\<close> of the C library compares the first \<open>n\<close> bytes of two objects as unsigned
  numbers; both must have as many.\<close>

fun compare_bytes :: "u8 list \<Rightarrow> u8 list \<Rightarrow> int" where
  "compare_bytes (x # xs) (y # ys) =
     (if x = y then compare_bytes xs ys else uint x - uint y)"
| "compare_bytes _ _ = 0"

definition memcmp :: "u8 list \<Rightarrow> u8 list \<Rightarrow> nat \<Rightarrow> ('s, int) prog" where
  "memcmp xs ys n =
     (if n \<le> length xs \<and> n \<le> length ys then ret (compare_bytes (take n xs) (take n ys))
      else undef)"

lemma compare_bytes_eq_0_iff:
  "length xs = length ys \<Longrightarrow> compare_bytes xs ys = 0 \<longleftrightarrow> xs = ys"
  by (induction xs ys rule: compare_bytes.induct) (auto simp: word_uint_eq_iff [symmetric])

lemma wp_memcmp [simp]:
  "wp (memcmp xs ys n) Q E s \<longleftrightarrow>
     n \<le> length xs \<and> n \<le> length ys \<and> Q (compare_bytes (take n xs) (take n ys)) s"
  by (auto simp: memcmp_def)

lemma compare_take_eq_0_iff:
  "n \<le> length xs \<Longrightarrow> n \<le> length ys \<Longrightarrow>
    compare_bytes (take n xs) (take n ys) = 0 \<longleftrightarrow> take n xs = take n ys"
  by (simp add: compare_bytes_eq_0_iff)

lemma memcmp_all:
  "length xs = n \<Longrightarrow> length ys = n \<Longrightarrow> memcmp xs ys n = ret (compare_bytes xs ys)"
  by (simp add: memcmp_def)

end
