(* ===== verification/Cursor.thy ===== *)
theory Cursor
  imports Byte_Codec
begin

text \<open>
  Reading a byte buffer: the pattern of every deserialization function of the program. The
  local variable \<open>next_spot_in_buffer\<close> is the offset \<open>pos\<close> of the cursor. \<open>need\<close> is the check
  \<open>next_spot_in_buffer + k - buffer > buffer_size\<close> before a read, \<open>read_bytes\<close> and \<open>read_u64\<close> are
  the reads themselves: they access the object the buffer points to, \<open>mem\<close>, whose true size
  need not be the \<open>buffer_size\<close> the caller states, and a read past its end is undefined.
\<close>

section \<open>The cursor\<close>

record reader = env +
  pos :: nat

definition need :: "u64 \<Rightarrow> nat \<Rightarrow> (reader, unit) prog" where
  "need buffer_size k = seq get (\<lambda>s.
     require (pos s + k \<le> unat buffer_size) FAILURE_BUFFER_TOO_SMALL)"

definition read_bytes :: "u8 list \<Rightarrow> nat \<Rightarrow> (reader, u8 list) prog" where
  "read_bytes mem k = seq get (\<lambda>s.
     if pos s + k \<le> length mem then
       seq (modify (\<lambda>s. s\<lparr>pos := pos s + k\<rparr>)) (\<lambda>_. ret (take k (drop (pos s) mem)))
     else undef)"

text \<open>\<open>betoh64(*(uint64_t *)next_spot_in_buffer)\<close> and its 16 and 32 bit variants.\<close>

definition read_u64 :: "byte_order \<Rightarrow> u8 list \<Rightarrow> (reader, u64) prog" where
  "read_u64 bo mem = seq (read_bytes mem 8) (\<lambda>bs. ret (betoh64 bo (word_of_mem bo bs)))"

definition read_u32 :: "byte_order \<Rightarrow> u8 list \<Rightarrow> (reader, u32) prog" where
  "read_u32 bo mem = seq (read_bytes mem 4) (\<lambda>bs. ret (ntohl bo (word_of_mem bo bs)))"

definition read_u16 :: "byte_order \<Rightarrow> u8 list \<Rightarrow> (reader, u16) prog" where
  "read_u16 bo mem = seq (read_bytes mem 2) (\<lambda>bs. ret (ntohs bo (word_of_mem bo bs)))"

text \<open>The cursor is a local variable: it starts at the beginning of the buffer and is gone when
  the function returns.\<close>

definition with_cursor :: "(reader, 'a) prog \<Rightarrow> ('z env_scheme, 'a) prog" where
  "with_cursor m s =
     (case m \<lparr>mallocs = mallocs s, pos = 0\<rparr> of (out, r) \<Rightarrow> (out, s\<lparr>mallocs := mallocs r\<rparr>))"

text \<open>Writing a field: \<open>*(uint64_t *)next_spot_in_buffer = htobe64(...)\<close> and its variants.\<close>

definition store_u64 :: "byte_order \<Rightarrow> u64 \<Rightarrow> u8 list" where
  "store_u64 bo x = mem_of_word bo (htobe64 bo x)"

definition store_u32 :: "byte_order \<Rightarrow> u32 \<Rightarrow> u8 list" where
  "store_u32 bo x = mem_of_word bo (htonl bo x)"

definition store_u16 :: "byte_order \<Rightarrow> u16 \<Rightarrow> u8 list" where
  "store_u16 bo x = mem_of_word bo (htons bo x)"

lemma store_simps [simp]:
  "store_u64 bo x = be_bytes x" "store_u32 bo y = be_bytes y" "store_u16 bo z = be_bytes z"
  by (simp_all add: store_u64_def store_u32_def store_u16_def)

text \<open>\<open>calloc(n, 1)\<close> where \<open>n\<close> comes from the network: no object has more than PTRDIFF_MAX
  bytes, so such a request fails.\<close>

definition alloc_bytes :: "u64 \<Rightarrow> ('z env_scheme, unit) prog" where
  "alloc_bytes n = (if unat n < 2 ^ 63 then alloc else fail FAILURE_COULD_NOT_MALLOC)"

section \<open>Total correctness\<close>

lemma wp_need [simp]:
  "wp (need bs k) Q E s \<longleftrightarrow>
     (if pos s + k \<le> unat bs then Q () s else E FAILURE_BUFFER_TOO_SMALL s)"
  by (simp add: need_def)

lemma wp_read_bytes [simp]:
  "wp (read_bytes mem k) Q E s \<longleftrightarrow>
     pos s + k \<le> length mem \<and> Q (take k (drop (pos s) mem)) (s\<lparr>pos := pos s + k\<rparr>)"
  by (auto simp: read_bytes_def)

lemma wp_read_u64 [simp]:
  "wp (read_u64 bo mem) Q E s \<longleftrightarrow>
     pos s + 8 \<le> length mem \<and> Q (of_be_bytes (take 8 (drop (pos s) mem))) (s\<lparr>pos := pos s + 8\<rparr>)"
  by (auto simp: read_u64_def)

lemma wp_read_u32 [simp]:
  "wp (read_u32 bo mem) Q E s \<longleftrightarrow>
     pos s + 4 \<le> length mem \<and> Q (of_be_bytes (take 4 (drop (pos s) mem))) (s\<lparr>pos := pos s + 4\<rparr>)"
  by (auto simp: read_u32_def)

lemma wp_read_u16 [simp]:
  "wp (read_u16 bo mem) Q E s \<longleftrightarrow>
     pos s + 2 \<le> length mem \<and> Q (of_be_bytes (take 2 (drop (pos s) mem))) (s\<lparr>pos := pos s + 2\<rparr>)"
  by (auto simp: read_u16_def)

lemma wp_with_cursor [simp]:
  "wp (with_cursor m) Q E s \<longleftrightarrow>
     wp m (\<lambda>v r. Q v (s\<lparr>mallocs := mallocs r\<rparr>)) (\<lambda>c r. E c (s\<lparr>mallocs := mallocs r\<rparr>))
       \<lparr>mallocs = mallocs s, pos = 0\<rparr>"
  by (auto simp: wp_def with_cursor_def split: prod.splits outcome.splits)

lemma no_oom_pos [simp]: "no_oom (s\<lparr>pos := p\<rparr>) = no_oom s"
  by (simp add: no_oom_def)

lemma alloc_step_pos: "alloc_step s t \<Longrightarrow> pos t = pos s"
  by (auto simp: alloc_step_def)

lemma no_oom_reader [simp]: "no_oom \<lparr>mallocs = mallocs s, pos = p\<rparr> = no_oom (s :: 'z env_scheme)"
  by (simp add: no_oom_def)

section \<open>Conditional correctness\<close>

text \<open>\<open>wp_unless U\<close> is \<open>wp\<close> except that it allows undefined behaviour when \<open>U\<close> holds: one
  induction over a deserializer shows both when it is defined and what its result is when it
  happens to have one.\<close>

definition wp_unless ::
  "bool \<Rightarrow> ('s, 'a) prog \<Rightarrow> ('a \<Rightarrow> 's \<Rightarrow> bool) \<Rightarrow> (return_code_t \<Rightarrow> 's \<Rightarrow> bool) \<Rightarrow> 's \<Rightarrow> bool"
  where "wp_unless U m Q E s =
     (case m s of
        (Ok v, t) \<Rightarrow> Q v t
      | (Fail c, t) \<Rightarrow> E c t
      | (Undefined, t) \<Rightarrow> U
      | (Diverges, t) \<Rightarrow> False)"

lemma wp_unless_ret [simp]: "wp_unless U (ret v) Q E s = Q v s"
  by (simp add: wp_unless_def ret_def)

lemma wp_unless_fail [simp]: "wp_unless U (fail c) Q E s = E c s"
  by (simp add: wp_unless_def fail_def)

lemma wp_unless_undef [simp]: "wp_unless U undef Q E s = U"
  by (simp add: wp_unless_def undef_def)

lemma wp_unless_get [simp]: "wp_unless U get Q E s = Q s s"
  by (simp add: wp_unless_def get_def)

lemma wp_unless_modify [simp]: "wp_unless U (modify f) Q E s = Q () (f s)"
  by (simp add: wp_unless_def modify_def)

lemma wp_unless_require [simp]:
  "wp_unless U (require b c) Q E s = ((b \<longrightarrow> Q () s) \<and> (\<not> b \<longrightarrow> E c s))"
  by (simp add: require_def)

lemma wp_unless_seq [simp]:
  "wp_unless U (seq m f) Q E s = wp_unless U m (\<lambda>v. wp_unless U (f v) Q E) E s"
  by (auto simp: wp_unless_def seq_def split: prod.split outcome.split)

lemma wp_unless_seqI:
  "wp_unless U m (\<lambda>v. wp_unless U (f v) Q E) E s \<Longrightarrow> wp_unless U (seq m f) Q E s"
  by simp

lemma wp_unless_if [simp]:
  "wp_unless U (if b then m else n) Q E s =
     ((b \<longrightarrow> wp_unless U m Q E s) \<and> (\<not> b \<longrightarrow> wp_unless U n Q E s))"
  by simp

lemma wp_imp_wp_unless: "wp m Q E s \<Longrightarrow> wp_unless U m Q E s"
  by (auto simp: wp_def wp_unless_def split: prod.splits outcome.splits)

lemma wp_unless_imp_wp: "wp_unless U m Q E s \<Longrightarrow> \<not> U \<Longrightarrow> wp m Q E s"
  by (auto simp: wp_def wp_unless_def split: prod.splits outcome.splits)

lemma wp_unless_mono:
  assumes "wp_unless U m Q E s"
    and "\<And>v t. Q v t \<Longrightarrow> Q' v t" and "\<And>c t. E c t \<Longrightarrow> E' c t"
  shows "wp_unless U m Q' E' s"
  using assms by (auto simp: wp_unless_def split: prod.splits outcome.splits)

lemma wp_unless_D: "wp_unless U m Q E s \<Longrightarrow> m s = (Ok v, t) \<Longrightarrow> Q v t"
  by (simp add: wp_unless_def)

lemma wp_unless_need [simp]:
  "wp_unless U (need bs k) Q E s \<longleftrightarrow>
     (if pos s + k \<le> unat bs then Q () s else E FAILURE_BUFFER_TOO_SMALL s)"
  by (simp add: need_def)

lemma wp_unless_read_bytes [simp]:
  "wp_unless U (read_bytes mem k) Q E s \<longleftrightarrow>
     (if pos s + k \<le> length mem then Q (take k (drop (pos s) mem)) (s\<lparr>pos := pos s + k\<rparr>) else U)"
  by (simp add: read_bytes_def)

lemma wp_unless_read_u64 [simp]:
  "wp_unless U (read_u64 bo mem) Q E s \<longleftrightarrow>
     (if pos s + 8 \<le> length mem
      then Q (of_be_bytes (take 8 (drop (pos s) mem))) (s\<lparr>pos := pos s + 8\<rparr>) else U)"
  by (simp add: read_u64_def)

lemma wp_unless_read_u32 [simp]:
  "wp_unless U (read_u32 bo mem) Q E s \<longleftrightarrow>
     (if pos s + 4 \<le> length mem
      then Q (of_be_bytes (take 4 (drop (pos s) mem))) (s\<lparr>pos := pos s + 4\<rparr>) else U)"
  by (simp add: read_u32_def)

lemma wp_unless_read_u16 [simp]:
  "wp_unless U (read_u16 bo mem) Q E s \<longleftrightarrow>
     (if pos s + 2 \<le> length mem
      then Q (of_be_bytes (take 2 (drop (pos s) mem))) (s\<lparr>pos := pos s + 2\<rparr>) else U)"
  by (simp add: read_u16_def)

lemma wp_unless_allocI:
  assumes "\<And>t. alloc_step s t \<Longrightarrow> Q () t"
    and "\<And>t. alloc_step s t \<Longrightarrow> \<not> no_oom s \<Longrightarrow> E FAILURE_COULD_NOT_MALLOC t"
  shows "wp_unless U alloc Q E s"
  by (rule wp_imp_wp_unless, rule wp_allocI) (use assms in auto)

lemma wp_unless_with_cursor [simp]:
  "wp_unless U (with_cursor m) Q E s \<longleftrightarrow>
     wp_unless U m (\<lambda>v r. Q v (s\<lparr>mallocs := mallocs r\<rparr>)) (\<lambda>c r. E c (s\<lparr>mallocs := mallocs r\<rparr>))
       \<lparr>mallocs = mallocs s, pos = 0\<rparr>"
  by (auto simp: wp_unless_def with_cursor_def split: prod.splits outcome.splits)

section \<open>Undefined behaviour\<close>

definition undefined_at :: "('s, 'a) prog \<Rightarrow> 's \<Rightarrow> bool" where
  "undefined_at m s \<longleftrightarrow> fst (m s) = Undefined"

lemma undefined_at_seqI:
  "wp m (\<lambda>v. undefined_at (f v)) (\<lambda>_ _. False) s \<Longrightarrow> undefined_at (seq m f) s"
  by (auto simp: wp_def seq_def undefined_at_def split: prod.splits outcome.splits)

lemma undefined_at_seq1: "undefined_at m s \<Longrightarrow> undefined_at (seq m f) s"
  by (auto simp: undefined_at_def seq_def split: prod.split outcome.split)

lemma undefined_at_require [simp]:
  "undefined_at (seq (require b c) f) s \<longleftrightarrow> b \<and> undefined_at (f ()) s"
  by (simp add: undefined_at_def fail_def require_def)

lemma undefined_at_need [simp]:
  "undefined_at (seq (need bs k) f) s \<longleftrightarrow> pos s + k \<le> unat bs \<and> undefined_at (f ()) s"
  by (simp add: undefined_at_def need_def seq_def prog_basic)

lemma undefined_at_read_bytes [simp]:
  "undefined_at (seq (read_bytes mem k) f) s \<longleftrightarrow>
     (pos s + k \<le> length mem \<longrightarrow>
        undefined_at (f (take k (drop (pos s) mem))) (s\<lparr>pos := pos s + k\<rparr>))"
  by (simp add: undefined_at_def read_bytes_def seq_def prog_basic)

lemma undefined_at_read_u64 [simp]:
  "undefined_at (seq (read_u64 bo mem) f) s \<longleftrightarrow>
     (pos s + 8 \<le> length mem \<longrightarrow>
        undefined_at (f (of_be_bytes (take 8 (drop (pos s) mem)))) (s\<lparr>pos := pos s + 8\<rparr>))"
  by (simp add: undefined_at_def read_u64_def read_bytes_def seq_def prog_basic)

lemma undefined_at_allocI:
  "no_oom s \<Longrightarrow> (\<And>t. alloc_step s t \<Longrightarrow> no_oom t \<Longrightarrow> undefined_at (f ()) t) \<Longrightarrow>
    undefined_at (seq alloc f) s"
  by (rule undefined_at_seqI, rule wp_allocI) (auto dest: alloc_step_no_oom)

lemma undefined_at_with_cursor:
  "undefined_at (with_cursor m) s \<longleftrightarrow> undefined_at m \<lparr>mallocs = mallocs s, pos = 0\<rparr>"
  by (simp add: undefined_at_def with_cursor_def split: prod.split)

section \<open>Programs that change nothing but the schedule of the allocator\<close>

definition takes_mallocs :: "('z env_scheme, 'a) prog \<Rightarrow> bool" where
  "takes_mallocs m \<longleftrightarrow> (\<forall>s. \<exists>k. mallocs (snd (m s)) = drop k (mallocs s))"

named_theorems takes "closure of takes_mallocs under the program combinators"

lemma takes_basic [takes]:
  "takes_mallocs (ret v)" "takes_mallocs (fail c)" "takes_mallocs undef" "takes_mallocs get"
  "takes_mallocs (require b c)"
  by (auto simp: takes_mallocs_def prog_basic intro: exI [of _ 0])

lemma takes_seq [takes]:
  assumes "takes_mallocs m" and "\<And>v. takes_mallocs (f v)"
  shows "takes_mallocs (seq m f)"
  unfolding takes_mallocs_def
proof
  fix s
  obtain out t where m: "m s = (out, t)" by (cases "m s")
  obtain k where k: "mallocs t = drop k (mallocs s)"
    using assms(1) m unfolding takes_mallocs_def by (metis snd_conv)
  show "\<exists>k. mallocs (snd (seq m f s)) = drop k (mallocs s)"
  proof (cases out)
    case (Ok v)
    obtain j where "mallocs (snd (f v t)) = drop j (mallocs t)"
      using assms(2) [of v] unfolding takes_mallocs_def by blast
    then show ?thesis using Ok m k by (auto simp: seq_def)
  qed (use m k in \<open>auto simp: seq_def\<close>)
qed

lemma takes_malloc [takes]: "takes_mallocs malloc"
  by (auto simp: takes_mallocs_def malloc_def split: list.split intro: exI [of _ 0] exI [of _ "Suc 0"])

lemma takes_alloc [takes]: "takes_mallocs alloc"
  unfolding alloc_def by (intro takes)

lemma takes_if [takes]: "takes_mallocs m \<Longrightarrow> takes_mallocs n \<Longrightarrow> takes_mallocs (if b then m else n)"
  by simp

lemma takes_pos [takes]: "takes_mallocs (modify (\<lambda>s :: reader. s\<lparr>pos := g s\<rparr>))"
  by (auto simp: takes_mallocs_def prog_basic intro: exI [of _ 0])

lemma takes_reads [takes]:
  "takes_mallocs (need bs k)" "takes_mallocs (read_bytes mem n)"
  "takes_mallocs (read_u64 bo mem)" "takes_mallocs (read_u32 bo mem)" "takes_mallocs (read_u16 bo mem)"
  unfolding need_def read_bytes_def read_u64_def read_u32_def read_u16_def
  by (intro takes)+

lemma takes_with_cursor:
  assumes "takes_mallocs m"
  shows "alloc_step s (snd (with_cursor m s))"
proof -
  obtain k where "mallocs (snd (m \<lparr>mallocs = mallocs s, pos = 0\<rparr>)) = drop k (mallocs s)"
    using assms unfolding takes_mallocs_def by (metis env.select_convs(1))
  then show ?thesis
    by (auto simp: with_cursor_def alloc_step_def split: prod.split)
qed

lemma wp_frame:
  "wp m Q E s \<Longrightarrow> alloc_step s (snd (m s)) \<Longrightarrow>
    wp m (\<lambda>v t. Q v t \<and> alloc_step s t) (\<lambda>e t. E e t \<and> alloc_step s t) s"
  by (auto simp: wp_def split: prod.splits outcome.splits)

section \<open>What stands in a buffer\<close>

text \<open>\<open>sits mem p x\<close>: the bytes \<open>x\<close> stand at offset \<open>p\<close> of the object.\<close>

definition sits :: "u8 list \<Rightarrow> nat \<Rightarrow> u8 list \<Rightarrow> bool" where
  "sits mem p x \<longleftrightarrow> take (length x) (drop p mem) = x"

lemma sits_length: "sits mem p x \<Longrightarrow> x \<noteq> [] \<Longrightarrow> p + length x \<le> length mem"
proof -
  assume "sits mem p x" and "x \<noteq> []"
  then have "length (take (length x) (drop p mem)) = length x" and "0 < length x"
    by (simp_all add: sits_def)
  then show ?thesis by (cases x) (auto simp: min_def split: if_splits)
qed

lemma sits_Nil [simp]: "sits mem p []"
  by (simp add: sits_def)

lemma sits_append:
  "sits mem p (x @ y) \<longleftrightarrow> sits mem p x \<and> sits mem (p + length x) y"
proof -
  have "take (length x + length y) (drop p mem) =
      take (length x) (drop p mem) @ take (length y) (drop (p + length x) mem)"
    by (simp add: take_add add.commute)
  moreover have "a @ b = x @ y \<longleftrightarrow> a = x \<and> b = y"
    if "length a \<le> length x" "length b \<le> length y" for a b :: "u8 list"
  proof
    assume eq: "a @ b = x @ y"
    then have "length a + length b = length x + length y"
      by (metis length_append)
    with that have "length a = length x" by simp
    with eq show "a = x \<and> b = y" by simp
  qed simp
  ultimately show ?thesis by (simp add: sits_def)
qed

lemma sits_take: "p + k \<le> length mem \<Longrightarrow> sits mem p (take k (drop p mem))"
  by (simp add: sits_def)

lemma sits_take_eq: "sits mem p x \<Longrightarrow> k = length x \<Longrightarrow> take k (drop p mem) = x"
  by (simp add: sits_def)

lemma sits_0: "sits mem 0 x \<longleftrightarrow> take (length x) mem = x"
  by (simp add: sits_def)

lemma sits_whole [simp]: "sits (x @ y) 0 x"
  by (simp add: sits_def)

lemma sits_be_bytes:
  assumes "8 * k = LENGTH('a::len)" and "p + k \<le> length mem"
  shows "sits mem p (be_bytes (of_be_bytes (take k (drop p mem)) :: 'a word))"
  using assms by (subst be_bytes_of_be_bytes) (simp_all add: sits_take)

lemma of_be_bytes_sits:
  assumes "sits mem p (be_bytes (x :: 'a::len word))" and "8 * k = LENGTH('a)"
  shows "of_be_bytes (take k (drop p mem)) = x"
proof -
  have "length (be_bytes x) = k" using assms(2) by (simp add: length_bytes)
  then have "take k (drop p mem) = be_bytes x"
    using assms(1) by (simp add: sits_def)
  then show ?thesis using assms(2) by (metis dvd_triv_left of_be_bytes_be_bytes)
qed

end
