(* ===== verification/Sockets.thy ===== *)
theory Sockets
  imports Cursor
begin

text \<open>
  \<open>recv_all\<close> and \<open>send_all\<close> of src/networking.c over a model of a connected socket. What the
  peer and the network do is data of the state: the results of the next calls to recv, and how
  much the next calls to send accept. Once the results of recv run out the peer has closed the
  connection, and recv returns 0 as documented. One call transfers less than 2 GiB, so that its
  result fits the \<open>int\<close> of the source.
\<close>

section \<open>Sockets\<close>

datatype recv_result = Recv_Error | Received "u8 list"

record net = env +
  recvs :: "recv_result list"
  sends :: "nat option list"
  sent :: "u8 list"

text \<open>\<open>recv\<close> returns at most \<open>len\<close> bytes, \<open>None\<close> for a negative result.\<close>

definition recv :: "nat \<Rightarrow> ('z net_scheme, u8 list option) prog" where
  "recv len s =
     (case recvs s of
        [] \<Rightarrow> (Ok (Some []), s)
      | Recv_Error # rs \<Rightarrow> (Ok None, s\<lparr>recvs := rs\<rparr>)
      | Received bs # rs \<Rightarrow>
          if length bs \<le> len then (Ok (Some bs), s\<lparr>recvs := rs\<rparr>)
          else (Ok (Some (take len bs)), s\<lparr>recvs := Received (drop len bs) # rs\<rparr>))"

text \<open>\<open>send\<close> takes a part of the bytes, or fails; with no limit left it takes them all.\<close>

definition send :: "u8 list \<Rightarrow> ('z net_scheme, nat option) prog" where
  "send bs s =
     (case sends s of
        [] \<Rightarrow> (Ok (Some (length bs)), s\<lparr>sent := sent s @ bs\<rparr>)
      | None # ns \<Rightarrow> (Ok None, s\<lparr>sends := ns\<rparr>)
      | Some n # ns \<Rightarrow>
          (Ok (Some (min n (length bs))), s\<lparr>sends := ns, sent := sent s @ take n bs\<rparr>))"

section \<open>recv_all and send_all\<close>

text \<open>\<open>capacity\<close> is the size of the object behind \<open>buf\<close>; the result is what was written to
  it.\<close>

definition recv_all :: "nat option \<Rightarrow> nat \<Rightarrow> ('z net_scheme, u8 list) prog" where
  "recv_all buf len =
     (case buf of
        None \<Rightarrow> fail FAILURE_INVALID_INPUT
      | Some capacity \<Rightarrow>
          loop (\<lambda>received.
            if length received \<noteq> len then
              seq (recv (len - length received)) (\<lambda>r. case r of
                  None \<Rightarrow> fail FAILURE_NETWORK_FUNCTION
                | Some bs \<Rightarrow>
                    if capacity < length received + length bs then undef
                    else ret (Inl (received @ bs)))
            else ret (Inr received)) [])"

definition send_all :: "u8 list option \<Rightarrow> nat \<Rightarrow> ('z net_scheme, unit) prog" where
  "send_all buf len =
     (case buf of
        None \<Rightarrow> fail FAILURE_INVALID_INPUT
      | Some bytes \<Rightarrow>
          if length bytes < len then undef
          else
            loop (\<lambda>total_bytes_sent.
              if total_bytes_sent \<noteq> len then
                seq (send (take (len - total_bytes_sent) (drop total_bytes_sent bytes))) (\<lambda>r. case r of
                    None \<Rightarrow> fail FAILURE_NETWORK_FUNCTION
                  | Some n \<Rightarrow> ret (Inl (total_bytes_sent + n)))
              else ret (Inr ())) 0)"

section \<open>The stream behind the calls\<close>

text \<open>\<open>stream rs = (bs, ok)\<close>: the bytes that arrive before the first error, and whether there
  is none.\<close>

fun stream :: "recv_result list \<Rightarrow> u8 list \<times> bool" where
  "stream [] = ([], True)"
| "stream (Recv_Error # rs) = ([], False)"
| "stream (Received bs # rs) = (bs @ fst (stream rs), snd (stream rs))"

abbreviation arriving :: "('z net_scheme) \<Rightarrow> u8 list" where
  "arriving s \<equiv> fst (stream (recvs s))"

abbreviation recv_fails :: "('z net_scheme) \<Rightarrow> bool" where
  "recv_fails s \<equiv> \<not> snd (stream (recvs s))"

lemma recv_cases:
  assumes "0 < len"
  obtains "recv len s = (Ok (Some []), s)" "recvs s = []"
  | rs where "recv len s = (Ok None, s\<lparr>recvs := rs\<rparr>)" "arriving s = []" "recv_fails s"
  | bs rs where "recv len s = (Ok (Some bs), s\<lparr>recvs := rs\<rparr>)" "length bs \<le> len"
      "stream (recvs s) = (bs @ fst (stream rs), snd (stream rs))"
      "length rs < length (recvs s) \<or> bs \<noteq> [] \<and> length rs = length (recvs s)"
proof (cases "recvs s")
  case Nil
  then show ?thesis using that(1) by (simp add: recv_def)
next
  case (Cons r rs)
  show ?thesis
  proof (cases r)
    case Recv_Error
    then show ?thesis using that(2) Cons by (simp add: recv_def)
  next
    case (Received bs)
    show ?thesis
    proof (cases "length bs \<le> len")
      case True
      then show ?thesis using that(3) [of bs rs] Cons Received by (simp add: recv_def)
    next
      case False
      have "recv len s = (Ok (Some (take len bs)), s\<lparr>recvs := Received (drop len bs) # rs\<rparr>)"
        using Cons Received False by (simp add: recv_def)
      moreover have "stream (recvs s) = (take len bs @ fst (stream (Received (drop len bs) # rs)),
          snd (stream (Received (drop len bs) # rs)))"
        using Cons Received by simp
      ultimately show ?thesis
        using that(3) [of "take len bs" "Received (drop len bs) # rs"] Cons False
          assms by (cases bs) (auto simp: recv_def Received)
    qed
  qed
qed


text \<open>What \<open>recv_all\<close> does from the state \<open>s\<close> with \<open>received\<close> already in the buffer.\<close>

definition recv_result_ok ::
  "nat \<Rightarrow> nat \<Rightarrow> u8 list \<Rightarrow> 'z net_scheme \<Rightarrow> u8 list outcome \<times> 'z net_scheme \<Rightarrow> bool" where
  "recv_result_ok capacity len received s result \<longleftrightarrow>
     (let bs = received @ arriving s in
      if len \<le> length bs \<and> len \<le> capacity then
        \<exists>rs. result = (Ok (take len bs), s\<lparr>recvs := rs\<rparr>) \<and>
          stream rs = (drop (len - length received) (arriving s), snd (stream (recvs s)))
      else if capacity < length bs then fst result = Undefined
      else if recv_fails s then fst result = Fail FAILURE_NETWORK_FUNCTION
      else fst result = Diverges)"

lemma recv_loop:
  fixes s :: "'z net_scheme"
  defines "body \<equiv> \<lambda>capacity len received :: u8 list.
    if length received \<noteq> len then
      seq (recv (len - length received)) (\<lambda>r. case r of
          None \<Rightarrow> fail FAILURE_NETWORK_FUNCTION
        | Some bs \<Rightarrow>
            if capacity < length received + length bs then undef
            else ret (Inl (received @ bs)))
    else ret (Inr received)"
  assumes "length received \<le> len" and "length received \<le> capacity"
  shows "recv_result_ok capacity len received s (loop (body capacity len) received s)"
  using assms(2,3)
proof (induction "length (recvs s) + (len - length received)" arbitrary: received s
    rule: less_induct)
  case less
  let ?body = "body capacity len"
  show ?case
  proof (cases "length received = len")
    case True
    then have "?body received s = (Ok (Inr received), s)"
      by (simp add: body_def ret_def)
    then have "loop ?body received s = (Ok received, s)"
      by (rule loop_exit_Inr)
    moreover have "s = s\<lparr>recvs := recvs s\<rparr>" by simp
    ultimately show ?thesis
      using True less.prems by (auto simp: recv_result_ok_def intro!: exI [of _ "recvs s"])
  next
    case False
    then have pos: "0 < len - length received" using less.prems by simp
    show ?thesis
    proof (rule recv_cases [OF pos, of s])
      assume r: "recv (len - length received) s = (Ok (Some []), s)" "recvs s = []"
      have "fst (loop ?body received s) = Diverges"
      proof (rule loop_diverges [where I = "\<lambda>x t. x = received \<and> t = s"])
        fix x t assume "x = received \<and> t = s"
        then show "\<exists>y u. ?body x t = (Ok (Inl y), u) \<and> y = received \<and> u = s"
          using False r less.prems by (simp add: body_def seq_Ok ret_def)
      qed simp
      then show ?thesis
        using r(2) less.prems False by (simp add: recv_result_ok_def Let_def)
    next
      fix rs
      assume r: "recv (len - length received) s = (Ok None, s\<lparr>recvs := rs\<rparr>)" "arriving s = []"
        "recv_fails s"
      then have "?body received s = (Fail FAILURE_NETWORK_FUNCTION, s\<lparr>recvs := rs\<rparr>)"
        using False by (simp add: body_def seq_Ok fail_def)
      then have "loop ?body received s = (Fail FAILURE_NETWORK_FUNCTION, s\<lparr>recvs := rs\<rparr>)"
        by (rule loop_exit_Fail)
      then show ?thesis
        using r(2,3) less.prems False by (simp add: recv_result_ok_def Let_def)
    next
      fix bs rs
      assume r: "recv (len - length received) s = (Ok (Some bs), s\<lparr>recvs := rs\<rparr>)"
        and le: "length bs \<le> len - length received"
        and str: "stream (recvs s) = (bs @ fst (stream rs), snd (stream rs))"
        and down: "length rs < length (recvs s) \<or> bs \<noteq> [] \<and> length rs = length (recvs s)"
      show ?thesis
      proof (cases "capacity < length received + length bs")
        case True
        then have "?body received s = (Undefined, s\<lparr>recvs := rs\<rparr>)"
          using False r by (simp add: body_def seq_Ok undef_def)
        then have "loop ?body received s = (Undefined, s\<lparr>recvs := rs\<rparr>)"
          by (rule loop_exit_Undefined)
        then show ?thesis
          using True str le pos by (auto simp: recv_result_ok_def Let_def)
      next
        case fits: False
        let ?t = "s\<lparr>recvs := rs\<rparr>"
        have step: "?body received s = (Ok (Inl (received @ bs)), ?t)"
          using False r fits by (simp add: body_def seq_Ok ret_def)
        have "length (recvs ?t) + (len - length (received @ bs)) <
            length (recvs s) + (len - length received)"
          using down le pos by (cases bs) auto
        from less.hyps [OF this] have IH:
          "recv_result_ok capacity len (received @ bs) ?t (loop ?body (received @ bs) ?t)"
          using le fits pos by simp
        note cont = loop_continue [where body = ?body, OF step]
        from IH show ?thesis
          using str le pos cont
          by (auto simp: recv_result_ok_def Let_def split: if_splits)
      qed
    qed
  qed
qed

lemma recv_all_result:
  "recv_result_ok capacity len [] s (recv_all (Some capacity) len s)"
  using recv_loop [of "[]" len capacity s] by (simp add: recv_all_def)

lemma wp_recv_all:
  assumes "len \<le> length (arriving s)" and "len \<le> capacity"
  shows "wp (recv_all (Some capacity) len)
    (\<lambda>bs t. bs = take len (arriving s) \<and> (\<exists>rs. t = s\<lparr>recvs := rs\<rparr> \<and>
       stream rs = (drop len (arriving s), snd (stream (recvs s)))))
    (\<lambda>_ _. False) s"
  using recv_all_result [of capacity len s] assms
  by (auto simp: recv_result_ok_def wp_def Let_def) blast


section \<open>send_all sends a prefix\<close>

lemma wp_send:
  "wp (send bs) Q E s \<longleftrightarrow>
     (case sends s of
        [] \<Rightarrow> Q (Some (length bs)) (s\<lparr>sent := sent s @ bs\<rparr>)
      | None # ns \<Rightarrow> Q None (s\<lparr>sends := ns\<rparr>)
      | Some n # ns \<Rightarrow> Q (Some (min n (length bs))) (s\<lparr>sends := ns, sent := sent s @ take n bs\<rparr>))"
  by (simp add: wp_def send_def split: list.split option.split)

lemma wp_send_all:
  assumes "len \<le> length bytes"
  shows "wp (send_all (Some bytes) len)
    (\<lambda>_ t. sent t = sent s @ take len bytes \<and> recvs t = recvs s \<and> mallocs t = mallocs s)
    (\<lambda>e t. e = FAILURE_NETWORK_FUNCTION \<and> None \<in> set (sends s) \<and>
       (\<exists>k < len. sent t = sent s @ take k bytes)) (s :: 'z net_scheme)"
proof -
  define I where "I = (\<lambda>n (t :: 'z net_scheme). n \<le> len \<and> sent t = sent s @ take n bytes \<and>
    recvs t = recvs s \<and> mallocs t = mallocs s \<and> set (sends t) \<subseteq> set (sends s))"
  let ?r = "measure (\<lambda>(n :: nat, t :: 'z net_scheme). length (sends t) + (len - n))"
  have "wp (loop (\<lambda>total_bytes_sent.
      if total_bytes_sent \<noteq> len then
        seq (send (take (len - total_bytes_sent) (drop total_bytes_sent bytes))) (\<lambda>r. case r of
            None \<Rightarrow> fail FAILURE_NETWORK_FUNCTION
          | Some n \<Rightarrow> ret (Inl (total_bytes_sent + n)))
      else ret (Inr ())) 0)
    (\<lambda>_ t. sent t = sent s @ take len bytes \<and> recvs t = recvs s \<and> mallocs t = mallocs s)
    (\<lambda>e t. e = FAILURE_NETWORK_FUNCTION \<and> None \<in> set (sends s) \<and>
       (\<exists>k < len. sent t = sent s @ take k bytes)) s"
  proof (rule wp_loop [where I = I and r = ?r])
    fix n and t :: "'z net_scheme"
    assume I: "I n t"
    have add: "take n bytes @ take k (take (len - n) (drop n bytes)) = take (n + min k (len - n)) bytes"
      for k
      by (simp add: take_add min_def)
    show "wp (if n \<noteq> len then
        seq (send (take (len - n) (drop n bytes))) (\<lambda>r. case r of
            None \<Rightarrow> fail FAILURE_NETWORK_FUNCTION
          | Some m \<Rightarrow> ret (Inl (n + m)))
      else ret (Inr ()))
      (\<lambda>v u. case v of Inl m \<Rightarrow> I m u \<and> ((m, u), (n, t)) \<in> ?r
        | Inr z \<Rightarrow> sent u = sent s @ take len bytes \<and> recvs u = recvs s \<and> mallocs u = mallocs s)
      (\<lambda>e t. e = FAILURE_NETWORK_FUNCTION \<and> None \<in> set (sends s) \<and>
         (\<exists>k < len. sent t = sent s @ take k bytes)) t"
      using I assms add [of "len - n"]
      by (auto simp: wp_send I_def min_def take_add [symmetric] intro: exI [of _ n]
          split: list.split option.split)
  qed (auto simp: I_def)
  then show ?thesis
    using assms by (simp add: send_all_def)
qed


section \<open>Properties\<close>

text \<open>C35. recv_all, in every case of what arrives: if at least len bytes arrive before an error it
  returns exactly the first len of them, however they are cut into pieces, and leaves the rest
  for the next call; if the buffer is smaller than what arrives it writes past its end; if an
  error comes first it returns FAILURE_NETWORK_FUNCTION; and if the peer closes the connection
  before len bytes it never returns, because it takes the result 0 of recv for progress.\<close>

theorem recv_all_cases:
  "(len \<le> length (arriving s) \<and> len \<le> capacity \<longrightarrow>
      (\<exists>t. recv_all (Some capacity) len s = (Ok (take len (arriving s)), t) \<and>
         arriving t = drop len (arriving s))) \<and>
   (capacity < len \<and> capacity < length (arriving s) \<longrightarrow>
      fst (recv_all (Some capacity) len s) = Undefined) \<and>
   (length (arriving s) < len \<and> length (arriving s) \<le> capacity \<longrightarrow>
      fst (recv_all (Some capacity) len s) =
        (if recv_fails s then Fail FAILURE_NETWORK_FUNCTION else Diverges))"
  using recv_all_result [of capacity len s]
  by (auto simp: recv_result_ok_def Let_def split: if_splits)

definition toy_net :: "recv_result list \<Rightarrow> nat option list \<Rightarrow> net" where
  "toy_net rs ns = \<lparr>mallocs = [], recvs = rs, sends = ns, sent = []\<rparr>"

theorem recv_all_cases_witness:
  "fst (recv_all (Some 16) 4 (toy_net [Received [1, 2, 3], Received [4, 5]] [])) = Ok [1, 2, 3, 4] \<and>
   fst (recv_all (Some 16) 4 (toy_net [Received [1, 2, 3]] [])) = Diverges \<and>
   fst (recv_all (Some 16) 4 (toy_net [Received [1], Recv_Error] [])) = Fail FAILURE_NETWORK_FUNCTION \<and>
   fst (recv_all (Some 2) 4 (toy_net [Received [1, 2, 3, 4]] [])) = Undefined"
  using recv_all_cases [of 4 "toy_net [Received [1, 2, 3], Received [4, 5]] []" 16]
    recv_all_cases [of 4 "toy_net [Received [1, 2, 3]] []" 16]
    recv_all_cases [of 4 "toy_net [Received [1], Recv_Error] []" 16]
    recv_all_cases [of 4 "toy_net [Received [1, 2, 3, 4]] []" 2]
  by (auto simp: toy_net_def)

text \<open>send_all always returns: with SUCCESS when it has sent exactly the first len bytes of the
  buffer, in order, or with FAILURE_NETWORK_FUNCTION when send fails, after a shorter prefix of
  them.\<close>

theorem send_all_sends_prefix:
  assumes "len \<le> length bytes"
  shows "wp (send_all (Some bytes) len)
    (\<lambda>_ t. sent t = sent s @ take len bytes)
    (\<lambda>e t. e = FAILURE_NETWORK_FUNCTION \<and> None \<in> set (sends s) \<and>
       (\<exists>k < len. sent t = sent s @ take k bytes)) s"
  by (rule wp_mono [OF wp_send_all [OF assms]]) auto

theorem send_all_sends_prefix_witness:
  "wp (send_all (Some [1, 2, 3]) 3) (\<lambda>_ t. sent t = [1, 2, 3]) (\<lambda>_ _. False)
    (toy_net [] [Some 1, Some 0])"
  by (rule wp_mono [OF send_all_sends_prefix]) (auto simp: toy_net_def)

end
