(* ===== verification/Networking.thy ===== *)
theory Networking
  imports Sockets
begin

text \<open>
  The commands of the network protocol of src/networking.c: a header of 16 bytes (the prefix
  "LEO", a command code and the length of the payload), and the three commands with a payload.
  The interface \<open>command_codec\<close> states what a node may rely on when it sends a command and when
  it reads one; it is interpreted for each of the commands.
\<close>

section \<open>Headers\<close>

definition COMMAND_PREFIX_LEN :: nat where
  "COMMAND_PREFIX_LEN = 4"

definition COMMAND_PREFIX :: "u8 list" where
  "COMMAND_PREFIX = [0x4C, 0x45, 0x4F, 0]"

datatype command_t =
    COMMAND_OK
  | COMMAND_ERROR
  | COMMAND_REGISTER_PEER
  | COMMAND_SEND_PEER_LIST
  | COMMAND_SEND_BLOCKCHAIN

fun command_code :: "command_t \<Rightarrow> u32" where
  "command_code COMMAND_OK = 0"
| "command_code COMMAND_ERROR = 1"
| "command_code COMMAND_REGISTER_PEER = 2"
| "command_code COMMAND_SEND_PEER_LIST = 3"
| "command_code COMMAND_SEND_BLOCKCHAIN = 4"

record command_header_t =
  command_prefix :: "u8 list"
  command :: u32
  command_len :: u64

definition HEADER_SIZE :: nat where
  "HEADER_SIZE = 16"

definition wire_header :: "command_header_t \<Rightarrow> u8 list" where
  "wire_header h = command_prefix h @ be_bytes (command h) @ be_bytes (command_len h)"

definition command_header_serialize ::
  "byte_order \<Rightarrow> command_header_t option \<Rightarrow> bool \<Rightarrow> bool \<Rightarrow> ('z env_scheme, u8 list \<times> u64) prog"
  where "command_header_serialize bo command_header buffer buffer_size =
     (case command_header of
        None \<Rightarrow> fail FAILURE_INVALID_INPUT
      | Some h \<Rightarrow>
          if \<not> buffer \<or> \<not> buffer_size then fail FAILURE_INVALID_INPUT
          else
            seq alloc (\<lambda>_.
            if take COMMAND_PREFIX_LEN (command_prefix h) \<noteq> COMMAND_PREFIX
            then fail FAILURE_INVALID_COMMAND_PREFIX
            else ret (COMMAND_PREFIX @ store_u32 bo (command h) @ store_u64 bo (command_len h),
              of_nat HEADER_SIZE)))"

text \<open>The loop over the bytes of the prefix.\<close>

fun read_prefix :: "u8 list \<Rightarrow> u8 list \<Rightarrow> (reader, unit) prog" where
  "read_prefix mem [] = ret ()"
| "read_prefix mem (c # cs) =
     seq (read_bytes mem 1) (\<lambda>bs.
     if bs \<noteq> [c] then fail FAILURE_INVALID_COMMAND_PREFIX else read_prefix mem cs)"

definition command_header_deserialize ::
  "byte_order \<Rightarrow> bool \<Rightarrow> u8 list option \<Rightarrow> u64 \<Rightarrow> ('z env_scheme, command_header_t) prog" where
  "command_header_deserialize bo out buffer buffer_size =
     (case buffer of
        None \<Rightarrow> fail FAILURE_INVALID_INPUT
      | Some mem \<Rightarrow>
          if \<not> out then fail FAILURE_INVALID_INPUT
          else with_cursor (
            seq (need buffer_size COMMAND_PREFIX_LEN) (\<lambda>_.
            seq (read_prefix mem COMMAND_PREFIX) (\<lambda>_.
            seq (need buffer_size 4) (\<lambda>_.
            seq (read_u32 bo mem) (\<lambda>cmd.
            seq (need buffer_size 8) (\<lambda>_.
            seq (read_u64 bo mem) (\<lambda>len.
            ret \<lparr>command_prefix = COMMAND_PREFIX, command = cmd, command_len = len\<rparr>))))))))"

section \<open>Registration of a peer\<close>

record command_register_peer_t =
  rp_header :: command_header_t
  rp_sin6_family :: u16
  rp_sin6_port :: u16
  rp_sin6_flowinfo :: u32
  rp_addr :: "u8 list"
  rp_sin6_scope_id :: u32

text \<open>\<open>sizeof(command_register_peer_t) - sizeof(command_header_t)\<close>: 28 bytes of fields and 4 of
  padding, which stay zero.\<close>

definition REGISTER_PEER_SIZE :: nat where
  "REGISTER_PEER_SIZE = 32"

definition IN6_ADDR_SIZE :: nat where
  "IN6_ADDR_SIZE = 16"

definition command_register_peer_serialize ::
  "byte_order \<Rightarrow> command_register_peer_t option \<Rightarrow> bool \<Rightarrow> bool \<Rightarrow>
    ('z env_scheme, command_register_peer_t \<times> u8 list \<times> u64) prog" where
  "command_register_peer_serialize bo cmd buffer buffer_size =
     (case cmd of
        None \<Rightarrow> fail FAILURE_INVALID_INPUT
      | Some c \<Rightarrow>
          if \<not> buffer \<or> \<not> buffer_size then fail FAILURE_INVALID_INPUT
          else if command (rp_header c) \<noteq> command_code COMMAND_REGISTER_PEER
          then fail FAILURE_INVALID_COMMAND
          else
            seq alloc (\<lambda>_.
            let fields = store_u16 bo (rp_sin6_family c) @ store_u16 bo (rp_sin6_port c) @
                  store_u32 bo (rp_sin6_flowinfo c) @ take IN6_ADDR_SIZE (rp_addr c) @
                  store_u32 bo (rp_sin6_scope_id c);
                register_peer_buffer = fields @ replicate (REGISTER_PEER_SIZE - length fields) 0;
                c = c\<lparr>rp_header := (rp_header c)\<lparr>command_len := of_nat REGISTER_PEER_SIZE\<rparr>\<rparr> in
            seq (command_header_serialize bo (Some (rp_header c)) True True)
              (\<lambda>(header_buffer, header_size).
            seq alloc (\<lambda>_.
            ret (c, header_buffer @ register_peer_buffer, header_size + of_nat REGISTER_PEER_SIZE)))))"

definition command_register_peer_deserialize ::
  "byte_order \<Rightarrow> bool \<Rightarrow> u8 list option \<Rightarrow> u64 \<Rightarrow> ('z env_scheme, command_register_peer_t) prog"
  where "command_register_peer_deserialize bo out buffer buffer_size =
     (case buffer of
        None \<Rightarrow> fail FAILURE_INVALID_INPUT
      | Some mem \<Rightarrow>
          if \<not> out then fail FAILURE_INVALID_INPUT
          else
            seq (command_header_deserialize bo True (Some mem) buffer_size) (\<lambda>header.
            if command header \<noteq> command_code COMMAND_REGISTER_PEER then fail FAILURE_INVALID_COMMAND
            else with_cursor (
              seq (modify (\<lambda>s. s\<lparr>pos := HEADER_SIZE\<rparr>)) (\<lambda>_.
              seq (need buffer_size 2) (\<lambda>_.
              seq (read_u16 bo mem) (\<lambda>family.
              seq (need buffer_size 2) (\<lambda>_.
              seq (read_u16 bo mem) (\<lambda>port.
              seq (need buffer_size 4) (\<lambda>_.
              seq (read_u32 bo mem) (\<lambda>flowinfo.
              seq (need buffer_size IN6_ADDR_SIZE) (\<lambda>_.
              seq (read_bytes mem IN6_ADDR_SIZE) (\<lambda>addr.
              seq (need buffer_size 4) (\<lambda>_.
              seq (read_u32 bo mem) (\<lambda>scope.
              ret \<lparr>rp_header = header, rp_sin6_family = family, rp_sin6_port = port,
                   rp_sin6_flowinfo = flowinfo, rp_addr = addr,
                   rp_sin6_scope_id = scope\<rparr>))))))))))))))"

section \<open>Commands that carry a byte string\<close>

text \<open>\<open>command_send_peer_list_t\<close> and \<open>command_send_blockchain_t\<close> have the same fields up to
  their names, and their functions differ in the command code only.\<close>

record command_data_t =
  header :: command_header_t
  data_len :: u64
  data_bytes :: "u8 list"

type_synonym command_send_peer_list_t = command_data_t
type_synonym command_send_blockchain_t = command_data_t

text \<open>The two memcpy of the total buffer, whose size is computed modulo \<open>2 ^ 64\<close>, must stay inside
  it and inside the data.\<close>

definition command_data_serialize ::
  "command_t \<Rightarrow> byte_order \<Rightarrow> command_data_t option \<Rightarrow> bool \<Rightarrow> bool \<Rightarrow>
    ('z env_scheme, command_data_t \<times> u8 list \<times> u64) prog" where
  "command_data_serialize code bo cmd buffer buffer_size =
     (case cmd of
        None \<Rightarrow> fail FAILURE_INVALID_INPUT
      | Some c \<Rightarrow>
          if \<not> buffer \<or> \<not> buffer_size then fail FAILURE_INVALID_INPUT
          else if command (header c) \<noteq> command_code code then fail FAILURE_INVALID_COMMAND
          else
            seq alloc (\<lambda>_.
            let c = c\<lparr>header := (header c)\<lparr>command_len := 8 + data_len c\<rparr>\<rparr> in
            seq (command_header_serialize bo (Some (header c)) True True)
              (\<lambda>(header_buffer, header_size).
            let total_size = header_size + 8 + data_len c in
            seq (alloc_bytes total_size) (\<lambda>_.
            if unat total_size < length header_buffer + 8 + unat (data_len c) \<or>
               length (data_bytes c) < unat (data_len c) then undef
            else ret (c, header_buffer @ store_u64 bo (data_len c) @
                take (unat (data_len c)) (data_bytes c), total_size)))))"

definition command_data_deserialize ::
  "command_t \<Rightarrow> byte_order \<Rightarrow> bool \<Rightarrow> u8 list option \<Rightarrow> u64 \<Rightarrow>
    ('z env_scheme, command_data_t) prog" where
  "command_data_deserialize code bo out buffer buffer_size =
     (case buffer of
        None \<Rightarrow> fail FAILURE_INVALID_INPUT
      | Some mem \<Rightarrow>
          if \<not> out then fail FAILURE_INVALID_INPUT
          else
            seq (command_header_deserialize bo True (Some mem) buffer_size) (\<lambda>h.
            if command h \<noteq> command_code code then fail FAILURE_INVALID_COMMAND
            else with_cursor (
              seq (modify (\<lambda>s. s\<lparr>pos := HEADER_SIZE\<rparr>)) (\<lambda>_.
              seq (need buffer_size 8) (\<lambda>_.
              seq (read_u64 bo mem) (\<lambda>len.
              seq (require (of_nat HEADER_SIZE + 8 + len \<le> buffer_size) FAILURE_BUFFER_TOO_SMALL) (\<lambda>_.
              seq (alloc_bytes len) (\<lambda>_.
              seq (read_bytes mem (unat len)) (\<lambda>bytes.
              ret \<lparr>header = h, data_len = len, data_bytes = bytes\<rparr>)))))))))"

definition command_send_peer_list_serialize ::
  "byte_order \<Rightarrow> command_send_peer_list_t option \<Rightarrow> bool \<Rightarrow> bool \<Rightarrow>
    ('z env_scheme, command_send_peer_list_t \<times> u8 list \<times> u64) prog" where
  "command_send_peer_list_serialize = command_data_serialize COMMAND_SEND_PEER_LIST"

definition command_send_peer_list_deserialize ::
  "byte_order \<Rightarrow> bool \<Rightarrow> u8 list option \<Rightarrow> u64 \<Rightarrow>
    ('z env_scheme, command_send_peer_list_t) prog" where
  "command_send_peer_list_deserialize = command_data_deserialize COMMAND_SEND_PEER_LIST"

definition command_send_blockchain_serialize ::
  "byte_order \<Rightarrow> command_send_blockchain_t option \<Rightarrow> bool \<Rightarrow> bool \<Rightarrow>
    ('z env_scheme, command_send_blockchain_t \<times> u8 list \<times> u64) prog" where
  "command_send_blockchain_serialize = command_data_serialize COMMAND_SEND_BLOCKCHAIN"

definition command_send_blockchain_deserialize ::
  "byte_order \<Rightarrow> bool \<Rightarrow> u8 list option \<Rightarrow> u64 \<Rightarrow>
    ('z env_scheme, command_send_blockchain_t) prog" where
  "command_send_blockchain_deserialize = command_data_deserialize COMMAND_SEND_BLOCKCHAIN"

section \<open>Headers are read as written\<close>

lemma wp_unless_read_prefix:
  "wp_unless (length mem < pos s + length cs) (read_prefix mem cs)
     (\<lambda>_ t. t = s\<lparr>pos := pos s + length cs\<rparr> \<and> sits mem (pos s) cs)
     (\<lambda>e t. e = FAILURE_INVALID_COMMAND_PREFIX \<and> \<not> sits mem (pos s) cs \<and> mallocs t = mallocs s) s"
proof (induction cs arbitrary: s)
  case Nil
  then show ?case by simp
next
  case (Cons c cs)
  have sits: "sits mem (pos s) (c # cs) \<longleftrightarrow> sits mem (pos s) [c] \<and> sits mem (Suc (pos s)) cs"
    using sits_append [of mem "pos s" "[c]" cs] by simp
  have "wp_unless (length mem < pos s + length (c # cs)) (read_prefix mem cs)
     (\<lambda>_ t. t = s\<lparr>pos := pos s + length (c # cs)\<rparr> \<and> sits mem (Suc (pos s)) cs)
     (\<lambda>e t. e = FAILURE_INVALID_COMMAND_PREFIX \<and> \<not> sits mem (Suc (pos s)) cs \<and> mallocs t = mallocs s)
     (s\<lparr>pos := Suc (pos s)\<rparr>)"
    using Cons.IH [of "s\<lparr>pos := Suc (pos s)\<rparr>"] by simp
  moreover have "sits mem (pos s) [c] \<longleftrightarrow> take (Suc 0) (drop (pos s) mem) = [c]"
    by (simp add: sits_def)
  ultimately show ?case
    by (auto simp: sits elim!: wp_unless_mono)
qed

lemma length_COMMAND_PREFIX [simp]: "length COMMAND_PREFIX = 4"
  by (simp add: COMMAND_PREFIX_def)

lemma wire_header_inject:
  "length (command_prefix h) = 4 \<Longrightarrow> length (command_prefix k) = 4 \<Longrightarrow>
    wire_header h = wire_header k \<Longrightarrow> h = k"
  by (simp add: wire_header_def be_bytes_inject)

lemma command_header_deserialize_reads:
  "wp_unless (length mem < unat bs) (command_header_deserialize bo True (Some mem) bs)
     (\<lambda>h t. t = s \<and> HEADER_SIZE \<le> unat bs \<and> command_prefix h = COMMAND_PREFIX \<and>
        sits mem 0 (wire_header h))
     (\<lambda>e t. t = s \<and> (e = FAILURE_BUFFER_TOO_SMALL \<and> unat bs < HEADER_SIZE \<or>
        e = FAILURE_INVALID_COMMAND_PREFIX \<and> \<not> sits mem 0 COMMAND_PREFIX)) s"
proof (cases "4 \<le> unat bs")
  case False
  then show ?thesis
    by (simp add: command_header_deserialize_def COMMAND_PREFIX_LEN_def HEADER_SIZE_def)
next
  case True
  let ?r = "\<lparr>mallocs = mallocs s, pos = 0\<rparr>"
  have prefix: "wp_unless (length mem < unat bs) (read_prefix mem COMMAND_PREFIX)
     (\<lambda>_ t. t = ?r\<lparr>pos := 4\<rparr> \<and> sits mem 0 COMMAND_PREFIX)
     (\<lambda>e t. e = FAILURE_INVALID_COMMAND_PREFIX \<and> \<not> sits mem 0 COMMAND_PREFIX \<and>
        mallocs t = mallocs s) ?r"
  proof (cases "length mem < 4")
    case True
    with \<open>4 \<le> unat bs\<close> have "length mem < unat bs" by simp
    with True wp_unless_read_prefix [of mem ?r COMMAND_PREFIX] show ?thesis
      by (auto elim!: wp_unless_mono)
  next
    case False
    with wp_unless_imp_wp [OF wp_unless_read_prefix [of mem ?r COMMAND_PREFIX]] show ?thesis
      by (auto intro!: wp_imp_wp_unless elim!: wp_mono)
  qed
  have rest: "wp_unless (length mem < unat bs)
    (seq (need bs 4) (\<lambda>_. seq (read_u32 bo mem) (\<lambda>cmd. seq (need bs 8) (\<lambda>_.
     seq (read_u64 bo mem) (\<lambda>len.
     ret \<lparr>command_prefix = COMMAND_PREFIX, command = cmd, command_len = len\<rparr>)))))
    (\<lambda>h t. mallocs t = mallocs s \<and> HEADER_SIZE \<le> unat bs \<and> command_prefix h = COMMAND_PREFIX \<and>
        sits mem 0 (wire_header h))
    (\<lambda>e t. mallocs t = mallocs s \<and> (e = FAILURE_BUFFER_TOO_SMALL \<and> unat bs < HEADER_SIZE \<or>
        e = FAILURE_INVALID_COMMAND_PREFIX \<and> \<not> sits mem 0 COMMAND_PREFIX)) (?r\<lparr>pos := 4\<rparr>)"
    if "sits mem 0 COMMAND_PREFIX"
    using that by (auto simp: HEADER_SIZE_def wire_header_def sits_append sits_be_bytes)
  have "wp_unless (length mem < unat bs) (seq (read_prefix mem COMMAND_PREFIX) (\<lambda>_.
     seq (need bs 4) (\<lambda>_. seq (read_u32 bo mem) (\<lambda>cmd. seq (need bs 8) (\<lambda>_.
     seq (read_u64 bo mem) (\<lambda>len.
     ret \<lparr>command_prefix = COMMAND_PREFIX, command = cmd, command_len = len\<rparr>))))))
    (\<lambda>h t. mallocs t = mallocs s \<and> HEADER_SIZE \<le> unat bs \<and> command_prefix h = COMMAND_PREFIX \<and>
        sits mem 0 (wire_header h))
    (\<lambda>e t. mallocs t = mallocs s \<and> (e = FAILURE_BUFFER_TOO_SMALL \<and> unat bs < HEADER_SIZE \<or>
        e = FAILURE_INVALID_COMMAND_PREFIX \<and> \<not> sits mem 0 COMMAND_PREFIX)) ?r"
    by (rule wp_unless_seqI, rule wp_unless_mono [OF prefix]) (use rest in auto)
  then show ?thesis
    using True
    by (auto simp: command_header_deserialize_def COMMAND_PREFIX_LEN_def elim!: wp_unless_mono)
qed

lemma command_header_deserialize_wire:
  assumes "sits mem 0 (wire_header h)" and "command_prefix h = COMMAND_PREFIX"
    and "HEADER_SIZE \<le> unat bs" and "unat bs \<le> length mem"
  shows "command_header_deserialize bo True (Some mem) bs s = (Ok h, s)"
proof -
  have sits: "sits mem 0 COMMAND_PREFIX"
    using assms(1,2) by (simp add: wire_header_def sits_append)
  have unique: "k = h" if "command_prefix k = COMMAND_PREFIX" "sits mem 0 (wire_header k)" for k
  proof (rule wire_header_inject)
    have "length (wire_header k) = length (wire_header h)"
      using that assms(2) by (simp add: wire_header_def)
    with that(2) assms(1) show "wire_header k = wire_header h"
      by (simp add: sits_def)
  qed (simp_all add: that assms(2))
  have "wp (command_header_deserialize bo True (Some mem) bs) (\<lambda>k t. k = h \<and> t = s) (\<lambda>_ _. False) s"
    by (rule wp_mono [OF wp_unless_imp_wp [OF command_header_deserialize_reads]])
      (use assms(3,4) sits unique in auto)
  then show ?thesis by (auto simp: wp_Ok_iff)
qed

lemma wp_command_header_serialize:
  assumes "command_prefix h = COMMAND_PREFIX"
  shows "wp (command_header_serialize bo (Some h) True True)
     (\<lambda>(buffer, n) t. buffer = wire_header h \<and> n = 16 \<and> alloc_step s t)
     (\<lambda>e t. e = FAILURE_COULD_NOT_MALLOC \<and> \<not> no_oom s) s"
  unfolding command_header_serialize_def
  by (auto simp: assms COMMAND_PREFIX_LEN_def wire_header_def HEADER_SIZE_def intro!: wp_allocI)


section \<open>Commands are read as written\<close>

definition wire_register_peer :: "command_register_peer_t \<Rightarrow> u8 list" where
  "wire_register_peer c = wire_header (rp_header c) @ be_bytes (rp_sin6_family c) @
     be_bytes (rp_sin6_port c) @ be_bytes (rp_sin6_flowinfo c) @ rp_addr c @
     be_bytes (rp_sin6_scope_id c) @ replicate 4 0"

text \<open>A command whose length field is set, ready to be sent.\<close>

definition register_peer_ok :: "command_register_peer_t \<Rightarrow> bool" where
  "register_peer_ok c \<longleftrightarrow> command_prefix (rp_header c) = COMMAND_PREFIX \<and>
     command (rp_header c) = command_code COMMAND_REGISTER_PEER \<and>
     command_len (rp_header c) = of_nat REGISTER_PEER_SIZE \<and> length (rp_addr c) = IN6_ADDR_SIZE"

definition wire_data :: "command_data_t \<Rightarrow> u8 list" where
  "wire_data c = wire_header (header c) @ be_bytes (data_len c) @ data_bytes c"

definition data_ok :: "command_t \<Rightarrow> command_data_t \<Rightarrow> bool" where
  "data_ok code c \<longleftrightarrow> command_prefix (header c) = COMMAND_PREFIX \<and>
     command (header c) = command_code code \<and> command_len (header c) = 8 + data_len c \<and>
     unat (data_len c) = length (data_bytes c) \<and> length (data_bytes c) < 2 ^ 62"

lemma wire_header_length: "command_prefix h = COMMAND_PREFIX \<Longrightarrow> length (wire_header h) = 16"
  by (simp add: wire_header_def)

lemma alloc_step_mallocs: "alloc_step s t \<Longrightarrow> alloc_step s (s\<lparr>mallocs := mallocs t\<rparr>)"
  by (auto simp: alloc_step_def)

lemma wp_command_register_peer_serialize:
  assumes "register_peer_ok c"
  shows "wp (command_register_peer_serialize bo (Some c) True True)
     (\<lambda>(c', buffer, n) t. c' = c \<and> buffer = wire_register_peer c \<and> unat n = length buffer \<and>
       alloc_step s t)
     (\<lambda>e t. e = FAILURE_COULD_NOT_MALLOC \<and> \<not> no_oom s) s"
proof -
  have c: "c\<lparr>rp_header := (rp_header c)\<lparr>command_len := 32\<rparr>\<rparr> = c" "(rp_header c)\<lparr>command_len := 32\<rparr> = rp_header c"
    using assms by (simp_all add: register_peer_ok_def REGISTER_PEER_SIZE_def)
  have h: "command_prefix (rp_header c) = COMMAND_PREFIX"
    using assms by (simp add: register_peer_ok_def)
  have l: "length (wire_register_peer c) = 48"
    using assms by (simp add: wire_register_peer_def wire_header_length register_peer_ok_def
        IN6_ADDR_SIZE_def)
  have tail: "wp (seq (command_header_serialize bo (Some (rp_header c)) True True)
       (\<lambda>(header_buffer, header_size). seq alloc (\<lambda>_.
          ret (c, header_buffer @ rest, header_size + 32))))
     (\<lambda>(c', buffer, n) u. c' = c \<and> buffer = wire_header (rp_header c) @ rest \<and> n = 48 \<and>
       alloc_step s u)
     (\<lambda>e u. e = FAILURE_COULD_NOT_MALLOC \<and> \<not> no_oom s) t" if "alloc_step s t" for t rest
  proof (rule wp_seqI, rule wp_mono [OF wp_command_header_serialize [OF h]], goal_cases)
    case (1 v u)
    then have su: "alloc_step s u" using that by (auto intro: alloc_step_trans)
    from 1 have "v = (wire_header (rp_header c), 16)" by auto
    then show ?case
      using alloc_step_trans [OF su] alloc_step_no_oom [OF su] by (auto intro!: wp_allocI)
  next
    case (2 e u)
    then show ?case using alloc_step_no_oom [OF that] by auto
  qed
  show ?thesis
    unfolding command_register_peer_serialize_def
    by (use assms l in \<open>auto simp del: wp_seq simp: Let_def register_peer_ok_def c
      REGISTER_PEER_SIZE_def IN6_ADDR_SIZE_def wire_register_peer_def
      intro!: wp_seqI [of alloc] wp_allocI wp_mono [OF tail]\<close>)
qed


lemma wp_command_register_peer_deserialize:
  assumes "register_peer_ok c" and "sits mem 0 (wire_register_peer c)"
    and "44 \<le> unat bs" and "unat bs \<le> length mem"
  shows "wp (command_register_peer_deserialize bo True (Some mem) bs)
     (\<lambda>c' t. c' = c \<and> t = s) (\<lambda>_ _. False) s"
proof -
  have ok: "command_prefix (rp_header c) = COMMAND_PREFIX" "command (rp_header c) = 2"
    "length (rp_addr c) = 16"
    using assms(1) by (simp_all add: register_peer_ok_def IN6_ADDR_SIZE_def)
  have "command_header_deserialize bo True (Some mem) bs s = (Ok (rp_header c), s)"
    by (rule command_header_deserialize_wire [OF _ ok(1)])
      (use assms in \<open>simp_all add: wire_register_peer_def sits_append HEADER_SIZE_def\<close>)
  moreover have "of_be_bytes (take 2 (drop 16 mem)) = rp_sin6_family c"
    and "of_be_bytes (take 2 (drop 18 mem)) = rp_sin6_port c"
    and "of_be_bytes (take 4 (drop 20 mem)) = rp_sin6_flowinfo c"
    and "take 16 (drop 24 mem) = rp_addr c"
    and "of_be_bytes (take 4 (drop 40 mem)) = rp_sin6_scope_id c"
    using assms(2)
    by (auto simp: wire_register_peer_def sits_append wire_header_length ok sits_take_eq
        intro!: of_be_bytes_sits)
  ultimately show ?thesis
    unfolding command_register_peer_deserialize_def
    using assms(3,4)
    by (simp del: wp_seq, intro wp_seqI) (simp add: wpI_Ok ok HEADER_SIZE_def IN6_ADDR_SIZE_def)
qed

lemma wp_alloc_bytesI:
  assumes "\<And>t. alloc_step s t \<Longrightarrow> Q () t"
    and "\<And>t. alloc_step s t \<Longrightarrow> \<not> no_oom s \<Longrightarrow> E FAILURE_COULD_NOT_MALLOC t" and "unat n < 2 ^ 63"
  shows "wp (alloc_bytes n) Q E s"
  using assms by (auto simp: alloc_bytes_def intro!: wp_allocI)

lemma wp_command_data_serialize:
  assumes "data_ok code c"
  shows "wp (command_data_serialize code bo (Some c) True True)
     (\<lambda>(c', buffer, n) t. c' = c \<and> buffer = wire_data c \<and> unat n = length buffer \<and> alloc_step s t)
     (\<lambda>e t. e = FAILURE_COULD_NOT_MALLOC \<and> \<not> no_oom s) s"
proof -
  have c: "c\<lparr>header := (header c)\<lparr>command_len := 8 + data_len c\<rparr>\<rparr> = c"
    "(header c)\<lparr>command_len := 8 + data_len c\<rparr> = header c"
    using assms by (simp_all add: data_ok_def)
  have h: "command_prefix (header c) = COMMAND_PREFIX"
    using assms by (simp add: data_ok_def)
  have code: "command (header c) = command_code code"
    using assms by (simp add: data_ok_def)
  have small: "unat (data_len c) = length (data_bytes c)" "length (data_bytes c) < 2 ^ 62"
    using assms by (simp_all add: data_ok_def)
  have total: "unat (24 + data_len c) = 24 + length (data_bytes c)"
    using small by (subst unat_plus_simple [THEN iffD1]) (simp_all add: word_le_nat_alt unat_word_ariths)
  have tail: "wp (seq (command_header_serialize bo (Some (header c)) True True)
       (\<lambda>(header_buffer, header_size).
        let total_size = header_size + 8 + data_len c in
        seq (alloc_bytes total_size) (\<lambda>_.
        if unat total_size < length header_buffer + 8 + unat (data_len c) \<or>
           length (data_bytes c) < unat (data_len c) then undef
        else ret (c, header_buffer @ store_u64 bo (data_len c) @
            take (unat (data_len c)) (data_bytes c), total_size))))
     (\<lambda>(c', buffer, n) u. c' = c \<and> buffer = wire_data c \<and> unat n = length buffer \<and> alloc_step s u)
     (\<lambda>e u. e = FAILURE_COULD_NOT_MALLOC \<and> \<not> no_oom s) t" if "alloc_step s t" for t
  proof (rule wp_seqI, rule wp_mono [OF wp_command_header_serialize [OF h]], goal_cases)
    case (1 v u)
    then have su: "alloc_step s u" using that by (auto intro: alloc_step_trans)
    from 1 have "v = (wire_header (header c), 16)" by auto
    then show ?case
      using alloc_step_trans [OF su] alloc_step_no_oom [OF su] small total
      by (auto simp: wire_header_length h wire_data_def Let_def intro!: wp_alloc_bytesI)
  next
    case (2 e u)
    then show ?case using alloc_step_no_oom [OF that] by auto
  qed
  show ?thesis
    unfolding command_data_serialize_def
    by (use code in \<open>auto simp del: wp_seq simp: Let_def c
      intro!: wp_seqI [of alloc] wp_allocI tail [unfolded Let_def]\<close>)
qed


lemma wp_command_data_deserialize:
  assumes "data_ok code c" and "sits mem 0 (wire_data c)"
    and "unat bs = length (wire_data c)" and "unat bs \<le> length mem"
  shows "wp (command_data_deserialize code bo True (Some mem) bs)
     (\<lambda>c' t. c' = c \<and> alloc_step s t) (\<lambda>e t. e = FAILURE_COULD_NOT_MALLOC \<and> \<not> no_oom s)
     (s :: 'z env_scheme)"
proof -
  have ok: "command_prefix (header c) = COMMAND_PREFIX" "command (header c) = command_code code"
    "unat (data_len c) = length (data_bytes c)" "length (data_bytes c) < 2 ^ 62"
    using assms(1) by (simp_all add: data_ok_def)
  have size: "unat bs = 24 + length (data_bytes c)"
    using assms(3) by (simp add: wire_data_def wire_header_length ok(1))
  have total: "unat (24 + data_len c) = 24 + length (data_bytes c)"
    using ok(3,4) by (subst unat_plus_simple [THEN iffD1]) (simp_all add: word_le_nat_alt unat_word_ariths)
  have header: "command_header_deserialize bo True (Some mem) bs s = (Ok (header c), s)"
    by (rule command_header_deserialize_wire [OF _ ok(1)])
      (use assms size in \<open>simp_all add: wire_data_def sits_append HEADER_SIZE_def\<close>)
  have len: "of_be_bytes (take 8 (drop 16 mem)) = data_len c"
    and data: "take (length (data_bytes c)) (drop 24 mem) = data_bytes c"
    using assms(2)
    by (auto simp: wire_data_def sits_append wire_header_length ok sits_take_eq
        intro!: of_be_bytes_sits)
  have rest: "wp (with_cursor (
      seq (modify (\<lambda>s. s\<lparr>pos := HEADER_SIZE\<rparr>)) (\<lambda>_. seq (need bs 8) (\<lambda>_. seq (read_u64 bo mem) (\<lambda>len.
      seq (require (of_nat HEADER_SIZE + 8 + len \<le> bs) FAILURE_BUFFER_TOO_SMALL) (\<lambda>_.
      seq (alloc_bytes len) (\<lambda>_. seq (read_bytes mem (unat len)) (\<lambda>bytes.
      ret \<lparr>header = header c, data_len = len, data_bytes = bytes\<rparr>))))))))
    (\<lambda>c' t. c' = c \<and> alloc_step s t) (\<lambda>e t. e = FAILURE_COULD_NOT_MALLOC \<and> \<not> no_oom s) s"
  proof -
    have "alloc_step s (s\<lparr>mallocs := mallocs r\<rparr>)"
      if "alloc_step \<lparr>mallocs = mallocs s, pos = 24\<rparr> r" for r
      using that by (auto simp: alloc_step_def)
    moreover have "no_oom \<lparr>mallocs = mallocs s, pos = 24\<rparr> = no_oom s"
      by (simp add: no_oom_def)
    moreover have "24 + data_len c \<le> bs"
      using total size by (simp add: word_le_nat_alt)
    ultimately show ?thesis
      using size assms(4) ok(3,4)
      by (auto simp: HEADER_SIZE_def len data alloc_step_pos intro!: wp_alloc_bytesI)
  qed
  show ?thesis
    unfolding command_data_deserialize_def
    by (simp del: wp_seq, rule wp_seqI, rule wpI_Ok, rule header) (simp add: ok(2) rest del: wp_with_cursor)
qed

section \<open>Whatever a peer sends\<close>

lemma header_data_len_no_wrap:
  assumes "24 + len \<le> bs" and "unat (len :: u64) < 2 ^ 63"
  shows "24 + unat len \<le> unat bs"
proof -
  have "unat (24 + len) = 24 + unat len"
    using assms(2) by (subst unat_plus_simple [THEN iffD1])
      (simp_all add: word_le_nat_alt unat_word_ariths)
  with assms(1) show ?thesis by (simp add: word_le_nat_alt)
qed

lemma wp_unless_alloc_bytesI:
  assumes "\<And>t. alloc_step s t \<Longrightarrow> unat n < 2 ^ 63 \<Longrightarrow> Q () t" and "E FAILURE_COULD_NOT_MALLOC s"
    and "\<And>t. alloc_step s t \<Longrightarrow> \<not> no_oom s \<Longrightarrow> E FAILURE_COULD_NOT_MALLOC t"
  shows "wp_unless U (alloc_bytes n) Q E s"
  using assms by (auto simp: alloc_bytes_def intro!: wp_unless_allocI)

lemma command_data_deserialize_reads:
  "wp_unless (length mem < unat bs) (command_data_deserialize code bo True (Some mem) bs)
     (\<lambda>c t. command_prefix (header c) = COMMAND_PREFIX \<and>
        command (header c) = command_code code \<and> unat (data_len c) = length (data_bytes c) \<and>
        24 + length (data_bytes c) \<le> unat bs \<and> sits mem 0 (wire_data c) \<and> alloc_step s t)
     (\<lambda>e t. e \<in> {FAILURE_BUFFER_TOO_SMALL, FAILURE_INVALID_COMMAND_PREFIX, FAILURE_INVALID_COMMAND,
        FAILURE_COULD_NOT_MALLOC}) (s :: 'z env_scheme)"
proof -
  have "wp_unless (length mem < unat bs) (with_cursor (
      seq (modify (\<lambda>s. s\<lparr>pos := HEADER_SIZE\<rparr>)) (\<lambda>_. seq (need bs 8) (\<lambda>_. seq (read_u64 bo mem) (\<lambda>len.
      seq (require (of_nat HEADER_SIZE + 8 + len \<le> bs) FAILURE_BUFFER_TOO_SMALL) (\<lambda>_.
      seq (alloc_bytes len) (\<lambda>_. seq (read_bytes mem (unat len)) (\<lambda>bytes.
      ret \<lparr>header = h, data_len = len, data_bytes = bytes\<rparr>))))))))
     (\<lambda>c t. command_prefix (header c) = COMMAND_PREFIX \<and>
        command (header c) = command_code code \<and> unat (data_len c) = length (data_bytes c) \<and>
        24 + length (data_bytes c) \<le> unat bs \<and> sits mem 0 (wire_data c) \<and> alloc_step s t)
     (\<lambda>e t. e \<in> {FAILURE_BUFFER_TOO_SMALL, FAILURE_INVALID_COMMAND_PREFIX, FAILURE_INVALID_COMMAND,
        FAILURE_COULD_NOT_MALLOC}) s"
    if h: "command h = command_code code" "command_prefix h = COMMAND_PREFIX"
      "sits mem 0 (wire_header h)" for h
  proof -
    have "alloc_step s (s\<lparr>mallocs := mallocs r\<rparr>)"
      if "alloc_step \<lparr>mallocs = mallocs s, pos = 24\<rparr> r" for r
      using that by (auto simp: alloc_step_def)
    then show ?thesis
      using h
      by (auto simp: HEADER_SIZE_def alloc_step_pos wire_data_def sits_append wire_header_length
          sits_be_bytes sits_take intro!: wp_unless_alloc_bytesI dest: header_data_len_no_wrap)
  qed
  then show ?thesis
    unfolding command_data_deserialize_def
    by (simp del: wp_unless_seq wp_unless_with_cursor, intro wp_unless_seqI
        wp_unless_mono [OF command_header_deserialize_reads])
      (auto simp del: wp_unless_seq wp_unless_with_cursor)
qed

section \<open>Receiving a message\<close>

text \<open>\<open>realloc\<close> to a size that comes from the network: a size of 0 frees the object and yields a null
  pointer, as glibc documents it, and no object is larger than half of the address space.\<close>

definition realloc_bytes :: "u64 \<Rightarrow> ('z env_scheme, bool) prog" where
  "realloc_bytes n = (if n \<noteq> 0 \<and> unat n < 2 ^ 63 then malloc else ret False)"

text \<open>
  How a node receives a command, up to its deserialization: the header, then as many bytes as
  it states, appended to the header in a buffer of \<open>16 + command_len\<close> bytes, computed modulo
  \<open>2 ^ 64\<close>. Peer discovery checks the result of realloc, the servers and the consensus client
  do not (\<open>checked\<close>): they then receive at an address computed from a null pointer, where no byte
  can be written.
\<close>

definition receive_message ::
  "bool \<Rightarrow> byte_order \<Rightarrow> command_t \<Rightarrow> (u8 list option \<Rightarrow> u64 \<Rightarrow> ('z net_scheme, 'c) prog) \<Rightarrow>
    ('z net_scheme, 'c) prog" where
  "receive_message checked bo code deserialize =
     seq alloc (\<lambda>_.
     seq (recv_all (Some HEADER_SIZE) HEADER_SIZE) (\<lambda>recv_buf.
     seq (command_header_deserialize bo True (Some recv_buf) (of_nat HEADER_SIZE)) (\<lambda>h.
     if command h \<noteq> command_code code then fail FAILURE_INVALID_COMMAND
     else
       (let total = of_nat HEADER_SIZE + command_len h in
        seq (realloc_bytes total) (\<lambda>ok.
        if checked \<and> \<not> ok then fail FAILURE_COULD_NOT_MALLOC
        else
          seq (recv_all (Some (if ok then unat total - HEADER_SIZE else 0)) (unat (command_len h))) (\<lambda>rest.
          deserialize (if ok then Some (take (unat total) (recv_buf @ rest)) else None) total))))))"

locale command_codec =
  fixes serialize :: "byte_order \<Rightarrow> 'c \<Rightarrow> ('z net_scheme, 'c \<times> u8 list \<times> u64) prog"
    and deserialize :: "byte_order \<Rightarrow> u8 list option \<Rightarrow> u64 \<Rightarrow> ('z net_scheme, 'c) prog"
    and code :: command_t
    and head :: "'c \<Rightarrow> command_header_t"
    and wire :: "'c \<Rightarrow> u8 list"
    and sendable :: "'c \<Rightarrow> bool"
  assumes serialize_wire: "sendable c \<Longrightarrow>
      wp (serialize bo c)
        (\<lambda>(c', buffer, n) t. c' = c \<and> buffer = wire c \<and> unat n = length buffer \<and> alloc_step s t)
        (\<lambda>e t. e = FAILURE_COULD_NOT_MALLOC \<and> \<not> no_oom s) s"
    and deserialize_wire: "sendable c \<Longrightarrow>
      wp (deserialize bo (Some (wire c)) (of_nat (length (wire c))))
        (\<lambda>c' t. c' = c \<and> alloc_step s t) (\<lambda>e t. e = FAILURE_COULD_NOT_MALLOC \<and> \<not> no_oom s) s"
    and wire_head: "sendable c \<Longrightarrow> \<exists>rest. wire c = wire_header (head c) @ rest \<and>
      length rest = unat (command_len (head c)) \<and> length rest < 2 ^ 63 - 16 \<and>
      command_prefix (head c) = COMMAND_PREFIX \<and> command (head c) = command_code code"
begin

text \<open>A message is received as it was sent, however it is cut into pieces, and the bytes after
  it are left for the next one.\<close>

lemma receive_wire:
  assumes c: "sendable c" and s: "arriving s = wire c @ later" and "no_oom s"
  shows "wp (receive_message checked bo code (deserialize bo))
    (\<lambda>c' t. c' = c \<and> arriving t = later \<and> (recv_fails t \<longleftrightarrow> recv_fails s) \<and> sent t = sent s \<and>
      sends t = sends s \<and> no_oom t) (\<lambda>_ _. False) s"
proof -
  obtain rest where rest: "wire c = wire_header (head c) @ rest"
    "length rest = unat (command_len (head c))" "length rest < 2 ^ 63 - 16"
    and h: "command_prefix (head c) = COMMAND_PREFIX" "command (head c) = command_code code"
    using wire_head [OF c] by blast
  have total: "unat (16 + command_len (head c)) = 16 + length rest"
    using rest(2,3) by (subst unat_plus_simple [THEN iffD1])
      (simp_all add: word_le_nat_alt unat_word_ariths)
  have len: "length (wire_header (head c)) = 16" by (rule wire_header_length [OF h(1)])
  have header: "command_header_deserialize bo True (Some (wire_header (head c))) 16 t =
      (Ok (head c), t)" for t :: "'z net_scheme"
    by (rule command_header_deserialize_wire) (simp_all add: h(1) len sits_def HEADER_SIZE_def)
  have deser: "wp (deserialize bo (Some (wire c)) (16 + command_len (head c)))
      (\<lambda>c' t. c' = c \<and> alloc_step u t) (\<lambda>_ _. False) u" if "no_oom u" for u
  proof -
    have "16 + command_len (head c) = of_nat (length (wire c))"
      using total word_of_nat_eq_iff [of "unat (16 + command_len (head c))"]
      by (metis len length_append rest(1) of_nat_unat ucast_id)
    then show ?thesis
      using wp_mono [OF deserialize_wire [OF c, of bo u]] that by auto
  qed
  define st where "st bytes u \<longleftrightarrow> arriving u = bytes \<and> (recv_fails u \<longleftrightarrow> recv_fails s) \<and>
    sent u = sent s \<and> sends u = sends s \<and> no_oom u" for bytes and u :: "'z net_scheme"
  have nonzero: "16 + command_len (head c) \<noteq> 0"
    using total by (metis add_is_0 unat_0 zero_neq_numeral)
  have st_alloc: "st bytes v" if "alloc_step u v" "st bytes u" for bytes u v
    using that alloc_step_no_oom [OF that(1)] by (auto simp: st_def alloc_step_def)
  have st_recv: "wp (recv_all (Some capacity) (length xs)) (\<lambda>bs v. bs = xs \<and> st ys v) (\<lambda>_ _. False) u"
    if "st (xs @ ys) u" "length xs \<le> capacity" for xs ys capacity u
    by (rule wp_mono [OF wp_recv_all]) (use that in \<open>auto simp: st_def no_oom_def\<close>)
  have last: "wp (deserialize bo (Some (wire c)) (16 + command_len (head c)))
      (\<lambda>c' t. c' = c \<and> st later t) (\<lambda>_ _. False) u" if "st later u" for u
    by (rule wp_mono [OF deser]) (use that st_alloc in \<open>auto simp: st_def\<close>)
  have body: "wp (seq (realloc_bytes (16 + command_len (head c))) (\<lambda>ok.
        if checked \<and> \<not> ok then fail FAILURE_COULD_NOT_MALLOC
        else
          seq (recv_all (Some (if ok then unat (16 + command_len (head c)) - HEADER_SIZE else 0))
            (unat (command_len (head c)))) (\<lambda>rest.
          deserialize bo (if ok then Some (take (unat (16 + command_len (head c)))
            (wire_header (head c) @ rest)) else None) (16 + command_len (head c)))))
      (\<lambda>c' t. c' = c \<and> st later t) (\<lambda>_ _. False) u" if u: "st (rest @ later) u" for u
  proof -
    have "wp (realloc_bytes (16 + command_len (head c))) (\<lambda>ok v. ok \<and> st (rest @ later) v)
        (\<lambda>_ _. False) u"
      using rest(3) total nonzero u by (auto simp: realloc_bytes_def st_def [of _ u]
          intro!: wp_mallocI intro: st_alloc)
    moreover have recv: "wp (recv_all (Some (16 + length rest - HEADER_SIZE)) (length rest))
        (\<lambda>bs v. bs = rest \<and> st later v) (\<lambda>_ _. False) v" if "st (rest @ later) v" for v
      by (rule st_recv) (use that in \<open>auto simp: HEADER_SIZE_def\<close>)
    moreover have "take (16 + length rest) (wire_header (head c) @ rest) = wire c"
      by (simp add: rest(1) len)
    then have "wp (seq (recv_all (Some (16 + length rest - HEADER_SIZE)) (length rest)) (\<lambda>bs.
          deserialize bo (Some (take (16 + length rest) (wire_header (head c) @ bs)))
            (16 + command_len (head c))))
        (\<lambda>c' t. c' = c \<and> st later t) (\<lambda>_ _. False) v" if "st (rest @ later) v" for v
      by (intro wp_seqI, intro wp_mono [OF recv [OF that]]) (auto simp: last)
    ultimately show ?thesis
      by (intro wp_seqI, elim wp_mono) (auto simp del: wp_seq simp: total rest(2) [symmetric])
  qed
  have first: "wp (recv_all (Some HEADER_SIZE) HEADER_SIZE)
      (\<lambda>bs v. bs = wire_header (head c) \<and> st (rest @ later) v) (\<lambda>_ _. False) u"
    if "st (wire c @ later) u" for u
    using st_recv [of "wire_header (head c)" "rest @ later" u HEADER_SIZE] that
    by (simp add: HEADER_SIZE_def len rest(1))
  have "st (wire c @ later) s" using s assms(3) by (simp add: st_def)
  then have "wp (receive_message checked bo code (deserialize bo))
      (\<lambda>c' t. c' = c \<and> st later t) (\<lambda>_ _. False) s"
    unfolding receive_message_def
  proof (intro wp_seqI wp_allocI)
    fix t assume "alloc_step s t" and "st (wire c @ later) s"
    from st_alloc [OF this]
    show "wp (recv_all (Some HEADER_SIZE) HEADER_SIZE) (\<lambda>recv_buf.
        wp (seq (command_header_deserialize bo True (Some recv_buf) (of_nat HEADER_SIZE)) (\<lambda>h.
          if command h \<noteq> command_code code then fail FAILURE_INVALID_COMMAND
          else
            (let total = of_nat HEADER_SIZE + command_len h in
             seq (realloc_bytes total) (\<lambda>ok.
             if checked \<and> \<not> ok then fail FAILURE_COULD_NOT_MALLOC
             else
               seq (recv_all (Some (if ok then unat total - HEADER_SIZE else 0))
                 (unat (command_len h))) (\<lambda>rest.
               deserialize bo (if ok then Some (take (unat total) (recv_buf @ rest)) else None)
                 total)))))
          (\<lambda>c' t. c' = c \<and> st later t) (\<lambda>_ _. False)) (\<lambda>_ _. False) t"
    proof (rule wp_mono [OF first], goal_cases)
      case (1 v u)
      then show ?case
        using body [of u]
        by (intro wp_seqI wpI_Ok [where m = "command_header_deserialize bo True (Some v) x" for x])
          (auto simp del: wp_seq simp: header HEADER_SIZE_def Let_def h)
    qed simp
  qed (use assms(3) in simp)
  then show ?thesis by (simp add: st_def)
qed

text \<open>What one node sends another receives.\<close>

lemma send_receive:
  assumes c: "sendable c" and "sent s = []"
  shows "wp (seq (serialize bo c) (\<lambda>(_, buffer, n). send_all (Some buffer) (unat n)))
    (\<lambda>_ t. \<forall>r. arriving r = sent t @ later \<and> no_oom r \<longrightarrow>
       wp (receive_message checked bo' code (deserialize bo'))
         (\<lambda>c' u. c' = c \<and> arriving u = later) (\<lambda>_ _. False) r)
    (\<lambda>e t. e = FAILURE_COULD_NOT_MALLOC \<and> \<not> no_oom s \<or>
       e = FAILURE_NETWORK_FUNCTION \<and> None \<in> set (sends s)) s"
proof (rule wp_seqI, rule wp_mono [OF serialize_wire [OF c]], goal_cases)
  case (1 v t)
  then obtain n where v: "v = (c, wire c, n)" "unat n = length (wire c)" and t: "alloc_step s t"
    by (cases v) auto
  have "wp (send_all (Some (wire c)) (length (wire c)))
    (\<lambda>_ u. sent u = sent t @ take (length (wire c)) (wire c) \<and> recvs u = recvs t \<and> mallocs u = mallocs t)
    (\<lambda>e u. e = FAILURE_NETWORK_FUNCTION \<and> None \<in> set (sends t) \<and>
       (\<exists>k < length (wire c). sent u = sent t @ take k (wire c))) t"
    by (rule wp_send_all) simp
  moreover have "sent t = []" "sends t = sends s" using t assms(2) by (auto simp: alloc_step_def)
  ultimately show ?case
    using v by (auto elim!: wp_mono intro!: wp_mono [OF receive_wire [OF c]])
qed auto

end

section \<open>The interface for the three commands\<close>

lemma wire_data_sendable:
  assumes "data_ok code c"
  shows "\<exists>rest. wire_data c = wire_header (header c) @ rest \<and>
    length rest = unat (command_len (header c)) \<and> length rest < 2 ^ 63 - 16 \<and>
    command_prefix (header c) = COMMAND_PREFIX \<and> command (header c) = command_code code"
proof -
  have small: "unat (data_len c) = length (data_bytes c)" "length (data_bytes c) < 2 ^ 62"
    using assms by (simp_all add: data_ok_def)
  have "unat (8 + data_len c) = 8 + length (data_bytes c)"
    using small by (subst unat_plus_simple [THEN iffD1]) (simp_all add: word_le_nat_alt unat_word_ariths)
  with assms small show ?thesis
    by (intro exI [of _ "be_bytes (data_len c) @ data_bytes c"]) (auto simp: wire_data_def data_ok_def)
qed

lemma wire_data_unat:
  assumes "data_ok code c"
  shows "unat (of_nat (length (wire_data c)) :: u64) = length (wire_data c)"
proof -
  have "command_prefix (header c) = COMMAND_PREFIX" "length (data_bytes c) < 2 ^ 62"
    using assms by (simp_all add: data_ok_def)
  then have "length (wire_data c) < 2 ^ 64" by (simp add: wire_data_def wire_header_length)
  then show ?thesis by (simp add: unsigned_of_nat take_bit_eq_mod)
qed

lemma wp_deserialize_wire_data:
  "data_ok code c \<Longrightarrow>
    wp (command_data_deserialize code bo True (Some (wire_data c)) (of_nat (length (wire_data c))))
      (\<lambda>c' t. c' = c \<and> alloc_step s t) (\<lambda>e t. e = FAILURE_COULD_NOT_MALLOC \<and> \<not> no_oom s) s"
  by (rule wp_command_data_deserialize) (simp_all add: wire_data_unat sits_def)

interpretation peer_list_codec: command_codec
  "\<lambda>bo c. command_send_peer_list_serialize bo (Some c) True True"
  "\<lambda>bo. command_send_peer_list_deserialize bo True"
  COMMAND_SEND_PEER_LIST header wire_data "data_ok COMMAND_SEND_PEER_LIST"
  unfolding command_send_peer_list_serialize_def command_send_peer_list_deserialize_def
  by unfold_locales
    (erule wp_command_data_serialize wp_deserialize_wire_data wire_data_sendable)+

interpretation blockchain_codec: command_codec
  "\<lambda>bo c. command_send_blockchain_serialize bo (Some c) True True"
  "\<lambda>bo. command_send_blockchain_deserialize bo True"
  COMMAND_SEND_BLOCKCHAIN header wire_data "data_ok COMMAND_SEND_BLOCKCHAIN"
  unfolding command_send_blockchain_serialize_def command_send_blockchain_deserialize_def
  by unfold_locales
    (erule wp_command_data_serialize wp_deserialize_wire_data wire_data_sendable)+

interpretation register_codec: command_codec
  "\<lambda>bo c. command_register_peer_serialize bo (Some c) True True"
  "\<lambda>bo. command_register_peer_deserialize bo True"
  COMMAND_REGISTER_PEER rp_header wire_register_peer register_peer_ok
proof (unfold_locales, goal_cases)
  case (1 c bo s)
  then show ?case by (rule wp_command_register_peer_serialize)
next
  case (2 c bo s)
  then have "length (wire_register_peer c) = 48"
    by (simp add: wire_register_peer_def wire_header_length register_peer_ok_def IN6_ADDR_SIZE_def)
  with 2 show ?case
    by (intro wp_mono [OF wp_command_register_peer_deserialize [OF 2]]) (auto simp: sits_def)
next
  case (3 c)
  then show ?case
    by (intro exI [of _ "be_bytes (rp_sin6_family c) @ be_bytes (rp_sin6_port c) @
          be_bytes (rp_sin6_flowinfo c) @ rp_addr c @ be_bytes (rp_sin6_scope_id c) @ replicate 4 0"])
      (simp add: wire_register_peer_def register_peer_ok_def IN6_ADDR_SIZE_def REGISTER_PEER_SIZE_def)
qed

section \<open>A length that wraps around\<close>

lemma recv_all_overflow:
  "capacity < len \<Longrightarrow> capacity < length (arriving s) \<Longrightarrow>
    undefined_at (recv_all (Some capacity) len) s"
  using recv_all_result [of capacity len s]
  by (auto simp: undefined_at_def recv_result_ok_def Let_def)

text \<open>The size \<open>16 + command_len\<close> when \<open>command_len\<close> is at least \<open>2 ^ 63 - 16\<close>: it is 0, or at least
  \<open>2 ^ 63\<close>, so that realloc yields a null pointer; or it wraps around to less than the header.\<close>

lemma huge_total:
  fixes len :: u64
  assumes "2 ^ 63 - 16 \<le> unat len"
  shows "unat len \<le> 2 ^ 64 - 16 \<Longrightarrow> 16 + len = 0 \<or> 2 ^ 63 \<le> unat (16 + len)"
    and "2 ^ 64 - 16 < unat len \<Longrightarrow> 16 + len \<noteq> 0 \<and> unat (16 + len) < 16"
proof -
  have lt: "unat len < 2 ^ 64" using unsigned_less [of len, where ?'a = nat] by simp
  show "16 + len = 0 \<or> 2 ^ 63 \<le> unat (16 + len)" if "unat len \<le> 2 ^ 64 - 16"
  proof (cases "unat len = 2 ^ 64 - 16")
    case True
    then have "unat (16 + len) = 0" by (simp add: unat_word_ariths)
    then show ?thesis by (simp add: unat_eq_0)
  next
    case False
    then have "unat (16 + len) = 16 + unat len" using that by (simp add: unat_word_ariths)
    then show ?thesis using assms by simp
  qed
  show "16 + len \<noteq> 0 \<and> unat (16 + len) < 16" if "2 ^ 64 - 16 < unat len"
  proof -
    have "unat (16 + len) = unat len - (2 ^ 64 - 16)"
      using lt that by (simp add: unat_word_ariths mod_if)
    moreover from this have "0 < unat (16 + len)" "unat (16 + len) < 16" using lt that by simp_all
    ultimately show ?thesis by (auto simp: unat_gt_0)
  qed
qed

text \<open>What the header of a message leads to, when memory suffices.\<close>

lemma receive_message_header:
  assumes h: "command_prefix h = COMMAND_PREFIX" "command h = command_code code"
    and s: "arriving s = wire_header h @ later" "no_oom s"
  obtains t where "arriving t = later" "no_oom t"
    and "receive_message checked bo code deserialize (s :: 'z net_scheme) =
      seq (realloc_bytes (16 + command_len h)) (\<lambda>ok.
        if checked \<and> \<not> ok then fail FAILURE_COULD_NOT_MALLOC
        else
          seq (recv_all (Some (if ok then unat (16 + command_len h) - HEADER_SIZE else 0))
            (unat (command_len h))) (\<lambda>rest.
          deserialize (if ok then Some (take (unat (16 + command_len h)) (wire_header h @ rest)) else None)
            (16 + command_len h))) t"
proof -
  have len: "length (wire_header h) = 16" by (rule wire_header_length [OF h(1)])
  have header: "command_header_deserialize bo True (Some (wire_header h)) 16 t = (Ok h, t)"
    for t :: "'z net_scheme"
    by (rule command_header_deserialize_wire) (simp_all add: h(1) len sits_def HEADER_SIZE_def)
  have "wp alloc (\<lambda>_ t. arriving t = wire_header h @ later \<and> no_oom t) (\<lambda>_ _. False) s"
    by (rule wp_allocI) (use s alloc_step_no_oom in \<open>auto simp: alloc_step_def no_oom_def dest: in_set_dropD\<close>)
  then obtain u where u: "alloc s = (Ok (), u)" "arriving u = wire_header h @ later" "no_oom u"
    by (auto simp: wp_Ok_iff)
  have "wp (recv_all (Some 16) 16) (\<lambda>bs v. bs = wire_header h \<and> arriving v = later \<and> no_oom v)
      (\<lambda>_ _. False) u"
    by (rule wp_mono [OF wp_recv_all]) (use u len in \<open>auto simp: no_oom_def\<close>)
  then obtain v where v: "recv_all (Some 16) 16 u = (Ok (wire_header h), v)" "arriving v = later" "no_oom v"
    by (auto simp: wp_Ok_iff)
  show ?thesis
    by (rule that [OF v(2,3)])
      (use u(1) v(1) header h(2) in \<open>simp add: receive_message_def seq_Ok HEADER_SIZE_def Let_def\<close>)
qed

lemma receive_message_huge:
  fixes deserialize :: "u8 list option \<Rightarrow> u64 \<Rightarrow> ('z net_scheme, 'c) prog"
  assumes "command_prefix h = COMMAND_PREFIX" and "command h = command_code code"
    and "arriving s = wire_header h @ x # later" and "no_oom s" and "2 ^ 63 - 16 \<le> unat (command_len h)"
  shows "fst (receive_message checked bo code deserialize s) =
    (if checked \<and> unat (command_len h) \<le> 2 ^ 64 - 16 then Fail FAILURE_COULD_NOT_MALLOC else Undefined)"
proof -
  obtain t where t: "arriving t = x # later" "no_oom t"
    and run: "receive_message checked bo code deserialize s =
      seq (realloc_bytes (16 + command_len h)) (\<lambda>ok.
        if checked \<and> \<not> ok then fail FAILURE_COULD_NOT_MALLOC
        else
          seq (recv_all (Some (if ok then unat (16 + command_len h) - HEADER_SIZE else 0))
            (unat (command_len h))) (\<lambda>rest.
          deserialize (if ok then Some (take (unat (16 + command_len h)) (wire_header h @ rest)) else None)
            (16 + command_len h))) t"
    using receive_message_header [OF assms(1-4)] .
  have outside: "fst (seq (recv_all (Some 0) (unat (command_len h))) f u) = Undefined"
    if "arriving u = x # later" for u :: "'z net_scheme" and f :: "u8 list \<Rightarrow> ('z net_scheme, 'c) prog"
  proof -
    have "undefined_at (recv_all (Some 0) (unat (command_len h))) u"
      by (rule recv_all_overflow) (use that assms(5) in simp_all)
    then show ?thesis by (auto simp: undefined_at_def dest: undefined_at_seq1 [unfolded undefined_at_def])
  qed
  show ?thesis
  proof (cases "unat (command_len h) \<le> 2 ^ 64 - 16")
    case True
    then have "realloc_bytes (16 + command_len h) t = (Ok False, t)"
      using huge_total(1) [OF assms(5)] by (auto simp: realloc_bytes_def ret_def)
    then have "seq (realloc_bytes (16 + command_len h)) f t = f False t"
      for f :: "bool \<Rightarrow> ('z net_scheme, 'c) prog" by (rule seq_Ok)
    then show ?thesis using True outside [OF t(1)] by (auto simp: run fail_def)
  next
    case False
    then have total: "16 + command_len h \<noteq> 0" "unat (16 + command_len h) < 16"
      using huge_total(2) [OF assms(5)] by auto
    have "wp (realloc_bytes (16 + command_len h)) (\<lambda>ok u. ok \<and> arriving u = x # later) (\<lambda>_ _. False) t"
      using total t by (auto simp: realloc_bytes_def alloc_step_def intro!: wp_mallocI)
    then obtain u where "realloc_bytes (16 + command_len h) t = (Ok True, u)" "arriving u = x # later"
      by (auto simp: wp_Ok_iff)
    moreover from this(1) have "seq (realloc_bytes (16 + command_len h)) f t = f True u"
      for f :: "bool \<Rightarrow> ('z net_scheme, 'c) prog" by (rule seq_Ok)
    ultimately show ?thesis using False total outside [of u] by (simp add: run HEADER_SIZE_def)
  qed
qed

section \<open>Properties\<close>

text \<open>C12. Each of the three commands arrives as it was sent: between hosts of any byte orders, and
  however the network cuts the bytes into pieces, the node that receives the bytes another one
  sends for a command reads the same command and leaves what follows it unread. Sending fails
  only when memory runs out or send fails.\<close>

theorem commands_arrive_as_sent:
  assumes "sent (s :: net) = []"
  shows "(register_peer_ok c \<longrightarrow>
      wp (seq (command_register_peer_serialize bo (Some c) True True)
          (\<lambda>(_, buffer, n). send_all (Some buffer) (unat n)))
        (\<lambda>_ t. \<forall>r :: net. arriving r = sent t @ later \<and> no_oom r \<longrightarrow>
           wp (receive_message checked bo' COMMAND_REGISTER_PEER
               (command_register_peer_deserialize bo' True))
             (\<lambda>c' u. c' = c \<and> arriving u = later) (\<lambda>_ _. False) r)
        (\<lambda>e t. e = FAILURE_COULD_NOT_MALLOC \<and> \<not> no_oom s \<or>
           e = FAILURE_NETWORK_FUNCTION \<and> None \<in> set (sends s)) s) \<and>
    (data_ok COMMAND_SEND_PEER_LIST d \<longrightarrow>
      wp (seq (command_send_peer_list_serialize bo (Some d) True True)
          (\<lambda>(_, buffer, n). send_all (Some buffer) (unat n)))
        (\<lambda>_ t. \<forall>r :: net. arriving r = sent t @ later \<and> no_oom r \<longrightarrow>
           wp (receive_message checked bo' COMMAND_SEND_PEER_LIST
               (command_send_peer_list_deserialize bo' True))
             (\<lambda>d' u. d' = d \<and> arriving u = later) (\<lambda>_ _. False) r)
        (\<lambda>e t. e = FAILURE_COULD_NOT_MALLOC \<and> \<not> no_oom s \<or>
           e = FAILURE_NETWORK_FUNCTION \<and> None \<in> set (sends s)) s) \<and>
    (data_ok COMMAND_SEND_BLOCKCHAIN d \<longrightarrow>
      wp (seq (command_send_blockchain_serialize bo (Some d) True True)
          (\<lambda>(_, buffer, n). send_all (Some buffer) (unat n)))
        (\<lambda>_ t. \<forall>r :: net. arriving r = sent t @ later \<and> no_oom r \<longrightarrow>
           wp (receive_message checked bo' COMMAND_SEND_BLOCKCHAIN
               (command_send_blockchain_deserialize bo' True))
             (\<lambda>d' u. d' = d \<and> arriving u = later) (\<lambda>_ _. False) r)
        (\<lambda>e t. e = FAILURE_COULD_NOT_MALLOC \<and> \<not> no_oom s \<or>
           e = FAILURE_NETWORK_FUNCTION \<and> None \<in> set (sends s)) s)"
  by (intro conjI impI)
    (erule register_codec.send_receive peer_list_codec.send_receive blockchain_codec.send_receive,
      rule assms)+

definition sample_command :: command_data_t where
  "sample_command = \<lparr>header = \<lparr>command_prefix = COMMAND_PREFIX, command = 4, command_len = 10\<rparr>,
     data_len = 2, data_bytes = [7, 8]\<rparr>"

lemma sample_command_ok: "data_ok COMMAND_SEND_BLOCKCHAIN sample_command"
  by (simp add: data_ok_def sample_command_def)

theorem commands_arrive_as_sent_witness:
  "wp (seq (command_send_blockchain_serialize Little_Endian (Some sample_command) True True)
      (\<lambda>(_, buffer, n). send_all (Some buffer) (unat n)))
    (\<lambda>_ t. wp (receive_message False Big_Endian COMMAND_SEND_BLOCKCHAIN
         (command_send_blockchain_deserialize Big_Endian True))
       (\<lambda>c _. c = sample_command) (\<lambda>_ _. False) (toy_net [Received (sent t @ [1])] []))
    (\<lambda>_ _. False) (toy_net [] [Some 5, Some 30])"
proof -
  have "sent (toy_net [] [Some 5, Some 30]) = []" by (simp add: toy_net_def)
  note * = commands_arrive_as_sent [OF this, where d = sample_command and bo = Little_Endian
      and bo' = Big_Endian and checked = False and later = "[1]", THEN conjunct2, THEN conjunct2,
      rule_format, OF sample_command_ok]
  have r: "arriving (toy_net [Received xs] []) = xs" "no_oom (toy_net [Received xs] [])" for xs
    by (simp_all add: toy_net_def)
  show ?thesis
  proof (rule wp_mono [OF *], goal_cases)
    case (1 v t)
    then have "wp (receive_message False Big_Endian COMMAND_SEND_BLOCKCHAIN
         (command_send_blockchain_deserialize Big_Endian True))
       (\<lambda>d' u. d' = sample_command \<and> arriving u = [1]) (\<lambda>_ _. False)
       (toy_net [Received (sent t @ [1])] [])"
      using r by blast
    then show ?case by (rule wp_mono) auto
  qed (auto simp: toy_net_def)
qed

text \<open>Reading a command that carries bytes is memory safe on every input: the deserializer
  never reads past the buffer_size bytes it is given, although it computes the end of the data
  modulo 2^64; what it returns is in the buffer and its length field is right.\<close>

theorem command_data_deserialize_safe:
  assumes "unat buffer_size \<le> length mem"
  shows "wp (command_data_deserialize code bo True (Some mem) buffer_size)
    (\<lambda>c _. command (header c) = command_code code \<and> unat (data_len c) = length (data_bytes c) \<and>
       24 + length (data_bytes c) \<le> unat buffer_size \<and>
       take (length (data_bytes c)) (drop 24 mem) = data_bytes c)
    (\<lambda>e _. e \<in> {FAILURE_BUFFER_TOO_SMALL, FAILURE_INVALID_COMMAND_PREFIX,
       FAILURE_INVALID_COMMAND, FAILURE_COULD_NOT_MALLOC}) s"
proof -
  have "\<not> length mem < unat buffer_size" using assms by simp
  from wp_unless_imp_wp [OF command_data_deserialize_reads this] show ?thesis
    by (rule wp_mono) (auto simp: wire_data_def sits_append wire_header_length sits_take_eq)
qed

theorem command_data_deserialize_safe_witness:
  "wp (command_data_deserialize COMMAND_SEND_PEER_LIST Little_Endian True
      (Some (COMMAND_PREFIX @ [0, 0, 0, 3] @ replicate 8 0 @ replicate 8 255)) 24)
    (\<lambda>c _. data_bytes c = []) (\<lambda>e _. e \<noteq> FAILURE_NETWORK_FUNCTION) (toy_net [] [])"
  by (rule wp_mono [OF command_data_deserialize_safe]) auto

text \<open>C39. What a header that states a payload of 2^63 - 16 bytes or more does, when one more byte
  arrives and memory suffices. Above 2^64 - 16 the size of the buffer wraps around to less than
  the header, and every receiver writes the payload outside its buffer, whether or not it checks
  the result of realloc. Up to there realloc returns a null pointer: peer discovery, which
  checks it, fails with FAILURE_COULD_NOT_MALLOC; the servers and the consensus client, which do
  not, receive at an address computed from the null pointer, which is undefined.\<close>

theorem huge_command_len_overflows:
  assumes "command_prefix h = COMMAND_PREFIX" and "command h = command_code code"
    and "arriving s = wire_header h @ x # later" and "no_oom s"
    and "2 ^ 63 - 16 \<le> unat (command_len h)"
  shows "fst (receive_message checked bo code deserialize s) =
    (if checked \<and> unat (command_len h) \<le> 2 ^ 64 - 16 then Fail FAILURE_COULD_NOT_MALLOC else Undefined)"
  by (rule receive_message_huge [OF assms])

theorem huge_command_len_overflows_witness:
  "fst (receive_message True Little_Endian COMMAND_SEND_PEER_LIST
     (command_send_peer_list_deserialize Little_Endian True)
     (toy_net [Received (COMMAND_PREFIX @ [0, 0, 0, 3] @ [255, 255, 255, 255, 255, 255, 255, 255] @ [1])] [])) = Undefined"
proof -
  let ?h = "\<lparr>command_prefix = COMMAND_PREFIX, command = 3, command_len = 0xFFFFFFFFFFFFFFFF\<rparr>"
  have "be_bytes (3 :: u32) = [0, 0, 0, 3]"
    by (simp add: be_bytes_def le_bytes_def upt_rec)
  moreover have "be_bytes (0xFFFFFFFFFFFFFFFF :: u64) = [255, 255, 255, 255, 255, 255, 255, 255]"
    by (simp add: be_bytes_u64)
  ultimately have "wire_header ?h = COMMAND_PREFIX @ [0, 0, 0, 3] @ [255, 255, 255, 255, 255, 255, 255, 255]"
    by (simp add: wire_header_def)
  then show ?thesis
    using huge_command_len_overflows [of ?h COMMAND_SEND_PEER_LIST
        "toy_net [Received (COMMAND_PREFIX @ [0, 0, 0, 3] @ [255, 255, 255, 255, 255, 255, 255, 255] @ [1])] []" 1 "[]" True
        Little_Endian "command_send_peer_list_deserialize Little_Endian True"]
    by (simp add: toy_net_def no_oom_def)
qed

end
