(* ===== verification/Node.thy ===== *)
theory Node
  imports Networking
begin

text \<open>
  What the threads of a node share: the state of a thread, made of its connection and of the
  data it shares with the others, the end of a thread, what holds whenever one of its functions
  returns, and the messages the threads send, whose header they fill as
  \<open>memcpy(header.command_prefix, COMMAND_PREFIX, COMMAND_PREFIX_LEN); header.command = ...\<close>.
\<close>

section \<open>State\<close>

text \<open>A connection of the node and the data its threads share.\<close>

record 'x node =
  conn :: net
  shared :: 'x

definition on_conn :: "(net, 'a) prog \<Rightarrow> ('x node, 'a) prog" where
  "on_conn m n = (case m (conn n) of (out, c) \<Rightarrow> (out, n\<lparr>conn := c\<rparr>))"

definition on_shared :: "('x, 'a) prog \<Rightarrow> ('x node, 'a) prog" where
  "on_shared m n = (case m (shared n) of (out, x) \<Rightarrow> (out, n\<lparr>shared := x\<rparr>))"

lemma wp_on_conn [simp]:
  "wp (on_conn m) Q E n \<longleftrightarrow>
     wp m (\<lambda>v c. Q v (n\<lparr>conn := c\<rparr>)) (\<lambda>e c. E e (n\<lparr>conn := c\<rparr>)) (conn n)"
  by (auto simp: wp_def on_conn_def split: prod.splits outcome.splits)

lemma wp_on_shared [simp]:
  "wp (on_shared m) Q E n \<longleftrightarrow>
     wp m (\<lambda>v x. Q v (n\<lparr>shared := x\<rparr>)) (\<lambda>e x. E e (n\<lparr>shared := x\<rparr>)) (shared n)"
  by (auto simp: wp_def on_shared_def split: prod.splits outcome.splits)

text \<open>The result of a pthread call that the source returns as its own: \<open>None\<close> is 0.\<close>

definition pthread :: "return_code_t option \<Rightarrow> ('s, unit) prog" where
  "pthread r = (case r of None \<Rightarrow> ret () | Some c \<Rightarrow> fail c)"

lemma pthread_simps [simp]: "pthread None = ret ()" "pthread (Some c) = fail c"
  by (simp_all add: pthread_def)

section \<open>Whatever happens\<close>

text \<open>\<open>whenever m Q E s\<close>: if \<open>m\<close> returns at all from \<open>s\<close>, its result and state satisfy \<open>Q\<close> or
  \<open>E\<close>. A peer can keep a node from returning, or make it read out of bounds; this is what holds
  otherwise.\<close>

definition whenever ::
  "('s, 'a) prog \<Rightarrow> ('a \<Rightarrow> 's \<Rightarrow> bool) \<Rightarrow> (return_code_t \<Rightarrow> 's \<Rightarrow> bool) \<Rightarrow> 's \<Rightarrow> bool" where
  "whenever m Q E s =
     (case m s of
        (Ok v, t) \<Rightarrow> Q v t | (Fail c, t) \<Rightarrow> E c t | (Undefined, t) \<Rightarrow> True | (Diverges, t) \<Rightarrow> True)"

lemma whenever_ret [simp]: "whenever (ret v) Q E s = Q v s"
  and whenever_fail [simp]: "whenever (fail c) Q E s = E c s"
  by (simp_all add: whenever_def prog_basic)

lemma whenever_seq [simp]: "whenever (seq m f) Q E s = whenever m (\<lambda>v. whenever (f v) Q E) E s"
  by (auto simp: whenever_def seq_def split: prod.splits outcome.splits)

lemma whenever_seqI: "whenever m (\<lambda>v. whenever (f v) Q E) E s \<Longrightarrow> whenever (seq m f) Q E s"
  by simp

lemma whenever_get [simp]: "whenever get Q E s = Q s s"
  by (simp add: whenever_def prog_basic)

lemma whenever_modify [simp]: "whenever (modify f) Q E s = Q () (f s)"
  by (simp add: whenever_def prog_basic)

lemma whenever_require [simp]:
  "whenever (require b c) Q E s = ((b \<longrightarrow> Q () s) \<and> (\<not> b \<longrightarrow> E c s))"
  by (simp add: require_def)

lemma whenever_on_conn [simp]:
  "whenever (on_conn m) Q E n \<longleftrightarrow>
     whenever m (\<lambda>v c. Q v (n\<lparr>conn := c\<rparr>)) (\<lambda>e c. E e (n\<lparr>conn := c\<rparr>)) (conn n)"
  by (auto simp: whenever_def on_conn_def split: prod.splits outcome.splits)

lemma whenever_on_shared [simp]:
  "whenever (on_shared m) Q E n \<longleftrightarrow>
     whenever m (\<lambda>v c. Q v (n\<lparr>shared := c\<rparr>)) (\<lambda>e c. E e (n\<lparr>shared := c\<rparr>)) (shared n)"
  by (auto simp: whenever_def on_shared_def split: prod.splits outcome.splits)

lemma whenever_pthread [simp]:
  "whenever (pthread r) Q E s = (case r of None \<Rightarrow> Q () s | Some c \<Rightarrow> E c s)"
  by (simp add: pthread_def split: option.split)

lemma whenever_mono:
  assumes "whenever m Q E s" and "\<And>v t. Q v t \<Longrightarrow> Q' v t" and "\<And>c t. E c t \<Longrightarrow> E' c t"
  shows "whenever m Q' E' s"
  using assms by (auto simp: whenever_def split: prod.splits outcome.splits)

lemma whenever_all: "(\<And>v t. Q v t) \<Longrightarrow> (\<And>c t. E c t) \<Longrightarrow> whenever m Q E s"
  by (simp add: whenever_def split: prod.split outcome.split)

lemma whenever_True [simp]: "whenever m (\<lambda>_ _. True) (\<lambda>_ _. True) s"
  by (simp add: whenever_def split: prod.split outcome.split)

lemma whenever_attemptI:
  "whenever m (\<lambda>v. Q (Inr v)) (\<lambda>c. Q (Inl c)) s \<Longrightarrow> whenever (attempt m) Q E s"
  by (auto simp: whenever_def attempt_def split: prod.splits outcome.splits)

lemma whenever_undef [simp]: "whenever undef Q E s"
  by (simp add: whenever_def undef_def)

lemma wp_unless_whenever: "wp_unless U m Q E s \<Longrightarrow> whenever m Q E s"
  by (auto simp: wp_unless_def whenever_def split: prod.splits outcome.splits)

lemma whenever_D: "whenever m Q E s \<Longrightarrow> m s = (Ok v, t) \<Longrightarrow> Q v t"
  "whenever m Q E s \<Longrightarrow> m s = (Fail c, t) \<Longrightarrow> E c t"
  by (simp_all add: whenever_def)

section \<open>The end of a thread\<close>

text \<open>\<open>*args->exit_ready\<close>, and how often \<open>args->exit_ready_cond\<close> has been signalled. The results of
  the calls on the mutex around them are ignored.\<close>

record exit_flag =
  exit_ready :: bool
  exit_signals :: nat

definition announced :: "'z exit_flag_scheme \<Rightarrow> 'z exit_flag_scheme" where
  "announced t = t\<lparr>exit_ready := True, exit_signals := Suc (exit_signals t)\<rparr>"

text \<open>A thread function works on the data it shares, and has a flag of its own.\<close>

record 'x thread = exit_flag +
  work :: 'x

definition in_work :: "('x, 'a) prog \<Rightarrow> ('x thread, 'a) prog" where
  "in_work m t = (case m (work t) of (out, x) \<Rightarrow> (out, t\<lparr>work := x\<rparr>))"

text \<open>The end of a thread function: \<open>allocate\<close> is the malloc for the code it returns, whose result is
  not checked.\<close>

definition end_thread :: "('x, bool) prog \<Rightarrow> return_code_t \<Rightarrow> ('x thread, return_code_t) prog" where
  "end_thread allocate return_code =
     seq (modify announced) (\<lambda>_.
     seq (in_work allocate) (\<lambda>ok. if ok then ret return_code else undef))"

text \<open>A caller that sets the flag up and runs the thread function itself.\<close>

definition run_thread :: "('x thread, 'a) prog \<Rightarrow> ('x, 'a) prog" where
  "run_thread m x = (case m \<lparr>exit_ready = False, exit_signals = 0, work = x\<rparr> of (out, t) \<Rightarrow> (out, work t))"

lemma whenever_in_work [simp]:
  "whenever (in_work m) Q E t \<longleftrightarrow>
     whenever m (\<lambda>v x. Q v (t\<lparr>work := x\<rparr>)) (\<lambda>e x. E e (t\<lparr>work := x\<rparr>)) (work t)"
  by (auto simp: whenever_def in_work_def split: prod.splits outcome.splits)

lemma run_thread_whenever:
  "whenever (run_thread m) Q E x \<longleftrightarrow>
     whenever m (\<lambda>v t. Q v (work t)) (\<lambda>e t. E e (work t)) \<lparr>exit_ready = False, exit_signals = 0, work = x\<rparr>"
  by (auto simp: whenever_def run_thread_def split: prod.splits outcome.splits)

lemma whenever_end_thread:
  assumes "whenever allocate (\<lambda>ok x. ok \<longrightarrow> Q return_code ((announced t)\<lparr>work := x\<rparr>)) (\<lambda>_ _. False) (work t)"
  shows "whenever (end_thread allocate return_code) Q E t"
  using assms
  by (auto simp: end_thread_def announced_def undef_def whenever_def in_work_def seq_def prog_basic
      split: prod.splits outcome.splits)

text \<open>What a thread function does to its flag: whoever waits for it is told, once.\<close>

definition announces_exit :: "('x thread, return_code_t) prog \<Rightarrow> bool" where
  "announces_exit m \<longleftrightarrow> (\<forall>t. whenever m
     (\<lambda>_ u. exit_ready u \<and> exit_signals u = Suc (exit_signals t)) (\<lambda>_ _. False) t)"

lemma whenever_any_malloc [simp]: "(\<And>b t. Q b t) \<Longrightarrow> whenever malloc Q E s"
  by (simp add: whenever_def malloc_def split: list.split)

lemma announces_exitI:
  assumes "\<And>x. whenever m (\<lambda>_ _. True) (\<lambda>_ _. False) x"
    and "\<And>x. whenever allocate (\<lambda>_ _. True) (\<lambda>_ _. False) x"
  shows "announces_exit (seq (in_work m) (end_thread allocate))"
  using assms
  by (auto simp: announces_exit_def announced_def intro!: whenever_mono [OF assms(1)] whenever_end_thread
      elim!: whenever_mono)

section \<open>Messages\<close>

definition unsent_message :: "command_t \<Rightarrow> u8 list \<Rightarrow> u64 \<Rightarrow> command_data_t" where
  "unsent_message code bytes len =
     \<lparr>header = \<lparr>command_prefix = COMMAND_PREFIX, command = command_code code, command_len = 0\<rparr>,
      data_len = len, data_bytes = bytes\<rparr>"

text \<open>The message as it is sent, with its length.\<close>

definition message :: "command_t \<Rightarrow> u8 list \<Rightarrow> command_data_t" where
  "message code bytes =
     \<lparr>header = \<lparr>command_prefix = COMMAND_PREFIX, command = command_code code,
        command_len = 8 + of_nat (length bytes)\<rparr>,
      data_len = of_nat (length bytes), data_bytes = bytes\<rparr>"

lemma message_ok:
  assumes "length bytes < 2 ^ 62"
  shows "data_ok code (message code bytes)"
proof -
  have "unat (of_nat (length bytes) :: u64) = length bytes"
    using assms by (simp add: unsigned_of_nat take_bit_eq_mod)
  then show ?thesis using assms by (simp add: data_ok_def message_def)
qed

lemma serialize_unsent:
  "command_data_serialize code bo (Some (unsent_message code bytes (of_nat (length bytes)))) True True =
   command_data_serialize code bo (Some (message code bytes)) True True"
  by (simp add: command_data_serialize_def unsent_message_def message_def)

text \<open>A thread that serializes a message and sends it sends the whole of it.\<close>

lemma wp_send_message:
  assumes "length bytes < 2 ^ 62"
  shows "wp (seq (command_data_serialize code bo
        (Some (unsent_message code bytes (of_nat (length bytes)))) True True)
      (\<lambda>(_, buffer, n). send_all (Some buffer) (unat n)))
    (\<lambda>_ t. sent t = sent s @ wire_data (message code bytes) \<and> recvs t = recvs s \<and>
       (no_oom s \<longrightarrow> no_oom t))
    (\<lambda>e t. e = FAILURE_COULD_NOT_MALLOC \<and> \<not> no_oom s \<or>
       e = FAILURE_NETWORK_FUNCTION \<and> None \<in> set (sends s)) (s :: 'z net_scheme)"
  unfolding serialize_unsent
proof (rule wp_seqI, rule wp_mono [OF wp_command_data_serialize [OF message_ok [OF assms]]], goal_cases)
  case (1 v t)
  then obtain c n where v: "v = (c, wire_data (message code bytes), n)"
    "unat n = length (wire_data (message code bytes))" and t: "alloc_step s t"
    by (cases v) auto
  have "sent t = sent s" "recvs t = recvs s" "sends t = sends s"
    using t by (auto simp: alloc_step_def)
  moreover have "wp (send_all (Some (wire_data (message code bytes)))
      (length (wire_data (message code bytes))))
    (\<lambda>_ u. sent u = sent t @ take (length (wire_data (message code bytes)))
       (wire_data (message code bytes)) \<and> recvs u = recvs t \<and> mallocs u = mallocs t)
    (\<lambda>e u. e = FAILURE_NETWORK_FUNCTION \<and> None \<in> set (sends t) \<and>
       (\<exists>k < length (wire_data (message code bytes)).
          sent u = sent t @ take k (wire_data (message code bytes)))) t"
    by (rule wp_send_all) simp
  moreover have "no_oom s \<longrightarrow> no_oom t" using alloc_step_no_oom [OF t] by simp
  ultimately show ?case
    by (auto simp: v no_oom_def elim!: wp_mono)
qed auto

section \<open>Accepting connections\<close>

text \<open>
  The loop of a server thread. Each iteration polls the listening socket: the poll may fail or
  time out, accept may fail or return an address of another size, and otherwise there is a
  connection, whose peer has a name (\<open>named\<close>) or not, and which comes with the parameters \<open>'p\<close>
  of the request (the clock, the results of the calls on mutexes). The flag of an iteration is
  what \<open>should_stop\<close> is when it ends; at the end of the list it is set.
\<close>

datatype 'p poll_event =
    Poll_Error
  | Poll_Timeout
  | Accept_Error
  | Wrong_Address_Length
  | Accepted bool net 'p

fun accept_loop ::
  "bool \<Rightarrow> ('p \<Rightarrow> ('x node, unit) prog) \<Rightarrow> return_code_t \<Rightarrow> ('p poll_event \<times> bool) list \<Rightarrow>
    ('x, return_code_t) prog" where
  "accept_loop print handle return_code [] x = (Ok return_code, x)"
| "accept_loop print handle return_code ((event, stop) # events) x =
     (case event of
        Poll_Error \<Rightarrow> (Ok FAILURE_NETWORK_FUNCTION, x)
      | Poll_Timeout \<Rightarrow>
          if stop then (Ok return_code, x) else accept_loop print handle return_code events x
      | Accept_Error \<Rightarrow> (Ok FAILURE_NETWORK_FUNCTION, x)
      | Wrong_Address_Length \<Rightarrow> (Ok FAILURE_BUFFER_TOO_SMALL, x)
      | Accepted named connection p \<Rightarrow>
          if print \<and> \<not> named then (Ok FAILURE_NETWORK_FUNCTION, x)
          else (case handle p \<lparr>conn = connection, shared = x\<rparr> of
              (Undefined, n) \<Rightarrow> (Undefined, shared n)
            | (Diverges, n) \<Rightarrow> (Diverges, shared n)
            | (Ok v, n) \<Rightarrow>
                if stop then (Ok SUCCESS, shared n)
                else accept_loop print handle SUCCESS events (shared n)
            | (Fail c, n) \<Rightarrow>
                if stop then (Ok c, shared n) else accept_loop print handle c events (shared n)))"

text \<open>The whole thread: \<open>listening\<close> is whether socket, setsockopt, bind and listen succeed,
  \<open>stop\<close> the flag before the first iteration, \<open>allocated\<close> whether the malloc of the returned code
  does, which is not checked. The result is the code it returns.\<close>

definition server_thread ::
  "bool \<Rightarrow> ('p \<Rightarrow> ('x node, unit) prog) \<Rightarrow> bool \<Rightarrow> bool \<Rightarrow> bool \<Rightarrow> ('p poll_event \<times> bool) list \<Rightarrow>
    ('x thread, return_code_t) prog" where
  "server_thread print handle listening stop allocated events =
     seq (in_work (if \<not> listening then ret FAILURE_NETWORK_FUNCTION
          else if stop then ret SUCCESS
          else accept_loop print handle SUCCESS events))
       (end_thread (ret allocated))"

lemma run_server_thread:
  assumes "accept_loop print handle SUCCESS events x = (Ok c, y)"
  shows "run_thread (server_thread print handle True False True events) x = (Ok c, y)"
  using assms by (simp add: run_thread_def server_thread_def end_thread_def in_work_def seq_def prog_basic announced_def)

text \<open>An invariant of the shared data that every request keeps holds as long as the thread runs,
  and when a request returns in a given time, so does the loop.\<close>

lemma accept_loop_invariant:
  assumes "\<And>p n. P (shared n) \<Longrightarrow> fst (handle p n) \<notin> {Undefined, Diverges} \<Longrightarrow>
      P (shared (snd (handle p n)))"
    and "P x" and "accept_loop print handle c events x = (Ok r, y)"
  shows "P y"
  using assms(2,3)
proof (induction events arbitrary: c x)
  case Nil
  then show ?case by simp
next
  case (Cons e events)
  obtain event stop where e: "e = (event, stop)" by (cases e)
  show ?case
  proof (cases event)
    case (Accepted named connection p)
    let ?n = "\<lparr>conn = connection, shared = x\<rparr>"
    show ?thesis
      using Cons.prems Cons.IH assms(1) [of ?n p]
      by (cases "handle p ?n"; cases "fst (handle p ?n)")
        (auto simp: e Accepted split: if_splits)
  qed (use Cons e in \<open>auto split: if_splits\<close>)
qed

lemma accept_loop_not_Fail: "accept_loop print handle c events x \<noteq> (Fail e, y)"
proof (induction events arbitrary: c x)
  case Nil
  then show ?case by simp
next
  case (Cons e events)
  obtain event stop where e: "e = (event, stop)" by (cases e)
  show ?case
  proof (cases event)
    case (Accepted named connection p)
    then show ?thesis
      using Cons.IH
      by (cases "handle p \<lparr>conn = connection, shared = x\<rparr>";
          cases "fst (handle p \<lparr>conn = connection, shared = x\<rparr>)") (auto simp: e)
  qed (use Cons e in auto)
qed

lemma announces_server_thread: "announces_exit (server_thread print handle listening stop allocated events)"
  unfolding server_thread_def
proof (rule announces_exitI)
  show "whenever (if \<not> listening then ret FAILURE_NETWORK_FUNCTION else if stop then ret SUCCESS
      else accept_loop print handle SUCCESS events) (\<lambda>_ _. True) (\<lambda>_ _. False) x" for x
    by (auto simp: whenever_def prog_basic accept_loop_not_Fail split: prod.split outcome.split)
qed simp

end
