(* ===== verification/Transaction.thy ===== *)
theory Transaction
  imports Byte_Codec
begin

text \<open>
  src/transaction.c, with the structs of include/cryptography.h and include/transaction.h.
  OpenSSL is a parameter: the record \<open>openssl\<close> holds what its calls return. A signature covers
  the memory image of the transaction up to the signature field, so it depends on the byte
  order of the host.
\<close>

section \<open>Data\<close>

definition MAX_SSH_KEY_LENGTH :: nat where
  "MAX_SSH_KEY_LENGTH = 4096"

definition MAX_SSH_SIGNATURE_LENGTH :: nat where
  "MAX_SSH_SIGNATURE_LENGTH = 512"

definition AMOUNT_GENERATED_DURING_MINTING :: u64 where
  "AMOUNT_GENERATED_DURING_MINTING = 1"

text \<open>The byte array of an \<open>ssh_key_t\<close>.\<close>

type_synonym ssh_key_t = "u8 list"

record ssh_signature_t =
  sig_length :: u64
  sig_bytes :: "u8 list"

record transaction_t =
  tx_created_at :: u64
  sender_public_key :: ssh_key_t
  recipient_public_key :: ssh_key_t
  amount :: u64
  sender_signature :: ssh_signature_t

text \<open>The arrays of the structs have their declared sizes.\<close>

definition wf_key :: "ssh_key_t \<Rightarrow> bool" where
  "wf_key k \<longleftrightarrow> length k = MAX_SSH_KEY_LENGTH"

definition wf_transaction :: "transaction_t \<Rightarrow> bool" where
  "wf_transaction t \<longleftrightarrow> wf_key (sender_public_key t) \<and> wf_key (recipient_public_key t) \<and>
     length (sig_bytes (sender_signature t)) = MAX_SSH_SIGNATURE_LENGTH"

section \<open>The OpenSSL calls\<close>

record 'k openssl =
  bio_new :: bool
  read_private_key :: "u8 list \<Rightarrow> 'k option"
  read_public_key :: "u8 list \<Rightarrow> 'k option"
  is_rsa :: "'k \<Rightarrow> bool"
  md_ctx_new :: bool
  digest_sign_init :: "'k \<Rightarrow> bool"
  digest_sign_update :: bool
  digest_sign_length :: "'k \<Rightarrow> bool"
  digest_sign_final :: "'k \<Rightarrow> u8 list \<Rightarrow> u8 list option"
  verify_init :: bool
  verify_update :: bool
  verify_final :: "'k \<Rightarrow> u8 list \<Rightarrow> u8 list \<Rightarrow> bool"
  sha256 :: "u8 list \<Rightarrow> u8 list"

section \<open>The memory image of a transaction\<close>

text \<open>The bytes before \<open>offsetof(transaction_t, sender_signature)\<close>, and the whole struct; the
  fields leave no padding.\<close>

definition signed_bytes :: "byte_order \<Rightarrow> transaction_t \<Rightarrow> u8 list" where
  "signed_bytes bo t = mem_of_word bo (tx_created_at t) @ sender_public_key t @
     recipient_public_key t @ mem_of_word bo (amount t)"

definition transaction_bytes :: "byte_order \<Rightarrow> transaction_t \<Rightarrow> u8 list" where
  "transaction_bytes bo t = signed_bytes bo t @ mem_of_word bo (sig_length (sender_signature t)) @
     sig_bytes (sender_signature t)"

section \<open>Operations\<close>

text \<open>
  \<open>transaction_generate_signature\<close> takes the signature struct the out-parameter points to and
  returns its new contents. A key that is not RSA leads to a second \<open>BIO_free\<close> of the same
  object; a signature longer than the array is written past its end.
\<close>

definition transaction_generate_signature ::
  "'k openssl \<Rightarrow> byte_order \<Rightarrow> ssh_signature_t option \<Rightarrow> transaction_t option \<Rightarrow>
    ssh_key_t option \<Rightarrow> ('s, ssh_signature_t) prog" where
  "transaction_generate_signature ssl bo signature transaction sender_private_key =
     (case (signature, transaction, sender_private_key) of
        (Some sig, Some t, Some key_bytes) \<Rightarrow>
          seq (require (bio_new ssl) FAILURE_OPENSSL_FUNCTION) (\<lambda>_.
          case read_private_key ssl key_bytes of
            None \<Rightarrow> fail FAILURE_OPENSSL_FUNCTION
          | Some private_key \<Rightarrow>
              if \<not> is_rsa ssl private_key then undef
              else
                seq (require (md_ctx_new ssl) FAILURE_OPENSSL_FUNCTION) (\<lambda>_.
                seq (require (digest_sign_init ssl private_key) FAILURE_OPENSSL_FUNCTION) (\<lambda>_.
                seq (require (digest_sign_update ssl) FAILURE_OPENSSL_FUNCTION) (\<lambda>_.
                seq (require (digest_sign_length ssl private_key) FAILURE_OPENSSL_FUNCTION) (\<lambda>_.
                case digest_sign_final ssl private_key (signed_bytes bo t) of
                  None \<Rightarrow> fail FAILURE_OPENSSL_FUNCTION
                | Some s \<Rightarrow>
                    if MAX_SSH_SIGNATURE_LENGTH < length s then undef
                    else ret \<lparr>sig_length = of_nat (length s),
                              sig_bytes = s @ drop (length s) (sig_bytes sig)\<rparr>)))))
      | _ \<Rightarrow> fail FAILURE_INVALID_INPUT)"

definition zero_signature :: ssh_signature_t where
  "zero_signature = \<lparr>sig_length = 0, sig_bytes = replicate MAX_SSH_SIGNATURE_LENGTH 0\<rparr>"

text \<open>\<open>now\<close> is what \<open>time(NULL)\<close> returns.\<close>

definition transaction_create ::
  "'k openssl \<Rightarrow> byte_order \<Rightarrow> u64 \<Rightarrow> bool \<Rightarrow> ssh_key_t option \<Rightarrow> ssh_key_t option \<Rightarrow> u64 \<Rightarrow>
    ssh_key_t option \<Rightarrow> ('z env_scheme, transaction_t) prog" where
  "transaction_create ssl bo now out sender recipient amt sender_private_key =
     (case (sender, recipient, sender_private_key) of
        (Some s, Some r, Some k) \<Rightarrow>
          if \<not> out then fail FAILURE_INVALID_INPUT
          else
            seq alloc (\<lambda>_.
            let new_transaction =
              \<lparr>tx_created_at = now, sender_public_key = s, recipient_public_key = r,
               amount = amt, sender_signature = zero_signature\<rparr> in
            seq (transaction_generate_signature ssl bo
                  (Some (sender_signature new_transaction)) (Some new_transaction) (Some k))
              (\<lambda>sig. ret (new_transaction\<lparr>sender_signature := sig\<rparr>)))
      | _ \<Rightarrow> fail FAILURE_INVALID_INPUT)"

text \<open>\<open>EVP_VerifyFinal\<close> takes the length as an \<open>unsigned int\<close>; it is handed the signature array,
  so a greater length than the array's makes it read past the end of the struct.\<close>

definition transaction_verify_signature ::
  "'k openssl \<Rightarrow> byte_order \<Rightarrow> bool \<Rightarrow> transaction_t option \<Rightarrow> ('s, bool) prog" where
  "transaction_verify_signature ssl bo out transaction =
     (case transaction of
        None \<Rightarrow> fail FAILURE_INVALID_INPUT
      | Some t \<Rightarrow>
          if \<not> out then fail FAILURE_INVALID_INPUT
          else
            seq (require (bio_new ssl) FAILURE_OPENSSL_FUNCTION) (\<lambda>_.
            case read_public_key ssl (sender_public_key t) of
              None \<Rightarrow> fail FAILURE_OPENSSL_FUNCTION
            | Some public_key \<Rightarrow>
                seq (require (md_ctx_new ssl) FAILURE_OPENSSL_FUNCTION) (\<lambda>_.
                seq (require (verify_init ssl) FAILURE_OPENSSL_FUNCTION) (\<lambda>_.
                seq (require (verify_update ssl) FAILURE_OPENSSL_FUNCTION) (\<lambda>_.
                let len = unat (ucast (sig_length (sender_signature t)) :: u32) in
                if MAX_SSH_SIGNATURE_LENGTH < len then undef
                else ret (verify_final ssl public_key (signed_bytes bo t)
                            (take len (sig_bytes (sender_signature t)))))))))"

definition transaction_destroy :: "transaction_t option \<Rightarrow> ('s, unit) prog" where
  "transaction_destroy transaction =
     (case transaction of None \<Rightarrow> fail FAILURE_INVALID_INPUT | Some t \<Rightarrow> ret ())"

section \<open>The memory image determines the transaction\<close>

named_theorems size_defs "the sizes of the arrays"

declare MAX_SSH_KEY_LENGTH_def [size_defs] MAX_SSH_SIGNATURE_LENGTH_def [size_defs]

lemma length_signed_bytes:
  "wf_transaction t \<Longrightarrow> length (signed_bytes bo t) = 8208"
  by (simp add: signed_bytes_def wf_transaction_def wf_key_def size_defs)

lemma length_transaction_bytes:
  "wf_transaction t \<Longrightarrow> length (transaction_bytes bo t) = 8728"
  by (simp add: transaction_bytes_def length_signed_bytes)
    (simp add: wf_transaction_def size_defs)

lemma signed_bytes_inject:
  assumes "wf_transaction t" and "wf_transaction u" and "signed_bytes bo t = signed_bytes bo u"
  shows "tx_created_at t = tx_created_at u \<and> sender_public_key t = sender_public_key u \<and>
    recipient_public_key t = recipient_public_key u \<and> amount t = amount u"
  using assms by (auto simp: signed_bytes_def wf_transaction_def wf_key_def mem_of_word_inject
      dest!: append_eq_lengthD)

lemma transaction_bytes_inject:
  assumes wf: "wf_transaction t" "wf_transaction u"
    and "transaction_bytes bo t = transaction_bytes bo u"
  shows "t = u"
proof -
  from assms(3) have s: "signed_bytes bo t = signed_bytes bo u"
    and "mem_of_word bo (sig_length (sender_signature t)) @ sig_bytes (sender_signature t) =
      mem_of_word bo (sig_length (sender_signature u)) @ sig_bytes (sender_signature u)"
    using wf by (auto simp: transaction_bytes_def length_signed_bytes dest!: append_eq_lengthD)
  then have "sender_signature t = sender_signature u"
    by (auto simp: mem_of_word_inject dest!: append_eq_lengthD)
  with signed_bytes_inject [OF wf s] show ?thesis by simp
qed

interpretation tx_memory: fixed_width "transaction_bytes bo" wf_transaction 8728
  by unfold_locales (auto simp: length_transaction_bytes dest: transaction_bytes_inject)

section \<open>Creating a transaction\<close>

text \<open>The relation between a private and a public key that makes signatures verify.\<close>

definition key_pair :: "'k openssl \<Rightarrow> ssh_key_t \<Rightarrow> ssh_key_t \<Rightarrow> bool" where
  "key_pair ssl private public \<longleftrightarrow>
     (\<exists>k v. read_private_key ssl private = Some k \<and> is_rsa ssl k \<and>
        read_public_key ssl public = Some v \<and>
        (\<forall>m s. digest_sign_final ssl k m = Some s \<longrightarrow>
           length s \<le> MAX_SSH_SIGNATURE_LENGTH \<and> verify_final ssl v m s))"

text \<open>The signature check reads the state only: its outcome as a function of the
  transaction.\<close>

definition signature_outcome :: "'k openssl \<Rightarrow> byte_order \<Rightarrow> transaction_t \<Rightarrow> bool outcome" where
  "signature_outcome ssl bo t = fst (transaction_verify_signature ssl bo True (Some t) ())"

lemma verify_signature_outcome:
  "transaction_verify_signature ssl bo True (Some t) s = (signature_outcome ssl bo t, s)"
  by (auto simp: signature_outcome_def transaction_verify_signature_def seq_def prog_basic Let_def
      split: option.split if_split)

lemma signature_outcome_Fail:
  "signature_outcome ssl bo t = Fail c \<Longrightarrow> c = FAILURE_OPENSSL_FUNCTION"
  by (auto simp: signature_outcome_def transaction_verify_signature_def seq_def prog_basic Let_def
      split: option.splits if_splits)

lemma signature_outcome_not_Diverges [simp]: "signature_outcome ssl bo t \<noteq> Diverges"
  by (auto simp: signature_outcome_def transaction_verify_signature_def seq_def prog_basic Let_def
      split: option.split if_split)

lemma signature_outcome_defined:
  assumes "unat (sig_length (sender_signature t)) \<le> MAX_SSH_SIGNATURE_LENGTH"
  shows "signature_outcome ssl bo t \<noteq> Undefined"
proof -
  have "unat (ucast (sig_length (sender_signature t)) :: u32) \<le> MAX_SSH_SIGNATURE_LENGTH"
    unfolding unsigned_ucast_eq by (rule le_trans [OF take_bit_nat_less_eq_self assms])
  then show ?thesis
    by (auto simp: signature_outcome_def transaction_verify_signature_def seq_def prog_basic
        Let_def split: option.split if_split)
qed

text \<open>No call of OpenSSL that verifying makes fails for want of resources.\<close>

definition verifying_ok :: "'k openssl \<Rightarrow> bool" where
  "verifying_ok ssl \<longleftrightarrow> bio_new ssl \<and> md_ctx_new ssl \<and> verify_init ssl \<and> verify_update ssl"

lemma signature_outcome_not_Fail:
  assumes "verifying_ok ssl" and "read_public_key ssl (sender_public_key t) = Some v"
  shows "signature_outcome ssl bo t \<noteq> Fail c"
  using assms by (auto simp: verifying_ok_def signature_outcome_def transaction_verify_signature_def
      seq_def prog_basic Let_def split: if_split)

lemma wp_transaction_create:
  assumes "key_pair ssl private s" and "wf_key s" and "wf_key r"
  shows "wp (transaction_create ssl bo now True (Some s) (Some r) amt (Some private))
    (\<lambda>t u. wf_transaction t \<and> tx_created_at t = now \<and> sender_public_key t = s \<and>
       recipient_public_key t = r \<and> amount t = amt \<and>
       signature_outcome ssl bo t \<in> {Ok True, Fail FAILURE_OPENSSL_FUNCTION} \<and> alloc_step e u)
    (\<lambda>c u. (c = FAILURE_OPENSSL_FUNCTION \<or> c = FAILURE_COULD_NOT_MALLOC) \<and> alloc_step e u) e"
proof -
  from assms(1) obtain k v where key: "read_private_key ssl private = Some k" "is_rsa ssl k"
    "read_public_key ssl s = Some v"
    and sign: "\<And>m sg. digest_sign_final ssl k m = Some sg \<Longrightarrow>
      length sg \<le> 512 \<and> verify_final ssl v m sg"
    by (auto simp: key_pair_def size_defs)
  have len: "unat (ucast (of_nat n :: u64) :: u32) = n" if "n \<le> 512" for n
    using that by (simp add: unsigned_ucast_eq unsigned_of_nat take_bit_eq_mod)
  show ?thesis
    unfolding transaction_create_def
    apply (simp add: Let_def)
    apply (rule wp_allocI)
     apply (simp_all add: transaction_generate_signature_def key)
    apply (auto simp: signature_outcome_def transaction_verify_signature_def signed_bytes_def key len
        Let_def zero_signature_def wf_transaction_def assms(2,3) size_defs seq_def prog_basic
        split: option.splits if_splits dest: sign)
    done
qed

section \<open>Properties\<close>

text \<open>A toy OpenSSL for the witnesses: a key is its first byte, a signature is the key and
  copies of the length of the message (modulo 256) up to the length \<open>n\<close>, a digest ends with the
  length of the message; the key byte 255 is not an RSA key.\<close>

definition toy_sign :: "nat \<Rightarrow> u8 \<Rightarrow> u8 list \<Rightarrow> u8 list" where
  "toy_sign n k m = k # replicate (n - 1) (of_nat (length m))"

definition toy_ssl :: "nat \<Rightarrow> u8 openssl" where
  "toy_ssl n = \<lparr>bio_new = True, read_private_key = (\<lambda>b. Some (hd b)),
     read_public_key = (\<lambda>b. Some (hd b)), is_rsa = (\<lambda>k. k \<noteq> 255), md_ctx_new = True,
     digest_sign_init = (\<lambda>_. True), digest_sign_update = True, digest_sign_length = (\<lambda>_. True),
     digest_sign_final = (\<lambda>k m. Some (toy_sign n k m)), verify_init = True, verify_update = True,
     verify_final = (\<lambda>k m s. s = toy_sign n k m),
     sha256 = (\<lambda>m. replicate 31 0 @ [of_nat (length m)])\<rparr>"

text \<open>C23. Whatever key and whatever failure of OpenSSL or of the allocator: when a transaction
  is created with a key pair of at most 4096 bits, transaction_create returns either an error
  code or a transaction with the given fields whose arrays have their declared sizes, and
  transaction_verify_signature on that transaction returns true unless OpenSSL fails.\<close>

theorem created_transaction_verifies:
  assumes "key_pair ssl private s" and "wf_key s" and "wf_key r"
  shows "wp (transaction_create ssl bo now True (Some s) (Some r) amt (Some private))
    (\<lambda>t _. wf_transaction t \<and> tx_created_at t = now \<and> sender_public_key t = s \<and>
       recipient_public_key t = r \<and> amount t = amt \<and>
       wp (transaction_verify_signature ssl bo True (Some t))
         (\<lambda>valid _. valid) (\<lambda>c _. c = FAILURE_OPENSSL_FUNCTION) ())
    (\<lambda>c _. c = FAILURE_OPENSSL_FUNCTION \<or> c = FAILURE_COULD_NOT_MALLOC) e"
  by (rule wp_mono [OF wp_transaction_create [OF assms]])
    (auto simp: wp_def verify_signature_outcome)

text \<open>The key pair of the toy OpenSSL and its 4096-byte array.\<close>

definition toy_key :: "u8 \<Rightarrow> ssh_key_t" where
  "toy_key k = k # replicate 4095 0"

lemma toy_key_simps [simp]: "hd (toy_key k) = k" "length (toy_key k) = 4096"
  by (simp_all add: toy_key_def)

lemma toy_key_pair: "0 < n \<Longrightarrow> n \<le> 512 \<Longrightarrow> k \<noteq> 255 \<Longrightarrow> key_pair (toy_ssl n) (toy_key k) (toy_key k)"
  by (auto simp: key_pair_def toy_ssl_def toy_sign_def size_defs)

theorem created_transaction_verifies_witness:
  "wp (transaction_create (toy_ssl 4) Little_Endian 5 True (Some (toy_key 9)) (Some (toy_key 9)) 1
      (Some (toy_key 9)))
    (\<lambda>t _. sender_public_key t = toy_key 9 \<and> amount t = 1)
    (\<lambda>c _. c = FAILURE_OPENSSL_FUNCTION \<or> c = FAILURE_COULD_NOT_MALLOC)
    \<lparr>mallocs = [True]\<rparr>"
proof -
  have pair: "key_pair (toy_ssl 4) (toy_key 9) (toy_key 9)" by (rule toy_key_pair) simp_all
  have wf: "wf_key (toy_key 9)" by (simp add: wf_key_def size_defs)
  show ?thesis
    by (rule wp_mono [OF created_transaction_verifies [OF pair wf wf]]) auto
qed

text \<open>transaction_generate_signature has undefined behaviour exactly when OpenSSL reads the
  private key and either the key is not an RSA key (its BIO is then freed twice) or the
  signature it makes is longer than the 512 bytes of the signature array (it is then written
  past the end of the transaction): an RSA key of more than 4096 bits, which the 4096 bytes of a
  PEM file can hold, is enough.\<close>

theorem generate_signature_undefined_iff:
  "fst (transaction_generate_signature ssl bo (Some sg) (Some t) (Some key) s) = Undefined \<longleftrightarrow>
     bio_new ssl \<and>
     (\<exists>k. read_private_key ssl key = Some k \<and>
        (\<not> is_rsa ssl k \<or>
         md_ctx_new ssl \<and> digest_sign_init ssl k \<and> digest_sign_update ssl \<and>
         digest_sign_length ssl k \<and>
         (\<exists>sig. digest_sign_final ssl k (signed_bytes bo t) = Some sig \<and>
            MAX_SSH_SIGNATURE_LENGTH < length sig)))"
  by (auto simp: transaction_generate_signature_def seq_def require_def ret_def fail_def undef_def
      split: option.split if_split)

definition sample_transaction :: transaction_t where
  "sample_transaction = \<lparr>tx_created_at = 0, sender_public_key = toy_key 9,
     recipient_public_key = toy_key 9, amount = 1, sender_signature = zero_signature\<rparr>"

theorem generate_signature_undefined_iff_witness:
  "fst (transaction_generate_signature (toy_ssl 512) Little_Endian (Some zero_signature) (Some sample_transaction)
     (Some (toy_key 9)) ()) \<noteq> Undefined \<and>
   fst (transaction_generate_signature (toy_ssl 513) Little_Endian (Some zero_signature) (Some sample_transaction)
     (Some (toy_key 9)) ()) = Undefined \<and>
   fst (transaction_generate_signature (toy_ssl 4) Little_Endian (Some zero_signature) (Some sample_transaction)
     (Some (toy_key 255)) ()) = Undefined"
  using generate_signature_undefined_iff [of "toy_ssl 512" Little_Endian zero_signature sample_transaction "toy_key 9" "()"]
    generate_signature_undefined_iff [of "toy_ssl 513" Little_Endian zero_signature sample_transaction "toy_key 9" "()"]
    generate_signature_undefined_iff [of "toy_ssl 4" Little_Endian zero_signature sample_transaction "toy_key 255" "()"]
  by (simp add: toy_ssl_def toy_sign_def size_defs)

end
