(* ===== verification/Linked_List.thy ===== *)
theory Linked_List
  imports Prelude
begin

text \<open>
  src/linked_list.c on an explicit heap. A \<open>linked_list_t *\<close> and a \<open>node_t *\<close> are addresses
  (\<open>None\<close> is the null pointer), the heap maps addresses of live objects to their contents,
  and an access through any other pointer is \<open>Undefined\<close>. The \<open>void *\<close> data of a node is a
  value of a type parameter. The calls of the list's free function are logged in \<open>freed\<close>.
\<close>

section \<open>Data\<close>

type_synonym addr = nat

record 'a node_t =
  data :: 'a
  next_node :: "addr option"

text \<open>The free functions the program installs: \<open>free\<close>, \<open>transaction_destroy\<close>,
  \<open>block_destroy\<close>.\<close>

datatype free_function_t = Free | Transaction_Destroy | Block_Destroy

text \<open>A compare function returns \<open>None\<close> where reading its arguments is undefined.\<close>

type_synonym 'a compare_function_t = "'a \<Rightarrow> 'a \<Rightarrow> int option"

record 'a linked_list_t =
  free_function :: free_function_t
  compare_function :: "'a compare_function_t option"
  head :: "addr option"

record 'a heap = env +
  lists :: "addr \<Rightarrow> 'a linked_list_t option"
  nodes :: "addr \<Rightarrow> 'a node_t option"
  brk :: addr
  freed :: "(free_function_t \<times> 'a) list"

section \<open>Memory accesses\<close>

definition load_list :: "addr \<Rightarrow> (('a, 'z) heap_scheme, 'a linked_list_t) prog" where
  "load_list p h = (case lists h p of None \<Rightarrow> (Undefined, h) | Some l \<Rightarrow> (Ok l, h))"

definition load_node :: "addr \<Rightarrow> (('a, 'z) heap_scheme, 'a node_t) prog" where
  "load_node p h = (case nodes h p of None \<Rightarrow> (Undefined, h) | Some n \<Rightarrow> (Ok n, h))"

definition store_head :: "addr \<Rightarrow> addr option \<Rightarrow> (('a, 'z) heap_scheme, unit) prog" where
  "store_head p q h = (case lists h p of
      None \<Rightarrow> (Undefined, h)
    | Some l \<Rightarrow> (Ok (), h\<lparr>lists := (lists h)(p \<mapsto> l\<lparr>head := q\<rparr>)\<rparr>))"

definition store_next :: "addr \<Rightarrow> addr option \<Rightarrow> (('a, 'z) heap_scheme, unit) prog" where
  "store_next p q h = (case nodes h p of
      None \<Rightarrow> (Undefined, h)
    | Some n \<Rightarrow> (Ok (), h\<lparr>nodes := (nodes h)(p \<mapsto> n\<lparr>next_node := q\<rparr>)\<rparr>))"

definition store_data :: "addr \<Rightarrow> 'a \<Rightarrow> (('a, 'z) heap_scheme, unit) prog" where
  "store_data p d h = (case nodes h p of
      None \<Rightarrow> (Undefined, h)
    | Some n \<Rightarrow> (Ok (), h\<lparr>nodes := (nodes h)(p \<mapsto> n\<lparr>data := d\<rparr>)\<rparr>))"

definition new_list :: "'a linked_list_t \<Rightarrow> (('a, 'z) heap_scheme, addr) prog" where
  "new_list l h = (Ok (brk h), h\<lparr>lists := (lists h)(brk h \<mapsto> l), brk := Suc (brk h)\<rparr>)"

definition new_node :: "'a node_t \<Rightarrow> (('a, 'z) heap_scheme, addr) prog" where
  "new_node n h = (Ok (brk h), h\<lparr>nodes := (nodes h)(brk h \<mapsto> n), brk := Suc (brk h)\<rparr>)"

definition free_node :: "addr \<Rightarrow> (('a, 'z) heap_scheme, unit) prog" where
  "free_node p h = (case nodes h p of
      None \<Rightarrow> (Undefined, h) | Some n \<Rightarrow> (Ok (), h\<lparr>nodes := (nodes h)(p := None)\<rparr>))"

definition free_list :: "addr \<Rightarrow> (('a, 'z) heap_scheme, unit) prog" where
  "free_list p h = (case lists h p of
      None \<Rightarrow> (Undefined, h) | Some l \<Rightarrow> (Ok (), h\<lparr>lists := (lists h)(p := None)\<rparr>))"

definition call_free :: "free_function_t \<Rightarrow> 'a \<Rightarrow> (('a, 'z) heap_scheme, unit) prog" where
  "call_free f d = modify (\<lambda>h. h\<lparr>freed := freed h @ [(f, d)]\<rparr>)"

section \<open>The operations\<close>

text \<open>A pointer argument is an \<open>option\<close>; for an out-parameter only whether it is non-null
  matters, except in \<open>linked_list_find\<close>, which may leave its target unchanged.\<close>

definition linked_list_create ::
  "bool \<Rightarrow> free_function_t option \<Rightarrow> 'a compare_function_t option \<Rightarrow>
    (('a, 'z) heap_scheme, addr) prog" where
  "linked_list_create out free_fn compare_fn =
     (case free_fn of
        None \<Rightarrow> fail FAILURE_INVALID_INPUT
      | Some f \<Rightarrow>
          if \<not> out then fail FAILURE_INVALID_INPUT
          else seq alloc (\<lambda>_.
            new_list \<lparr>free_function = f, compare_function = compare_fn, head = None\<rparr>))"

definition linked_list_is_empty :: "addr option \<Rightarrow> bool \<Rightarrow> (('a, 'z) heap_scheme, bool) prog" where
  "linked_list_is_empty linked_list out =
     (case linked_list of
        None \<Rightarrow> fail FAILURE_INVALID_INPUT
      | Some p \<Rightarrow>
          if \<not> out then fail FAILURE_INVALID_INPUT
          else seq (load_list p) (\<lambda>l. ret (head l = None)))"

definition linked_list_prepend :: "addr option \<Rightarrow> 'a option \<Rightarrow> (('a, 'z) heap_scheme, unit) prog"
  where "linked_list_prepend linked_list d =
     (case (linked_list, d) of
        (Some p, Some d) \<Rightarrow>
          seq alloc (\<lambda>_.
          seq (load_list p) (\<lambda>l.
          seq (new_node \<lparr>data = d, next_node = head l\<rparr>) (\<lambda>a.
          store_head p (Some a))))
      | _ \<Rightarrow> fail FAILURE_INVALID_INPUT)"

definition linked_list_get_first :: "addr option \<Rightarrow> bool \<Rightarrow> (('a, 'z) heap_scheme, addr) prog"
  where "linked_list_get_first linked_list out =
     (case linked_list of
        None \<Rightarrow> fail FAILURE_INVALID_INPUT
      | Some p \<Rightarrow>
          if \<not> out then fail FAILURE_INVALID_INPUT
          else
            seq (linked_list_is_empty (Some p) True) (\<lambda>is_empty.
            if is_empty then fail FAILURE_LINKED_LIST_EMPTY
            else seq (load_list p) (\<lambda>l.
              case head l of None \<Rightarrow> undef | Some a \<Rightarrow> ret a)))"

definition linked_list_remove_first :: "addr option \<Rightarrow> (('a, 'z) heap_scheme, unit) prog" where
  "linked_list_remove_first linked_list =
     (case linked_list of
        None \<Rightarrow> fail FAILURE_INVALID_INPUT
      | Some p \<Rightarrow>
          seq (linked_list_get_first (Some p) True) (\<lambda>first.
          seq (load_node first) (\<lambda>n.
          seq (store_head p (next_node n)) (\<lambda>_.
          seq (load_list p) (\<lambda>l.
          seq (call_free (free_function l) (data n)) (\<lambda>_.
          free_node first))))))"

text \<open>One iteration of the loop of \<open>linked_list_destroy\<close>, whose variable is \<open>is_empty\<close>.\<close>

definition destroy_body :: "addr \<Rightarrow> bool \<Rightarrow> (('a, 'z) heap_scheme, bool + unit) prog" where
  "destroy_body p is_empty =
     (if is_empty then ret (Inr ())
      else
        seq (linked_list_remove_first (Some p)) (\<lambda>_.
        seq (linked_list_is_empty (Some p) True) (\<lambda>is_empty.
        ret (Inl is_empty))))"

definition linked_list_destroy :: "addr option \<Rightarrow> (('a, 'z) heap_scheme, unit) prog" where
  "linked_list_destroy linked_list =
     (case linked_list of
        None \<Rightarrow> fail FAILURE_INVALID_INPUT
      | Some p \<Rightarrow>
          seq (linked_list_is_empty (Some p) True) (\<lambda>is_empty.
          seq (loop (destroy_body p) is_empty) (\<lambda>_.
          free_list p)))"

text \<open>\<open>linked_list_find\<close> takes the value the out-parameter points to before the call and
  returns the value it points to afterwards.\<close>

definition linked_list_find ::
  "addr option \<Rightarrow> 'a option \<Rightarrow> addr option option \<Rightarrow> (('a, 'z) heap_scheme, addr option) prog" where
  "linked_list_find linked_list d node =
     (case (linked_list, d, node) of
        (Some p, Some d, Some node) \<Rightarrow>
          seq (load_list p) (\<lambda>l.
          case compare_function l of
            None \<Rightarrow> fail FAILURE_LINKED_LIST_NO_COMPARE_FUNCTION
          | Some cmp \<Rightarrow>
              loop (\<lambda>ptr.
                case ptr of
                  None \<Rightarrow> ret (Inr node)
                | Some a \<Rightarrow>
                    seq (load_node a) (\<lambda>n.
                    case cmp d (data n) of
                      None \<Rightarrow> undef
                    | Some c \<Rightarrow>
                        if c = 0 then ret (Inr (Some a))
                        else ret (Inl (next_node n)))) (head l))
      | _ \<Rightarrow> fail FAILURE_INVALID_INPUT)"

definition linked_list_get_last :: "addr option \<Rightarrow> bool \<Rightarrow> (('a, 'z) heap_scheme, addr) prog"
  where "linked_list_get_last linked_list out =
     (case linked_list of
        None \<Rightarrow> fail FAILURE_INVALID_INPUT
      | Some p \<Rightarrow>
          if \<not> out then fail FAILURE_INVALID_INPUT
          else
            seq (linked_list_is_empty (Some p) True) (\<lambda>is_empty.
            if is_empty then fail FAILURE_LINKED_LIST_EMPTY
            else seq (load_list p) (\<lambda>l.
              case head l of
                None \<Rightarrow> undef
              | Some a \<Rightarrow>
                  loop (\<lambda>ptr. seq (load_node ptr) (\<lambda>n.
                    case next_node n of
                      None \<Rightarrow> ret (Inr ptr)
                    | Some b \<Rightarrow> ret (Inl b))) a)))"

definition linked_list_append :: "addr option \<Rightarrow> 'a option \<Rightarrow> (('a, 'z) heap_scheme, unit) prog"
  where "linked_list_append linked_list d =
     (case (linked_list, d) of
        (Some p, Some d) \<Rightarrow>
          seq (linked_list_is_empty (Some p) True) (\<lambda>is_empty.
          if is_empty then linked_list_prepend (Some p) (Some d)
          else
            seq (linked_list_get_last (Some p) True) (\<lambda>last.
            seq alloc (\<lambda>_.
            seq (new_node \<lparr>data = d, next_node = None\<rparr>) (\<lambda>a.
            store_next last (Some a)))))
      | _ \<Rightarrow> fail FAILURE_INVALID_INPUT)"

definition linked_list_length :: "addr option \<Rightarrow> bool \<Rightarrow> (('a, 'z) heap_scheme, u64) prog" where
  "linked_list_length linked_list out =
     (case linked_list of
        None \<Rightarrow> fail FAILURE_INVALID_INPUT
      | Some p \<Rightarrow>
          if \<not> out then fail FAILURE_INVALID_INPUT
          else
            seq (load_list p) (\<lambda>l.
            loop (\<lambda>(node, result).
              case node of
                None \<Rightarrow> ret (Inr result)
              | Some a \<Rightarrow> seq (load_node a) (\<lambda>n. ret (Inl (next_node n, result + 1))))
              (head l, 0)))"

end
