(* ===== verification/List_Refinement.thy ===== *)
theory List_Refinement
  imports Linked_List
begin

text \<open>
  What src/linked_list.c promises: each operation on a well-formed heap list does what the
  functional operation of the same name does on the sequence of its data. The components
  above use the functional operations \<open>ll_\<close>; the interface \<open>list_provider\<close> states the
  refinement, and is interpreted on the heap operations at the end.
\<close>

section \<open>Functional lists\<close>

definition ll_create :: "('z env_scheme, 'a list) prog" where
  "ll_create = seq alloc (\<lambda>_. ret [])"

definition ll_prepend :: "'a list \<Rightarrow> 'a \<Rightarrow> ('z env_scheme, 'a list) prog" where
  "ll_prepend xs d = seq alloc (\<lambda>_. ret (d # xs))"

definition ll_append :: "'a list \<Rightarrow> 'a \<Rightarrow> ('z env_scheme, 'a list) prog" where
  "ll_append xs d = seq alloc (\<lambda>_. ret (xs @ [d]))"

definition ll_remove_first :: "'a list \<Rightarrow> ('z env_scheme, 'a list) prog" where
  "ll_remove_first xs =
     (case xs of [] \<Rightarrow> fail FAILURE_LINKED_LIST_EMPTY | d # ds \<Rightarrow> ret ds)"

definition ll_get_last :: "'a list \<Rightarrow> ('z env_scheme, 'a) prog" where
  "ll_get_last xs = (if xs = [] then fail FAILURE_LINKED_LIST_EMPTY else ret (last xs))"

definition ll_length :: "'a list \<Rightarrow> ('z env_scheme, u64) prog" where
  "ll_length xs = ret (of_nat (length xs))"

lemma wp_ll_createI:
  assumes "\<And>t. alloc_step s t \<Longrightarrow> Q [] t"
    and "\<And>t. alloc_step s t \<Longrightarrow> \<not> no_oom s \<Longrightarrow> E FAILURE_COULD_NOT_MALLOC t"
  shows "wp ll_create Q E s"
  unfolding ll_create_def wp_seq by (rule wp_allocI) (use assms in auto)

lemma wp_ll_appendI:
  assumes "\<And>t. alloc_step s t \<Longrightarrow> Q (xs @ [d]) t"
    and "\<And>t. alloc_step s t \<Longrightarrow> \<not> no_oom s \<Longrightarrow> E FAILURE_COULD_NOT_MALLOC t"
  shows "wp (ll_append xs d) Q E s"
  unfolding ll_append_def wp_seq by (rule wp_allocI) (use assms in auto)

lemma wp_ll_length [simp]: "wp (ll_length xs) Q E s = Q (of_nat (length xs)) s"
  by (simp add: ll_length_def)

lemma wp_ll_get_last [simp]:
  "wp (ll_get_last xs) Q E s =
     ((xs \<noteq> [] \<longrightarrow> Q (last xs) s) \<and> (xs = [] \<longrightarrow> E FAILURE_LINKED_LIST_EMPTY s))"
  by (auto simp: ll_get_last_def)

section \<open>The interface\<close>

text \<open>
  \<open>refines R R' m f s\<close>: run from \<open>s\<close>, the operation \<open>m\<close> and the functional operation \<open>f\<close>
  consume the same allocation outcomes and return the same code; when both succeed the
  results and the heap are related by \<open>R\<close>, when both fail the heap satisfies \<open>R'\<close>.
\<close>

definition refines ::
  "('r \<Rightarrow> 'b \<Rightarrow> 'z env_scheme \<Rightarrow> bool) \<Rightarrow> ('z env_scheme \<Rightarrow> bool) \<Rightarrow>
    ('z env_scheme, 'r) prog \<Rightarrow> ('z env_scheme, 'b) prog \<Rightarrow> 'z env_scheme \<Rightarrow> bool" where
  "refines R R' m f s =
     (case (m s, f s) of
        ((Ok r, t), (Ok v, u)) \<Rightarrow> mallocs t = mallocs u \<and> R r v t
      | ((Fail c, t), (Fail c', u)) \<Rightarrow> c = c' \<and> mallocs t = mallocs u \<and> R' t
      | _ \<Rightarrow> False)"

text \<open>\<open>holds s p xs\<close> says that in state \<open>s\<close> the list object \<open>p\<close> has the data \<open>xs\<close>.\<close>

locale list_provider =
  fixes holds :: "'z env_scheme \<Rightarrow> 'p \<Rightarrow> 'a list \<Rightarrow> bool"
    and prepend append :: "'p \<Rightarrow> 'a \<Rightarrow> ('z env_scheme, unit) prog"
    and remove_first :: "'p \<Rightarrow> ('z env_scheme, unit) prog"
    and len :: "'p \<Rightarrow> ('z env_scheme, u64) prog"
  assumes prepend_refines:
      "holds s p xs \<Longrightarrow>
        refines (\<lambda>_ ys t. holds t p ys) (\<lambda>t. holds t p xs) (prepend p d) (ll_prepend xs d) s"
    and append_refines:
      "holds s p xs \<Longrightarrow>
        refines (\<lambda>_ ys t. holds t p ys) (\<lambda>t. holds t p xs) (append p d) (ll_append xs d) s"
    and remove_first_refines:
      "holds s p xs \<Longrightarrow>
        refines (\<lambda>_ ys t. holds t p ys) (\<lambda>t. holds t p xs)
          (remove_first p) (ll_remove_first xs) s"
    and len_refines:
      "holds s p xs \<Longrightarrow>
        refines (\<lambda>n m t. n = m \<and> t = s) (\<lambda>t. False) (len p) (ll_length xs) s"
begin

lemma prepend_no_oom:
  assumes "holds s p xs" and "no_oom s"
  shows "wp (prepend p d) (\<lambda>_ t. holds t p (d # xs) \<and> no_oom t) (\<lambda>_ _. False) s"
proof -
  have "wp (ll_prepend xs d) (\<lambda>ys t. ys = d # xs \<and> no_oom t) (\<lambda>_ _. False) s"
    unfolding ll_prepend_def wp_seq
    by (rule wp_allocI) (use assms(2) in \<open>auto dest: alloc_step_no_oom\<close>)
  with prepend_refines [OF assms(1), of d] show ?thesis
    by (auto simp: refines_def wp_def no_oom_def split: prod.splits outcome.splits)
qed

lemma append_no_oom:
  assumes "holds s p xs" and "no_oom s"
  shows "wp (append p d) (\<lambda>_ t. holds t p (xs @ [d]) \<and> no_oom t) (\<lambda>_ _. False) s"
proof -
  have "wp (ll_append xs d) (\<lambda>ys t. ys = xs @ [d] \<and> no_oom t) (\<lambda>_ _. False) s"
    by (rule wp_ll_appendI) (use assms(2) in \<open>auto dest: alloc_step_no_oom\<close>)
  with append_refines [OF assms(1), of d] show ?thesis
    by (auto simp: refines_def wp_def no_oom_def split: prod.splits outcome.splits)
qed

text \<open>The two ways the program fills a list: appending the elements in order (the
  deserializers) and prepending them in order (the copy of the peer list).\<close>

primrec append_all :: "'p \<Rightarrow> 'a list \<Rightarrow> ('z env_scheme, unit) prog" where
  "append_all p [] = ret ()"
| "append_all p (d # ds) = seq (append p d) (\<lambda>_. append_all p ds)"

primrec prepend_all :: "'p \<Rightarrow> 'a list \<Rightarrow> ('z env_scheme, unit) prog" where
  "prepend_all p [] = ret ()"
| "prepend_all p (d # ds) = seq (prepend p d) (\<lambda>_. prepend_all p ds)"

lemma append_all_holds:
  assumes "holds s p xs" and "no_oom s"
  shows "wp (append_all p ds) (\<lambda>_ t. holds t p (xs @ ds) \<and> no_oom t) (\<lambda>_ _. False) s"
  using assms
proof (induction ds arbitrary: s xs)
  case Nil
  then show ?case by simp
next
  case (Cons d ds)
  from append_no_oom [OF Cons.prems, of d] show ?case
    unfolding append_all.simps wp_seq
    by (rule wp_mono) (use Cons.IH [of _ "xs @ [d]"] in auto)
qed

lemma prepend_all_holds:
  assumes "holds s p xs" and "no_oom s"
  shows "wp (prepend_all p ds) (\<lambda>_ t. holds t p (rev ds @ xs) \<and> no_oom t) (\<lambda>_ _. False) s"
  using assms
proof (induction ds arbitrary: s xs)
  case Nil
  then show ?case by simp
next
  case (Cons d ds)
  from prepend_no_oom [OF Cons.prems, of d] show ?case
    unfolding prepend_all.simps wp_seq
    by (rule wp_mono) (use Cons.IH [of _ "d # xs"] in auto)
qed

lemma len_value:
  "holds s p xs \<Longrightarrow> len p s = (Ok (of_nat (length xs)), s)"
  using len_refines [of s p xs]
  by (auto simp: refines_def ll_length_def ret_def split: prod.splits outcome.splits)

end

section \<open>Lists in the heap\<close>

primrec path ::
  "(addr \<Rightarrow> 'a node_t option) \<Rightarrow> addr option \<Rightarrow> (addr \<times> 'a) list \<Rightarrow> addr option \<Rightarrow> bool" where
  "path N p [] q \<longleftrightarrow> p = q"
| "path N p (x # xs) q \<longleftrightarrow> p = Some (fst x) \<and>
     (\<exists>r. N (fst x) = Some \<lparr>data = snd x, next_node = r\<rparr> \<and> path N r xs q)"

definition heap_ok :: "('a, 'z) heap_scheme \<Rightarrow> bool" where
  "heap_ok h \<longleftrightarrow> (\<forall>a \<ge> brk h. nodes h a = None \<and> lists h a = None)"

definition list_at ::
  "('a, 'z) heap_scheme \<Rightarrow> addr \<Rightarrow> 'a linked_list_t \<Rightarrow> (addr \<times> 'a) list \<Rightarrow> bool" where
  "list_at h p l xs \<longleftrightarrow> heap_ok h \<and> lists h p = Some l \<and> path (nodes h) (head l) xs None"

definition holds :: "('a, 'z) heap_scheme \<Rightarrow> addr \<Rightarrow> 'a list \<Rightarrow> bool" where
  "holds h p ds \<longleftrightarrow> (\<exists>l xs. list_at h p l xs \<and> ds = map snd xs)"

lemma path_None_iff [simp]: "path N None xs q \<longleftrightarrow> xs = [] \<and> q = None"
  by (cases xs) auto

lemma path_append:
  "path N p (xs @ ys) q \<longleftrightarrow> (\<exists>r. path N p xs r \<and> path N r ys q)"
  by (induction xs arbitrary: p) auto

lemma path_unique: "path N p xs None \<Longrightarrow> path N p ys None \<Longrightarrow> xs = ys"
proof (induction xs arbitrary: p ys)
  case Nil
  then show ?case by (cases ys) auto
next
  case (Cons x xs)
  then show ?case by (cases ys) (auto simp: prod_eq_iff)
qed

lemma path_head_notin: "path N r xs None \<Longrightarrow> N a = Some \<lparr>data = d, next_node = r\<rparr> \<Longrightarrow> a \<notin> fst ` set xs"
proof
  assume p: "path N r xs None" and n: "N a = Some \<lparr>data = d, next_node = r\<rparr>"
    and "a \<in> fst ` set xs"
  then obtain x us vs where xs: "xs = us @ x # vs" and x: "fst x = a"
    by (auto simp: in_set_conv_decomp)
  from p have "path N (Some a) (x # vs) None"
    unfolding xs path_append by (auto simp: x)
  moreover have "path N (Some a) ((a, d) # xs) None" using p n by simp
  ultimately have "x # vs = (a, d) # xs" by (rule path_unique)
  then show False using xs by (metis length_append length_Cons not_add_less2 lessI)
qed

lemma path_distinct: "path N p xs None \<Longrightarrow> distinct (map fst xs)"
  by (induction xs arbitrary: p) (auto dest: path_head_notin)

lemma path_upd_other [simp]:
  "a \<notin> fst ` set xs \<Longrightarrow> path (N(a := v)) p xs q = path N p xs q"
  by (induction xs arbitrary: p) auto

lemma path_live: "path N p xs q \<Longrightarrow> x \<in> set xs \<Longrightarrow> N (fst x) \<noteq> None"
  by (induction xs arbitrary: p) auto

lemma list_at_fresh: "list_at h p l xs \<Longrightarrow> brk h \<notin> fst ` set xs"
  by (force simp: list_at_def heap_ok_def dest: path_live)

lemma list_at_mallocs [simp]: "list_at (h\<lparr>mallocs := m\<rparr>) = list_at h"
  by (simp add: list_at_def heap_ok_def fun_eq_iff)

lemma holds_mallocs [simp]: "holds (h\<lparr>mallocs := m\<rparr>) = holds h"
  by (simp add: holds_def fun_eq_iff)

section \<open>The operations on a list in the heap\<close>

text \<open>\<open>kept p A h h'\<close>: from \<open>h\<close> to \<open>h'\<close> only the list object \<open>p\<close> and nodes that are in \<open>A\<close> or
  new have changed; every other list of the heap is as before.\<close>

definition kept :: "addr \<Rightarrow> addr set \<Rightarrow> ('a, 'z) heap_scheme \<Rightarrow> ('a, 'z) heap_scheme \<Rightarrow> bool" where
  "kept p A h h' \<longleftrightarrow>
     (\<forall>q. q \<noteq> p \<longrightarrow> lists h' q = lists h q) \<and>
     (\<forall>a. a \<notin> A \<and> a < brk h \<longrightarrow> nodes h' a = nodes h a)"

lemma path_cong:
  "path N p xs q \<Longrightarrow> (\<And>x. x \<in> set xs \<Longrightarrow> N' (fst x) = N (fst x)) \<Longrightarrow> path N' p xs q"
  by (induction xs arbitrary: p) auto

lemma kept_list_at:
  assumes "kept p A h h'" and "heap_ok h'" and "list_at h q m ys"
    and "q \<noteq> p" and "fst ` set ys \<inter> A = {}"
  shows "list_at h' q m ys"
proof -
  have "nodes h' (fst y) = nodes h (fst y)" if "y \<in> set ys" for y
  proof -
    have "nodes h (fst y) \<noteq> None"
      using assms(3) that by (auto simp: list_at_def dest: path_live)
    then have "fst y < brk h"
      using assms(3) by (meson heap_ok_def linorder_not_less list_at_def)
    then show ?thesis using assms(1,5) that by (auto simp: kept_def)
  qed
  then have "path (nodes h') (head m) ys None"
    using assms(3) by (auto simp: list_at_def intro: path_cong)
  then show ?thesis using assms by (simp add: list_at_def kept_def)
qed

lemma is_empty_at [simp]:
  "list_at h p l xs \<Longrightarrow> linked_list_is_empty (Some p) True h = (Ok (xs = []), h)"
  by (cases xs) (auto simp: linked_list_is_empty_def load_list_def seq_def ret_def list_at_def)

lemma load_list_at [simp]: "list_at h p l xs \<Longrightarrow> load_list p h = (Ok l, h)"
  by (simp add: load_list_def list_at_def)

lemma get_first_at:
  "list_at h p l (x # xs) \<Longrightarrow> linked_list_get_first (Some p) True h = (Ok (fst x), h)"
  by (auto simp: linked_list_get_first_def load_list_def seq_def ret_def)
    (auto simp: list_at_def ret_def)

lemma get_first_empty:
  "list_at h p l [] \<Longrightarrow>
    linked_list_get_first (Some p) True h = (Fail FAILURE_LINKED_LIST_EMPTY, h)"
  by (simp add: linked_list_get_first_def seq_def fail_def)

lemma prepend_at:
  assumes "list_at h p l xs" and "alloc h = (Ok (), h\<lparr>mallocs := bs\<rparr>)"
  shows "\<exists>t. linked_list_prepend (Some p) (Some d) h = (Ok (), t) \<and> mallocs t = bs \<and>
    list_at t p (l\<lparr>head := Some (brk h)\<rparr>) ((brk h, d) # xs) \<and> kept p {} h t \<and> freed t = freed h"
proof -
  have "brk h \<notin> fst ` set xs" by (rule list_at_fresh [OF assms(1)])
  then show ?thesis
    using assms
    by (auto simp: linked_list_prepend_def load_list_def new_node_def store_head_def
        list_at_def heap_ok_def kept_def seq_Ok)
qed

lemma get_last_loop:
  assumes "path (nodes h) (Some a) xs None"
  shows "loop (\<lambda>ptr. seq (load_node ptr) (\<lambda>n.
      case next_node n of None \<Rightarrow> ret (Inr ptr) | Some b \<Rightarrow> ret (Inl b))) a h
    = (Ok (fst (last xs)), h)"
  using assms
proof (induction xs arbitrary: a)
  case Nil
  then show ?case by simp
next
  case (Cons x xs)
  let ?body = "\<lambda>ptr. seq (load_node ptr) (\<lambda>n.
      case next_node n of None \<Rightarrow> ret (Inr ptr) | Some b \<Rightarrow> ret (Inl b))"
  from Cons.prems obtain r where a: "a = fst x"
    and n: "nodes h a = Some \<lparr>data = snd x, next_node = r\<rparr>" and r: "path (nodes h) r xs None"
    by auto
  show ?case
  proof (cases r)
    case None
    with n r have "xs = []" and "?body a h = (Ok (Inr a), h)"
      by (auto simp: load_node_def seq_def ret_def)
    then show ?thesis using a by (simp only: last.simps simp_thms if_True loop_exit_Inr)
  next
    case (Some b)
    with r have "loop ?body b h = (Ok (fst (last xs)), h)" and "xs \<noteq> []"
      using Cons.IH [of b] by auto
    moreover have "?body a h = (Ok (Inl b), h)"
      using n Some by (auto simp: load_node_def seq_def ret_def)
    ultimately show ?thesis
      by (simp only: last.simps if_False loop_Inl outcome.distinct not_False_eq_True)
  qed
qed

lemma get_last_at:
  assumes "list_at h p l xs" and "xs \<noteq> []"
  shows "linked_list_get_last (Some p) True h = (Ok (fst (last xs)), h)"
proof -
  from assms obtain a where a: "head l = Some a"
    by (cases xs) (auto simp: list_at_def)
  then have "path (nodes h) (Some a) xs None"
    using assms(1) by (simp add: list_at_def)
  from get_last_loop [OF this] show ?thesis
    using assms a by (simp add: linked_list_get_last_def seq_Ok)
qed

lemma append_at:
  assumes "list_at h p l xs" and "alloc h = (Ok (), h\<lparr>mallocs := bs\<rparr>)"
  shows "\<exists>t l'. linked_list_append (Some p) (Some d) h = (Ok (), t) \<and> mallocs t = bs \<and>
    list_at t p l' (xs @ [(brk h, d)]) \<and> free_function l' = free_function l \<and>
    compare_function l' = compare_function l \<and>
    kept p (fst ` set xs) h t \<and> freed t = freed h"
proof (cases "xs = []")
  case True
  obtain t where "linked_list_prepend (Some p) (Some d) h = (Ok (), t)" and "mallocs t = bs"
    and "list_at t p (l\<lparr>head := Some (brk h)\<rparr>) ((brk h, d) # xs)" and "kept p {} h t"
    and "freed t = freed h"
    using prepend_at [OF assms, of d] by blast
  then show ?thesis using True
    by (intro exI [of _ t] exI [of _ "l\<lparr>head := Some (brk h)\<rparr>"])
      (simp add: linked_list_append_def seq_Ok is_empty_at [OF assms(1)])
next
  case False
  let ?z = "last xs"
  define h' where "h' = h\<lparr>mallocs := bs,
    nodes := (nodes h)(brk h \<mapsto> \<lparr>data = d, next_node = None\<rparr>,
      fst ?z \<mapsto> \<lparr>data = snd ?z, next_node = Some (brk h)\<rparr>), brk := Suc (brk h)\<rparr>"
  from False obtain ys where xs: "xs = ys @ [?z]" by (metis append_butlast_last_id)
  have fresh: "brk h \<notin> fst ` set xs" by (rule list_at_fresh [OF assms(1)])
  have dist: "distinct (map fst (ys @ [?z]))"
    using assms(1) xs by (metis list_at_def path_distinct)
  have "path (nodes h) (head l) (ys @ [?z]) None"
    using assms(1) xs by (metis list_at_def)
  then have ys: "path (nodes h) (head l) ys (Some (fst ?z))"
    and z: "nodes h (fst ?z) = Some \<lparr>data = snd ?z, next_node = None\<rparr>"
    by (auto simp: path_append)
  have "fst ?z \<noteq> brk h" using fresh False by (metis image_eqI last_in_set)
  then have run: "linked_list_append (Some p) (Some d) h = (Ok (), h')"
    using assms False z
    by (simp add: linked_list_append_def get_last_at
        seq_Ok new_node_def store_next_def h'_def)
  have "fst ?z \<notin> fst ` set ys" and "brk h \<notin> fst ` set ys"
  proof -
    show "fst ?z \<notin> fst ` set ys" using dist by simp
    have "set ys \<subseteq> set xs" by (subst xs) auto
    then show "brk h \<notin> fst ` set ys" using fresh by blast
  qed
  with ys \<open>fst ?z \<noteq> brk h\<close> have "path (nodes h') (head l) ((ys @ [?z]) @ [(brk h, d)]) None"
    by (auto simp: path_append h'_def)
  moreover have "heap_ok h'"
    using assms(1) z by (auto simp: heap_ok_def h'_def list_at_def) 
  ultimately have "list_at h' p l (xs @ [(brk h, d)])"
    using assms(1) xs by (simp add: list_at_def h'_def)
  moreover have "kept p (fst ` set xs) h h'"
    using False by (auto simp: kept_def h'_def)
  ultimately show ?thesis using run by (auto simp: h'_def)
qed

lemma remove_first_at:
  assumes "list_at h p l (x # xs)"
  shows "\<exists>t q. linked_list_remove_first (Some p) h = (Ok (), t) \<and> mallocs t = mallocs h \<and>
    list_at t p (l\<lparr>head := q\<rparr>) xs \<and> nodes t = (nodes h)(fst x := None) \<and> brk t = brk h \<and>
    lists t = (lists h)(p \<mapsto> l\<lparr>head := q\<rparr>) \<and> freed t = freed h @ [(free_function l, snd x)]"
proof -
  from assms obtain q where n: "nodes h (fst x) = Some \<lparr>data = snd x, next_node = q\<rparr>"
    and q: "path (nodes h) q xs None"
    by (auto simp: list_at_def)
  define t where "t = h\<lparr>lists := (lists h)(p \<mapsto> l\<lparr>head := q\<rparr>),
    freed := freed h @ [(free_function l, snd x)], nodes := (nodes h)(fst x := None)\<rparr>"
  have l: "lists h p = Some l" using assms by (simp add: list_at_def)
  have "linked_list_remove_first (Some p) h = (Ok (), t)"
    using l n by (simp add: linked_list_remove_first_def get_first_at [OF assms]
        seq_Ok load_node_def store_head_def load_list_def call_free_def modify_def free_node_def
        t_def)
  moreover have "fst x \<notin> fst ` set xs"
    by (rule path_head_notin [OF q n])
  with q assms have "list_at t p (l\<lparr>head := q\<rparr>) xs"
    by (auto simp: list_at_def heap_ok_def t_def)
  ultimately show ?thesis by (auto simp: t_def)
qed

lemma remove_first_empty:
  "list_at h p l [] \<Longrightarrow>
    linked_list_remove_first (Some p) h = (Fail FAILURE_LINKED_LIST_EMPTY, h)"
  by (simp add: linked_list_remove_first_def seq_Fail get_first_empty)

lemma length_loop:
  assumes "path (nodes h) q xs None"
  shows "loop (\<lambda>(node, result).
      case node of
        None \<Rightarrow> ret (Inr result)
      | Some a \<Rightarrow> seq (load_node a) (\<lambda>n. ret (Inl (next_node n, result + 1)))) (q, r) h
    = (Ok (r + of_nat (length xs) :: u64), h)"
  using assms
proof (induction xs arbitrary: q r)
  case Nil
  then show ?case by (simp add: loop_exit_Inr ret_def)
next
  case (Cons x xs)
  then obtain q' where "q = Some (fst x)"
    and n: "nodes h (fst x) = Some \<lparr>data = snd x, next_node = q'\<rparr>" and "path (nodes h) q' xs None"
    by auto
  from Cons.IH [OF this(3), of "r + 1"] n \<open>q = Some (fst x)\<close> show ?case
    by (rule_tac loop_Inl [where y = "(q', r + 1)" and t = h])
      (simp_all add: load_node_def seq_def ret_def ac_simps)
qed

lemma length_at:
  "list_at h p l xs \<Longrightarrow>
    linked_list_length (Some p) True h = (Ok (of_nat (length xs)), h)"
  using length_loop [of h "head l" xs 0]
  by (simp add: linked_list_length_def seq_Ok load_list_at list_at_def load_list_def)

text \<open>Following the nodes from the head, \<open>linked_list_find\<close> stops at the first one whose data
  the compare function calls equal.\<close>

fun first_match :: "'a compare_function_t \<Rightarrow> 'a \<Rightarrow> (addr \<times> 'a) list \<Rightarrow> addr option" where
  "first_match cmp d [] = None"
| "first_match cmp d ((a, e) # xs) = (if cmp d e = Some 0 then Some a else first_match cmp d xs)"

lemma first_match_cases:
  "case first_match cmp d xs of
      None \<Rightarrow> \<forall>x \<in> set xs. cmp d (snd x) \<noteq> Some 0
    | Some a \<Rightarrow> \<exists>us e vs. xs = us @ (a, e) # vs \<and> cmp d e = Some 0 \<and>
        (\<forall>u \<in> set us. cmp d (snd u) \<noteq> Some 0)"
proof (induction xs)
  case Nil
  then show ?case by simp
next
  case (Cons x xs)
  obtain a e where x: "x = (a, e)" by (cases x)
  show ?case
  proof (cases "cmp d e = Some 0")
    case True
    then have "\<exists>us e' vs. (a, e) # xs = us @ (a, e') # vs \<and> cmp d e' = Some 0 \<and>
        (\<forall>u \<in> set us. cmp d (snd u) \<noteq> Some 0)"
      by (intro exI [of _ "[]"] exI [of _ e] exI [of _ xs]) simp
    with True show ?thesis by (simp add: x)
  next
    case False
    show ?thesis
    proof (cases "first_match cmp d xs")
      case None
      with Cons.IH False show ?thesis by (simp add: x)
    next
      case (Some b)
      with Cons.IH obtain us e' vs where "xs = us @ (b, e') # vs" "cmp d e' = Some 0"
        "\<forall>u \<in> set us. cmp d (snd u) \<noteq> Some 0"
        by auto
      then have "(a, e) # xs = ((a, e) # us) @ (b, e') # vs \<and> cmp d e' = Some 0 \<and>
          (\<forall>u \<in> set ((a, e) # us). cmp d (snd u) \<noteq> Some 0)"
        using False by simp
      then have "\<exists>us e' vs. (a, e) # xs = us @ (b, e') # vs \<and> cmp d e' = Some 0 \<and>
          (\<forall>u \<in> set us. cmp d (snd u) \<noteq> Some 0)"
        by blast
      moreover have "first_match cmp d ((a, e) # xs) = Some b" using False Some by simp
      ultimately show ?thesis by (simp only: x option.case)
    qed
  qed
qed

lemma find_loop:
  assumes "path (nodes h) q xs None" and "\<And>x. x \<in> set xs \<Longrightarrow> cmp d (snd x) \<noteq> None"
  shows "loop (\<lambda>ptr.
      case ptr of
        None \<Rightarrow> ret (Inr node)
      | Some a \<Rightarrow>
          seq (load_node a) (\<lambda>n.
          case cmp d (data n) of
            None \<Rightarrow> undef
          | Some c \<Rightarrow> if c = 0 then ret (Inr (Some a)) else ret (Inl (next_node n)))) q h
    = (Ok (case first_match cmp d xs of None \<Rightarrow> node | Some a \<Rightarrow> Some a), h)"
  using assms
proof (induction xs arbitrary: q)
  case Nil
  then show ?case by (simp add: loop_exit_Inr ret_def)
next
  case (Cons x xs)
  obtain a e where x: "x = (a, e)" by (cases x)
  from Cons.prems x obtain q' where q: "q = Some a"
    and n: "nodes h a = Some \<lparr>data = e, next_node = q'\<rparr>" and q': "path (nodes h) q' xs None"
    by auto
  from Cons.prems(2) [of x] x obtain c where c: "cmp d e = Some c" by auto
  show ?case
  proof (cases "c = 0")
    case True
    then show ?thesis using n c
      by (auto simp: q x load_node_def seq_def ret_def intro!: loop_exit_Inr)
  next
    case False
    from Cons.IH [OF q'] Cons.prems(2) n c False show ?thesis
      by (rule_tac loop_Inl [where y = q' and t = h])
        (simp_all add: q x load_node_def seq_def ret_def)
  qed
qed

lemma find_at:
  assumes "list_at h p l xs" and "compare_function l = Some cmp"
    and "\<And>x. x \<in> set xs \<Longrightarrow> cmp d (snd x) \<noteq> None"
  shows "linked_list_find (Some p) (Some d) (Some node) h =
    (Ok (case first_match cmp d xs of None \<Rightarrow> node | Some a \<Rightarrow> Some a), h)"
  using find_loop [of h "head l" xs cmp d node] assms
  by (simp add: linked_list_find_def seq_Ok load_list_def list_at_def)

text \<open>\<open>linked_list_destroy\<close> removes the elements from the front, each time calling the list's
  free function on the data, and then releases the list object.\<close>

lemma destroy_loop:
  assumes "list_at h p l xs"
  shows "\<exists>t l'. loop (destroy_body p) (xs = []) h = (Ok (), t) \<and> mallocs t = mallocs h \<and>
    brk t = brk h \<and> lists t = (lists h)(p \<mapsto> l') \<and>
    nodes t = (\<lambda>a. if a \<in> fst ` set xs then None else nodes h a) \<and>
    freed t = freed h @ map (\<lambda>x. (free_function l, snd x)) xs"
  using assms
proof (induction xs arbitrary: h l)
  case Nil
  then have "loop (destroy_body p) True h = (Ok (), h)"
    by (intro loop_exit_Inr) (simp add: destroy_body_def ret_def)
  moreover have "lists h = (lists h)(p \<mapsto> l)"
    using Nil by (auto simp: list_at_def)
  ultimately show ?case
    by (intro exI [of _ h] exI [of _ l]) (simp add: fun_eq_iff)
next
  case (Cons x xs)
  obtain u q where run: "linked_list_remove_first (Some p) h = (Ok (), u)"
    and at: "list_at u p (l\<lparr>head := q\<rparr>) xs"
    and u: "mallocs u = mallocs h" "nodes u = (nodes h)(fst x := None)" "brk u = brk h"
      "lists u = (lists h)(p \<mapsto> l\<lparr>head := q\<rparr>)" "freed u = freed h @ [(free_function l, snd x)]"
    using remove_first_at [OF Cons.prems] by blast
  obtain t l' where loop: "loop (destroy_body p) (xs = []) u = (Ok (), t)"
    and t: "mallocs t = mallocs u" "brk t = brk u" "lists t = (lists u)(p \<mapsto> l')"
      "nodes t = (\<lambda>a. if a \<in> fst ` set xs then None else nodes u a)"
      "freed t = freed u @ map (\<lambda>x. (free_function (l\<lparr>head := q\<rparr>), snd x)) xs"
    using Cons.IH [OF at] by blast
  have "destroy_body p False h = (Ok (Inl (xs = [])), u)"
    using run by (simp add: destroy_body_def seq_Ok is_empty_at [OF at] ret_def)
  from loop_Inl [where body = "destroy_body p", OF this loop]
  have "loop (destroy_body p) (x # xs = []) h = (Ok (), t)" by simp
  then show ?case
    using t u by (intro exI [of _ t] exI [of _ l']) (simp add: fun_eq_iff)
qed

lemma destroy_at:
  assumes "list_at h p l xs"
  shows "\<exists>t. linked_list_destroy (Some p) h = (Ok (), t) \<and>
    mallocs t = mallocs h \<and> brk t = brk h \<and> lists t = (lists h)(p := None) \<and>
    nodes t = (\<lambda>a. if a \<in> fst ` set xs then None else nodes h a) \<and>
    freed t = freed h @ map (\<lambda>x. (free_function l, snd x)) xs"
proof -
  obtain t l' where loop: "loop (destroy_body p) (xs = []) h = (Ok (), t)"
    and t: "mallocs t = mallocs h" "brk t = brk h" "lists t = (lists h)(p \<mapsto> l')"
      "nodes t = (\<lambda>a. if a \<in> fst ` set xs then None else nodes h a)"
      "freed t = freed h @ map (\<lambda>x. (free_function l, snd x)) xs"
    using destroy_loop [OF assms] by blast
  have "linked_list_destroy (Some p) h = free_list p t"
    using loop by (simp add: linked_list_destroy_def seq_Ok is_empty_at [OF assms])
  then show ?thesis using t by (simp add: free_list_def)
qed

section \<open>The interface on the heap operations\<close>

lemma refines_alloc:
  assumes "\<And>bs. alloc h = (Ok (), h\<lparr>mallocs := bs\<rparr>) \<Longrightarrow>
      \<exists>t. m h = (Ok (), t) \<and> mallocs t = bs \<and> R () v t"
    and "\<And>bs. alloc h = (Fail FAILURE_COULD_NOT_MALLOC, h\<lparr>mallocs := bs\<rparr>) \<Longrightarrow>
      m h = (Fail FAILURE_COULD_NOT_MALLOC, h\<lparr>mallocs := bs\<rparr>)"
    and "\<And>bs. R' (h\<lparr>mallocs := bs\<rparr>)"
  shows "refines R R' m (seq alloc (\<lambda>_. ret v)) h"
proof (cases rule: alloc_cases [of h])
  case (1 bs)
  from assms(1) [OF 1] 1 show ?thesis by (auto simp: refines_def seq_Ok ret_def)
next
  case (2 bs)
  from assms(2) [OF 2] 2 assms(3) show ?thesis by (auto simp: refines_def seq_Fail)
qed

lemma prepend_Fail:
  "alloc h = (Fail c, t) \<Longrightarrow> linked_list_prepend (Some p) (Some d) h = (Fail c, t)"
  by (simp add: linked_list_prepend_def seq_Fail)

lemma append_Fail:
  assumes "list_at h p l xs" and "alloc h = (Fail c, t)"
  shows "linked_list_append (Some p) (Some d) h = (Fail c, t)"
proof (cases "xs = []")
  case True
  then show ?thesis using assms
    by (simp add: linked_list_append_def seq_Ok is_empty_at [OF assms(1)] prepend_Fail)
next
  case False
  then show ?thesis using assms
    by (simp add: linked_list_append_def seq_Ok seq_Fail is_empty_at [OF assms(1)]
        get_last_at [OF assms(1)])
qed

interpretation heap_list: list_provider
  "holds :: ('a, 'z) heap_scheme \<Rightarrow> addr \<Rightarrow> 'a list \<Rightarrow> bool"
  "\<lambda>p d. linked_list_prepend (Some p) (Some d)"
  "\<lambda>p d. linked_list_append (Some p) (Some d)"
  "\<lambda>p. linked_list_remove_first (Some p)"
  "\<lambda>p. linked_list_length (Some p) True"
proof (unfold_locales, goal_cases)
  case (1 s p xs d)
  then obtain l ys where at: "list_at s p l ys" and xs: "xs = map snd ys"
    by (auto simp: holds_def)
  show ?case unfolding ll_prepend_def
  proof (rule refines_alloc)
    fix bs assume "alloc s = (Ok (), s\<lparr>mallocs := bs\<rparr>)"
    from prepend_at [OF at this, of d] xs
    show "\<exists>t. linked_list_prepend (Some p) (Some d) s = (Ok (), t) \<and> mallocs t = bs \<and>
        holds t p (d # xs)"
      by (fastforce simp: holds_def)
  qed (use 1 in \<open>auto intro: prepend_Fail\<close>)
next
  case (2 s p xs d)
  then obtain l ys where at: "list_at s p l ys" and xs: "xs = map snd ys"
    by (auto simp: holds_def)
  show ?case unfolding ll_append_def
  proof (rule refines_alloc)
    fix bs assume "alloc s = (Ok (), s\<lparr>mallocs := bs\<rparr>)"
    from append_at [OF at this, of d] xs
    show "\<exists>t. linked_list_append (Some p) (Some d) s = (Ok (), t) \<and> mallocs t = bs \<and>
        holds t p (xs @ [d])"
      by (fastforce simp: holds_def)
  qed (use 2 in \<open>auto intro: append_Fail [OF at]\<close>)
next
  case (3 s p xs)
  then obtain l ys where at: "list_at s p l ys" and xs: "xs = map snd ys"
    by (auto simp: holds_def)
  show ?case
  proof (cases ys)
    case Nil
    then show ?thesis using at xs 3
      by (simp add: refines_def remove_first_empty ll_remove_first_def fail_def)
  next
    case (Cons y ys')
    with at have "list_at s p l (y # ys')" by simp
    from remove_first_at [OF this] obtain t q where
      "linked_list_remove_first (Some p) s = (Ok (), t)" and "mallocs t = mallocs s"
      and "list_at t p (l\<lparr>head := q\<rparr>) ys'"
      by blast
    moreover from this(3) have "holds t p (map snd ys')"
      by (auto simp: holds_def)
    ultimately show ?thesis
      using Cons xs by (simp add: refines_def ll_remove_first_def ret_def)
  qed
next
  case (4 s p xs)
  then show ?case
    by (auto simp: holds_def refines_def ll_length_def ret_def length_at)
qed

section \<open>Properties\<close>

lemma get_first_cases:
  "list_at h p l xs \<Longrightarrow> linked_list_get_first (Some p) True h =
     (if xs = [] then Fail FAILURE_LINKED_LIST_EMPTY else Ok (fst (hd xs)), h)"
  by (cases xs) (simp_all add: get_first_empty get_first_at)

lemma get_last_cases:
  assumes "list_at h p l xs"
  shows "linked_list_get_last (Some p) True h =
     (if xs = [] then Fail FAILURE_LINKED_LIST_EMPTY else Ok (fst (last xs)), h)"
proof (cases "xs = []")
  case True
  with assms show ?thesis by (simp add: linked_list_get_last_def seq_Ok fail_def)
qed (simp add: get_last_at [OF assms])

lemma first_match_find:
  "first_match cmp d xs = map_option fst (find (\<lambda>x. cmp d (snd x) = Some 0) xs)"
  by (induction xs) auto

lemma find_cases:
  assumes "list_at h p l xs"
  shows "case compare_function l of
      None \<Rightarrow> linked_list_find (Some p) (Some d) (Some node) h =
        (Fail FAILURE_LINKED_LIST_NO_COMPARE_FUNCTION, h)
    | Some cmp \<Rightarrow> (\<forall>x \<in> set xs. cmp d (snd x) \<noteq> None) \<longrightarrow>
        linked_list_find (Some p) (Some d) (Some node) h =
          (Ok (case find (\<lambda>x. cmp d (snd x) = Some 0) xs of None \<Rightarrow> node | Some x \<Rightarrow> Some (fst x)), h)"
proof (cases "compare_function l")
  case None
  then show ?thesis using load_list_at [OF assms] by (simp add: linked_list_find_def seq_Ok fail_def)
next
  case (Some cmp)
  then show ?thesis
    using find_at [OF assms Some, of d node] by (auto simp: first_match_find split: option.split)
qed

lemma create_refines:
  assumes "heap_ok h" and "\<And>bs. R' (h\<lparr>mallocs := bs\<rparr>)"
  shows "refines (\<lambda>q ys t. lists t q = Some \<lparr>free_function = f, compare_function = cmp, head = None\<rparr> \<and>
        holds t q ys \<and> lists h q = None \<and> (\<forall>p' ys. holds h p' ys \<longrightarrow> holds t p' ys))
      R' (linked_list_create True (Some f) cmp) ll_create h"
proof (cases rule: alloc_cases [of h])
  case (1 bs)
  let ?l = "\<lparr>free_function = f, compare_function = cmp, head = None\<rparr>"
  let ?t = "h\<lparr>mallocs := bs, lists := (lists h)(brk h \<mapsto> ?l), brk := Suc (brk h)\<rparr>"
  have run: "linked_list_create True (Some f) cmp h = (Ok (brk h), ?t)"
    using 1 by (simp add: linked_list_create_def seq_Ok new_list_def)
  have ok: "heap_ok ?t" using assms(1) by (auto simp: heap_ok_def)
  then have "list_at ?t (brk h) ?l []" by (simp add: list_at_def)
  then have "holds ?t (brk h) []" by (force simp: holds_def)
  moreover have "holds ?t p ys" if "holds h p ys" for p ys
    using that assms(1) ok by (auto simp: holds_def list_at_def heap_ok_def intro!: exI)
  moreover have "lists h (brk h) = None" using assms(1) by (simp add: heap_ok_def)
  ultimately show ?thesis using 1 run by (simp add: refines_def ll_create_def seq_Ok ret_def)
next
  case (2 bs)
  then show ?thesis
    using assms(2) by (simp add: refines_def ll_create_def linked_list_create_def seq_Fail)
qed

text \<open>A heap with one list of two elements, for the witnesses.\<close>

definition two_element_list :: "'a \<Rightarrow> 'a \<Rightarrow> 'a compare_function_t option \<Rightarrow> 'a heap" where
  "two_element_list d e cmp =
     \<lparr>mallocs = [True, False],
      lists = Map.empty(0 \<mapsto> \<lparr>free_function = Free, compare_function = cmp, head = Some 1\<rparr>),
      nodes = Map.empty(1 \<mapsto> \<lparr>data = d, next_node = Some 2\<rparr>, 2 \<mapsto> \<lparr>data = e, next_node = None\<rparr>),
      brk = 3, freed = []\<rparr>"

lemma two_element_list_at:
  "list_at (two_element_list d e cmp) 0
     \<lparr>free_function = Free, compare_function = cmp, head = Some 1\<rparr> [(1, d), (2, e)]"
  by (simp add: list_at_def heap_ok_def two_element_list_def)

lemma two_element_list_holds: "holds (two_element_list d e cmp) 0 [d, e]"
  using two_element_list_at [of d e cmp] by (force simp: holds_def)

text \<open>C22. On a heap list with data xs every operation does what the functional list operation
  does on xs. A new list is empty, has the two functions it was given, and leaves the others as
  they were; prepend, append, remove_first and length make the same allocation requests, return
  the same code (the failed allocation and the empty list included) and leave a well-formed list
  with the functional result as its data; is_empty, get_first, get_last and find return what
  they say of xs and change nothing, find the first node that the compare function calls equal,
  or the pointer that was there; destroy calls the free function of the list once on each
  element, in order, and frees every node and the list, and nothing else. None of them touches
  memory that is not allocated.\<close>

theorem linked_list_refines:
  assumes "list_at h p l xs"
  shows "refines (\<lambda>q ys t. lists t q = Some \<lparr>free_function = f, compare_function = cmp, head = None\<rparr> \<and>
        holds t q ys \<and> lists h q = None \<and> (\<forall>p' ys. holds h p' ys \<longrightarrow> holds t p' ys))
      (\<lambda>t. holds t p (map snd xs)) (linked_list_create True (Some f) cmp) ll_create h \<and>
    refines (\<lambda>_ ys t. holds t p ys) (\<lambda>t. holds t p (map snd xs))
      (linked_list_prepend (Some p) (Some d)) (ll_prepend (map snd xs) d) h \<and>
    refines (\<lambda>_ ys t. holds t p ys) (\<lambda>t. holds t p (map snd xs))
      (linked_list_append (Some p) (Some d)) (ll_append (map snd xs) d) h \<and>
    refines (\<lambda>_ ys t. holds t p ys) (\<lambda>t. holds t p (map snd xs))
      (linked_list_remove_first (Some p)) (ll_remove_first (map snd xs)) h \<and>
    refines (\<lambda>n m t. n = m \<and> t = h) (\<lambda>t. False)
      (linked_list_length (Some p) True) (ll_length (map snd xs)) h \<and>
    linked_list_is_empty (Some p) True h = (Ok (xs = []), h) \<and>
    linked_list_get_first (Some p) True h =
      (if xs = [] then Fail FAILURE_LINKED_LIST_EMPTY else Ok (fst (hd xs)), h) \<and>
    linked_list_get_last (Some p) True h =
      (if xs = [] then Fail FAILURE_LINKED_LIST_EMPTY else Ok (fst (last xs)), h) \<and>
    (case compare_function l of
       None \<Rightarrow> linked_list_find (Some p) (Some d) (Some node) h =
         (Fail FAILURE_LINKED_LIST_NO_COMPARE_FUNCTION, h)
     | Some cmp \<Rightarrow> (\<forall>x \<in> set xs. cmp d (snd x) \<noteq> None) \<longrightarrow>
         linked_list_find (Some p) (Some d) (Some node) h =
           (Ok (case find (\<lambda>x. cmp d (snd x) = Some 0) xs of None \<Rightarrow> node | Some x \<Rightarrow> Some (fst x)), h)) \<and>
    (\<exists>t. linked_list_destroy (Some p) h = (Ok (), t) \<and>
       mallocs t = mallocs h \<and> lists t = (lists h)(p := None) \<and>
       nodes t = (\<lambda>a. if a \<in> fst ` set xs then None else nodes h a) \<and>
       freed t = freed h @ map (\<lambda>x. (free_function l, snd x)) xs)"
proof (intro conjI)
  have h: "holds h p (map snd xs)" using assms by (auto simp: holds_def)
  note heap = heap_list.prepend_refines [OF h] heap_list.append_refines [OF h]
    heap_list.remove_first_refines [OF h] heap_list.len_refines [OF h]
  show "refines (\<lambda>_ ys t. holds t p ys) (\<lambda>t. holds t p (map snd xs))
      (linked_list_prepend (Some p) (Some d)) (ll_prepend (map snd xs) d) h"
    "refines (\<lambda>_ ys t. holds t p ys) (\<lambda>t. holds t p (map snd xs))
      (linked_list_append (Some p) (Some d)) (ll_append (map snd xs) d) h"
    "refines (\<lambda>_ ys t. holds t p ys) (\<lambda>t. holds t p (map snd xs))
      (linked_list_remove_first (Some p)) (ll_remove_first (map snd xs)) h"
    "refines (\<lambda>n m t. n = m \<and> t = h) (\<lambda>t. False)
      (linked_list_length (Some p) True) (ll_length (map snd xs)) h"
    by (rule heap)+
  show "refines (\<lambda>q ys t. lists t q = Some \<lparr>free_function = f, compare_function = cmp, head = None\<rparr> \<and>
        holds t q ys \<and> lists h q = None \<and> (\<forall>p' ys. holds h p' ys \<longrightarrow> holds t p' ys))
      (\<lambda>t. holds t p (map snd xs)) (linked_list_create True (Some f) cmp) ll_create h"
    by (rule create_refines) (use assms h in \<open>auto simp: list_at_def\<close>)
qed (use assms in \<open>auto simp: get_first_cases get_last_cases find_cases dest: destroy_at
    split: option.split\<close>)

theorem linked_list_refines_witness:
  "refines (\<lambda>_ ys t. holds t 0 ys) (\<lambda>t. holds t 0 [7, 8])
      (linked_list_append (Some 0) (Some 9)) (ll_append [7, 8] 9)
      (two_element_list (7::nat) 8 None) \<and>
    linked_list_get_last (Some 0) True (two_element_list (7::nat) 8 None) =
      (Ok 2, two_element_list 7 8 None)"
  using linked_list_refines [OF two_element_list_at [of "7::nat" 8 None], of Free None 9 None] by simp

text \<open>Destroying a list calls its free function once on each element, in list order,
  releases every node and the list object, and leaves the rest of the heap alone.\<close>

theorem linked_list_destroy_frees_all:
  assumes "list_at h p l xs"
  shows "\<exists>t. linked_list_destroy (Some p) h = (Ok (), t) \<and>
    freed t = freed h @ map (\<lambda>x. (free_function l, snd x)) xs \<and>
    lists t = (lists h)(p := None) \<and>
    nodes t = (\<lambda>a. if a \<in> fst ` set xs then None else nodes h a)"
  using destroy_at [OF assms] by blast

theorem linked_list_destroy_frees_all_witness:
  "\<exists>t. linked_list_destroy (Some 0) (two_element_list (7::nat) 8 None) = (Ok (), t) \<and>
    freed t = [(Free, 7), (Free, 8)]"
  using linked_list_destroy_frees_all [OF two_element_list_at [of "7::nat" 8 None]]
  by (auto simp: two_element_list_def)

text \<open>linked_list_find returns the first node whose data the compare function calls
  equal to the given data; when there is none it returns SUCCESS and leaves the caller's node
  pointer as it was.\<close>

theorem linked_list_find_first:
  assumes "list_at h p l xs" and "compare_function l = Some cmp"
    and "\<forall>x \<in> set xs. cmp d (snd x) \<noteq> None"
  shows "\<exists>r. linked_list_find (Some p) (Some d) (Some node) h = (Ok r, h) \<and>
    ((\<exists>us a e vs. xs = us @ (a, e) # vs \<and> cmp d e = Some 0 \<and>
        (\<forall>u \<in> set us. cmp d (snd u) \<noteq> Some 0) \<and> r = Some a) \<or>
     (\<forall>x \<in> set xs. cmp d (snd x) \<noteq> Some 0) \<and> r = node)"
proof -
  have "case first_match cmp d xs of
      None \<Rightarrow> \<forall>x \<in> set xs. cmp d (snd x) \<noteq> Some 0
    | Some a \<Rightarrow> \<exists>us e vs. xs = us @ (a, e) # vs \<and> cmp d e = Some 0 \<and>
        (\<forall>u \<in> set us. cmp d (snd u) \<noteq> Some 0)"
    by (rule first_match_cases)
  with find_at [OF assms(1,2), of d node] assms(3) show ?thesis
    by (auto split: option.splits)
qed

theorem linked_list_find_first_witness:
  "\<exists>r. linked_list_find (Some 0) (Some 8) (Some None)
      (two_element_list (7::nat) 8 (Some (\<lambda>a b. Some (int a - int b)))) =
    (Ok r, two_element_list (7::nat) 8 (Some (\<lambda>a b. Some (int a - int b)))) \<and> r = Some 2"
  using linked_list_find_first [OF two_element_list_at [of "7::nat" 8 "Some (\<lambda>a b. Some (int a - int b))"],
      of "\<lambda>a b. Some (int a - int b)" 8 None]
  by (auto simp: Cons_eq_append_conv)

end
