(* ===== verification/Block.thy ===== *)
theory Block
  imports Transaction List_Refinement
begin

text \<open>
  src/block.c. A block's transaction list is the sequence of its data (see
  List_Refinement); the hash of a block is SHA-256 of the memory images of its fields and of its
  transactions, in the byte order of the host.
\<close>

section \<open>Data\<close>

definition GENESIS_BLOCK_PROOF_OF_WORK :: u64 where
  "GENESIS_BLOCK_PROOF_OF_WORK = 2017"

definition SHA256_DIGEST_LENGTH :: nat where
  "SHA256_DIGEST_LENGTH = 32"

declare SHA256_DIGEST_LENGTH_def [size_defs]

text \<open>The digest array of a \<open>sha_256_t\<close>.\<close>

type_synonym sha_256_t = "u8 list"

definition zero_hash :: sha_256_t where
  "zero_hash = replicate SHA256_DIGEST_LENGTH 0"

record block_t =
  created_at :: u64
  transaction_list :: "transaction_t list"
  proof_of_work :: u64
  previous_block_hash :: sha_256_t

definition wf_block :: "block_t \<Rightarrow> bool" where
  "wf_block b \<longleftrightarrow> length (previous_block_hash b) = SHA256_DIGEST_LENGTH \<and>
     (\<forall>t \<in> set (transaction_list b). wf_transaction t)"

section \<open>Operations\<close>

definition block_create ::
  "u64 \<Rightarrow> bool \<Rightarrow> transaction_t list option \<Rightarrow> u64 \<Rightarrow> sha_256_t \<Rightarrow> ('z env_scheme, block_t) prog"
  where "block_create now out txs proof previous_hash =
     (case txs of
        None \<Rightarrow> fail FAILURE_INVALID_INPUT
      | Some ts \<Rightarrow>
          if \<not> out then fail FAILURE_INVALID_INPUT
          else seq alloc (\<lambda>_. ret
            \<lparr>created_at = now, transaction_list = ts, proof_of_work = proof,
             previous_block_hash = previous_hash\<rparr>))"

definition block_create_genesis_block :: "u64 \<Rightarrow> bool \<Rightarrow> ('z env_scheme, block_t) prog" where
  "block_create_genesis_block now out =
     (if \<not> out then fail FAILURE_INVALID_INPUT
      else
        seq ll_create (\<lambda>txs.
        block_create now True (Some txs) GENESIS_BLOCK_PROOF_OF_WORK zero_hash))"

text \<open>What \<open>EVP_DigestUpdate\<close> is fed, in order.\<close>

definition block_bytes :: "byte_order \<Rightarrow> block_t \<Rightarrow> u8 list" where
  "block_bytes bo b = mem_of_word bo (created_at b) @ mem_of_word bo (proof_of_work b) @
     previous_block_hash b @ concat (map (transaction_bytes bo) (transaction_list b))"

definition block_hash ::
  "'k openssl \<Rightarrow> byte_order \<Rightarrow> block_t option \<Rightarrow> bool \<Rightarrow> ('s, sha_256_t) prog" where
  "block_hash ssl bo block out =
     (case block of
        None \<Rightarrow> fail FAILURE_INVALID_INPUT
      | Some b \<Rightarrow>
          if \<not> out then fail FAILURE_INVALID_INPUT
          else if \<not> md_ctx_new ssl then undef
          else ret (sha256 ssl (block_bytes bo b)))"

section \<open>The hashed bytes determine the block\<close>

lemma block_bytes_inject:
  assumes wf: "wf_block b" "wf_block c" and "block_bytes bo b = block_bytes bo c"
  shows "b = c"
proof -
  from assms have "created_at b = created_at c" and "proof_of_work b = proof_of_work c"
    and "previous_block_hash b = previous_block_hash c"
    and txs: "concat (map (transaction_bytes bo) (transaction_list b)) =
      concat (map (transaction_bytes bo) (transaction_list c))"
    by (auto simp: block_bytes_def wf_block_def mem_of_word_inject dest!: append_eq_lengthD)
  moreover have "transaction_list b = transaction_list c"
    by (rule tx_memory.concat_inject [OF _ _ txs]) (use wf in \<open>auto simp: wf_block_def\<close>)
  ultimately show ?thesis by simp
qed

lemma block_hash_eq [simp]:
  "md_ctx_new ssl \<Longrightarrow> block_hash ssl bo (Some b) True = ret (sha256 ssl (block_bytes bo b))"
  by (simp add: block_hash_def)

lemma length_block_bytes:
  assumes "wf_block b"
  shows "length (block_bytes bo b) = 48 + 8728 * length (transaction_list b)"
  using assms tx_memory.concat_length [of "transaction_list b" bo]
  by (simp add: block_bytes_def wf_block_def size_defs)

section \<open>Properties\<close>

text \<open>Two well-formed blocks feed the same bytes to SHA-256 only if they are the same block:
  the hash input covers the creation time, the proof of work, the previous hash and every byte
  of every transaction, and no two lists of transactions run together. Its length is 48 bytes
  and 8728 bytes for each transaction.\<close>

theorem block_hash_input_injective:
  assumes "wf_block b" and "wf_block c"
  shows "(block_bytes bo b = block_bytes bo c \<longleftrightarrow> b = c) \<and>
    length (block_bytes bo b) = 48 + 8728 * length (transaction_list b)"
  using block_bytes_inject [OF assms] length_block_bytes [OF assms(1)] by blast

definition sample_block :: "u64 \<Rightarrow> block_t" where
  "sample_block p = \<lparr>created_at = 1, transaction_list = [], proof_of_work = p,
     previous_block_hash = zero_hash\<rparr>"

lemma wf_sample_block: "wf_block (sample_block p)"
  by (simp add: wf_block_def sample_block_def zero_hash_def)

theorem block_hash_input_injective_witness:
  "block_bytes Little_Endian (sample_block 3) \<noteq> block_bytes Little_Endian (sample_block 4)"
  using block_hash_input_injective [OF wf_sample_block wf_sample_block, of Little_Endian 3 4]
  by (simp add: sample_block_def)

text \<open>The hash input of a block is the same on hosts of both byte orders only if the block's
  own numbers read the same from both ends: it is not for a genesis block, so two such hosts
  compute different hashes for the same chain although the wire format is the same.\<close>

theorem block_hash_input_host_dependent:
  "(block_bytes Little_Endian b = block_bytes Big_Endian b \<longrightarrow>
      rev (be_bytes (proof_of_work b)) = be_bytes (proof_of_work b)) \<and>
   (proof_of_work b = GENESIS_BLOCK_PROOF_OF_WORK \<longrightarrow>
      block_bytes Little_Endian b \<noteq> block_bytes Big_Endian b)"
proof -
  have *: "rev (be_bytes (proof_of_work b)) = be_bytes (proof_of_work b)"
    if "block_bytes Little_Endian b = block_bytes Big_Endian b"
    using that by (auto simp: block_bytes_def mem_of_word_def be_bytes_def
        dest!: append_eq_lengthD)
  moreover have "rev (be_bytes GENESIS_BLOCK_PROOF_OF_WORK) \<noteq> be_bytes GENESIS_BLOCK_PROOF_OF_WORK"
    by (simp add: be_bytes_u64 GENESIS_BLOCK_PROOF_OF_WORK_def)
  ultimately show ?thesis by auto
qed

theorem block_hash_input_host_dependent_witness:
  "block_bytes Little_Endian (sample_block GENESIS_BLOCK_PROOF_OF_WORK) \<noteq>
   block_bytes Big_Endian (sample_block GENESIS_BLOCK_PROOF_OF_WORK)"
  using block_hash_input_host_dependent [of "sample_block GENESIS_BLOCK_PROOF_OF_WORK"]
  by (simp add: sample_block_def)

end

