(* ===== verification/Blockchain.thy ===== *)
theory Blockchain
  imports Block
begin

text \<open>
  The part of src/blockchain.c that creates, extends and verifies blockchains. The
  specification of a valid blockchain, \<open>valid_chain\<close>, is the list of conditions in the comment
  of \<open>blockchain_verify\<close> in include/blockchain.h.
\<close>

section \<open>Data\<close>

record blockchain_t =
  block_list :: "block_t list"
  num_leading_zero_bytes_required_in_block_hash :: u64

record synchronized_blockchain_t =
  blockchain :: blockchain_t
  version :: u64

definition wf_blockchain :: "blockchain_t \<Rightarrow> bool" where
  "wf_blockchain c \<longleftrightarrow> (\<forall>b \<in> set (block_list c). wf_block b)"

section \<open>Operations\<close>

definition blockchain_create :: "bool \<Rightarrow> u64 \<Rightarrow> ('z env_scheme, blockchain_t) prog" where
  "blockchain_create out n =
     (if \<not> out then fail FAILURE_INVALID_INPUT
      else
        seq alloc (\<lambda>_.
        seq ll_create (\<lambda>blocks.
        ret \<lparr>block_list = blocks, num_leading_zero_bytes_required_in_block_hash = n\<rparr>)))"

text \<open>The result of malloc is not checked here.\<close>

definition synchronized_blockchain_create ::
  "bool \<Rightarrow> blockchain_t option \<Rightarrow> ('z env_scheme, synchronized_blockchain_t) prog" where
  "synchronized_blockchain_create out initial_blockchain =
     (case initial_blockchain of
        None \<Rightarrow> fail FAILURE_INVALID_INPUT
      | Some c \<Rightarrow>
          if \<not> out then fail FAILURE_INVALID_INPUT
          else seq malloc (\<lambda>ok. if \<not> ok then undef else ret \<lparr>blockchain = c, version = 0\<rparr>))"

definition blockchain_add_block ::
  "blockchain_t option \<Rightarrow> block_t option \<Rightarrow> ('z env_scheme, blockchain_t) prog" where
  "blockchain_add_block chain block =
     (case (chain, block) of
        (Some c, Some b) \<Rightarrow>
          seq (ll_append (block_list c) b) (\<lambda>blocks. ret (c\<lparr>block_list := blocks\<rparr>))
      | _ \<Rightarrow> fail FAILURE_INVALID_INPUT)"

text \<open>The loop of \<open>blockchain_is_valid_block_hash\<close> reads the digest byte by byte; a difficulty
  above its size makes it read on.\<close>

function is_valid_block_hash_loop :: "nat \<Rightarrow> sha_256_t \<Rightarrow> nat \<Rightarrow> ('s, bool) prog" where
  "is_valid_block_hash_loop n digest idx =
     (if idx < n then
        if length digest \<le> idx then undef
        else if digest ! idx \<noteq> 0 then ret False
        else is_valid_block_hash_loop n digest (Suc idx)
      else ret True)"
  by pat_completeness auto
termination
  by (relation "measure (\<lambda>(n, digest, idx). n - idx)") auto

declare is_valid_block_hash_loop.simps [simp del]

definition blockchain_is_valid_block_hash ::
  "blockchain_t option \<Rightarrow> sha_256_t \<Rightarrow> bool \<Rightarrow> ('s, bool) prog" where
  "blockchain_is_valid_block_hash chain hash out =
     (case chain of
        None \<Rightarrow> fail FAILURE_INVALID_INPUT
      | Some c \<Rightarrow>
          if \<not> out then fail FAILURE_INVALID_INPUT
          else is_valid_block_hash_loop
            (unat (num_leading_zero_bytes_required_in_block_hash c)) hash 0)"

section \<open>Verification\<close>

fun verify_signatures :: "'k openssl \<Rightarrow> byte_order \<Rightarrow> transaction_t list \<Rightarrow> ('s, bool) prog" where
  "verify_signatures ssl bo [] = ret True"
| "verify_signatures ssl bo (t # ts) =
     seq (transaction_verify_signature ssl bo True (Some t)) (\<lambda>is_valid_signature.
     if \<not> is_valid_signature then ret False else verify_signatures ssl bo ts)"

text \<open>
  The loop of \<open>blockchain_verify\<close> over the blocks after the genesis block, with the hash of the
  block before. The result is what the function writes to \<open>is_valid_blockchain\<close> and, where it
  writes it, the block it stores in \<open>first_invalid_block\<close>: nothing for a block without
  transactions.
\<close>

fun verify_blocks ::
  "'k openssl \<Rightarrow> byte_order \<Rightarrow> bool \<Rightarrow> u64 \<Rightarrow> sha_256_t \<Rightarrow> block_t list \<Rightarrow>
    ('s, bool \<times> block_t option) prog" where
  "verify_blocks ssl bo want n previous_hash [] = ret (True, None)"
| "verify_blocks ssl bo want n previous_hash (b # bs) =
     (let invalid = ret (False, if want then Some b else None) in
      seq (block_hash ssl bo (Some b) True) (\<lambda>current_hash.
      seq (memcmp current_hash zero_hash (unat n)) (\<lambda>c.
      if c \<noteq> 0 then invalid
      else
        seq (memcmp (previous_block_hash b) previous_hash SHA256_DIGEST_LENGTH) (\<lambda>c.
        if c \<noteq> 0 then invalid
        else (case transaction_list b of
            [] \<Rightarrow> ret (False, None)
          | minting # ts \<Rightarrow>
              if AMOUNT_GENERATED_DURING_MINTING \<noteq> amount minting then invalid
              else
                seq (memcmp (sender_public_key minting) (recipient_public_key minting)
                  MAX_SSH_KEY_LENGTH) (\<lambda>c.
                if c \<noteq> 0 then invalid
                else
                  seq (verify_signatures ssl bo (minting # ts)) (\<lambda>ok.
                  if \<not> ok then invalid
                  else verify_blocks ssl bo want n current_hash bs)))))))"

definition blockchain_verify ::
  "'k openssl \<Rightarrow> byte_order \<Rightarrow> blockchain_t option \<Rightarrow> bool \<Rightarrow> bool \<Rightarrow>
    ('s, bool \<times> block_t option) prog" where
  "blockchain_verify ssl bo chain out want =
     (case chain of
        None \<Rightarrow> fail FAILURE_INVALID_INPUT
      | Some c \<Rightarrow>
          if \<not> out then fail FAILURE_INVALID_INPUT
          else (case block_list c of
              [] \<Rightarrow> ret (True, None)
            | genesis # bs \<Rightarrow>
                let invalid = ret (False, if want then Some genesis else None) in
                if transaction_list genesis \<noteq> [] \<or>
                   proof_of_work genesis \<noteq> GENESIS_BLOCK_PROOF_OF_WORK then invalid
                else
                  seq (memcmp (previous_block_hash genesis) zero_hash SHA256_DIGEST_LENGTH) (\<lambda>c'.
                  if c' \<noteq> 0 then invalid
                  else
                    seq (block_hash ssl bo (Some genesis) True) (\<lambda>previous_hash.
                    verify_blocks ssl bo want
                      (num_leading_zero_bytes_required_in_block_hash c) previous_hash bs))))"

section \<open>Valid blockchains\<close>

definition genesis_ok :: "block_t \<Rightarrow> bool" where
  "genesis_ok g \<longleftrightarrow> transaction_list g = [] \<and> proof_of_work g = GENESIS_BLOCK_PROOF_OF_WORK \<and>
     previous_block_hash g = zero_hash"

definition minting_ok :: "transaction_t list \<Rightarrow> bool" where
  "minting_ok ts \<longleftrightarrow> ts \<noteq> [] \<and> amount (hd ts) = AMOUNT_GENERATED_DURING_MINTING \<and>
     sender_public_key (hd ts) = recipient_public_key (hd ts)"

definition hash_of :: "'k openssl \<Rightarrow> byte_order \<Rightarrow> block_t \<Rightarrow> sha_256_t" where
  "hash_of ssl bo b = sha256 ssl (block_bytes bo b)"

text \<open>What \<open>blockchain_verify\<close> asks of a block \<open>b\<close> that follows the block \<open>a\<close>.\<close>

definition block_ok :: "'k openssl \<Rightarrow> byte_order \<Rightarrow> u64 \<Rightarrow> block_t \<Rightarrow> block_t \<Rightarrow> bool" where
  "block_ok ssl bo n a b \<longleftrightarrow>
     take (unat n) (hash_of ssl bo b) = replicate (unat n) 0 \<and>
     previous_block_hash b = hash_of ssl bo a \<and>
     minting_ok (transaction_list b) \<and>
     (\<forall>t \<in> set (transaction_list b). signature_outcome ssl bo t = Ok True)"

definition valid_chain :: "'k openssl \<Rightarrow> byte_order \<Rightarrow> u64 \<Rightarrow> block_t list \<Rightarrow> bool" where
  "valid_chain ssl bo n bs \<longleftrightarrow>
     (bs \<noteq> [] \<longrightarrow> genesis_ok (hd bs)) \<and> successively (block_ok ssl bo n) bs"

lemma valid_chain_Nil [simp]: "valid_chain ssl bo n []"
  by (simp add: valid_chain_def)

lemma valid_chain_append1:
  assumes "bs \<noteq> []"
  shows "valid_chain ssl bo n (bs @ [b]) \<longleftrightarrow>
    valid_chain ssl bo n bs \<and> block_ok ssl bo n (last bs) b"
  using assms by (auto simp: valid_chain_def successively_append_iff)

lemma valid_chain_prefix: "valid_chain ssl bo n (bs @ cs) \<Longrightarrow> valid_chain ssl bo n bs"
  by (auto simp: valid_chain_def successively_append_iff)

section \<open>blockchain_verify decides validity\<close>

text \<open>The documented behaviour of SHA-256 and the allocation of the digest context.\<close>

definition hashing_ok :: "'k openssl \<Rightarrow> bool" where
  "hashing_ok ssl \<longleftrightarrow> md_ctx_new ssl \<and> (\<forall>m. length (sha256 ssl m) = SHA256_DIGEST_LENGTH)"

text \<open>No transaction states a signature longer than its array.\<close>

definition signatures_fit :: "block_t list \<Rightarrow> bool" where
  "signatures_fit bs \<longleftrightarrow> (\<forall>b \<in> set bs. \<forall>t \<in> set (transaction_list b).
     unat (sig_length (sender_signature t)) \<le> MAX_SSH_SIGNATURE_LENGTH)"

lemma length_hash_of: "hashing_ok ssl \<Longrightarrow> length (hash_of ssl bo b) = SHA256_DIGEST_LENGTH"
  by (simp add: hashing_ok_def hash_of_def)

lemma wp_verify_signature_outcome [simp]:
  "wp (transaction_verify_signature ssl bo True (Some t)) Q E s =
     (case signature_outcome ssl bo t of
        Ok v \<Rightarrow> Q v s | Fail c \<Rightarrow> E c s | Undefined \<Rightarrow> False | Diverges \<Rightarrow> False)"
  by (simp add: wp_def verify_signature_outcome)

lemma wp_verify_signatures:
  assumes "\<forall>t \<in> set ts. unat (sig_length (sender_signature t)) \<le> MAX_SSH_SIGNATURE_LENGTH"
  shows "wp (verify_signatures ssl bo ts)
    (\<lambda>v t. t = s \<and> v = (\<forall>t \<in> set ts. signature_outcome ssl bo t = Ok True))
    (\<lambda>c t. t = s \<and> c = FAILURE_OPENSSL_FUNCTION \<and>
      \<not> (\<forall>t \<in> set ts. signature_outcome ssl bo t = Ok True)) s"
  using assms
proof (induction ts)
  case Nil
  then show ?case by simp
next
  case (Cons t ts)
  then show ?case
    using signature_outcome_defined [of t ssl bo]
    by (cases "signature_outcome ssl bo t")
      (auto dest: signature_outcome_Fail elim: wp_mono)
qed

text \<open>The one invalid block that is not reported: one that is not the first, whose hash and previous
  hash are right, and that has no transactions.\<close>

definition unreported :: "'k openssl \<Rightarrow> byte_order \<Rightarrow> u64 \<Rightarrow> block_t list \<Rightarrow> block_t \<Rightarrow> bool" where
  "unreported ssl bo n us b \<longleftrightarrow> us \<noteq> [] \<and> take (unat n) (hash_of ssl bo b) = replicate (unat n) 0 \<and>
     previous_block_hash b = hash_of ssl bo (last us) \<and> transaction_list b = []"

lemma unreported_Cons [simp]: "unreported ssl bo n (a # b # us) = unreported ssl bo n (b # us)"
  by (simp add: unreported_def fun_eq_iff)

text \<open>Verification of the blocks \<open>bs\<close> stops at the first that is not valid after those before it, and
  reports it, if it is asked to and the block is not such a one.\<close>

definition stops_at ::
  "(block_t list \<Rightarrow> bool) \<Rightarrow> (block_t list \<Rightarrow> block_t \<Rightarrow> bool) \<Rightarrow> bool \<Rightarrow> block_t list \<Rightarrow> block_t option \<Rightarrow> bool" where
  "stops_at valid silent want bs first \<longleftrightarrow>
     (\<exists>us b vs. bs = us @ b # vs \<and> valid us \<and> \<not> valid (us @ [b]) \<and>
        first = (if want \<and> \<not> silent us b then Some b else None))"

lemma stops_at_Cons:
  assumes "stops_at (\<lambda>us. P (b # us)) (\<lambda>us. S (b # us)) want bs first"
  shows "stops_at P S want (b # bs) first"
proof -
  from assms obtain us c vs where "bs = us @ c # vs" "P (b # us)" "\<not> P (b # us @ [c])"
    and "first = (if want \<and> \<not> S (b # us) c then Some c else None)"
    by (auto simp: stops_at_def)
  then show ?thesis
    unfolding stops_at_def
    by (intro exI [of _ "b # us"] exI [of _ c] exI [of _ vs]) auto
qed

lemma stops_at_step:
  assumes "block_ok ssl bo n a b"
    and "stops_at (\<lambda>us. successively (block_ok ssl bo n) (b # us)) (\<lambda>us. unreported ssl bo n (b # us)) want bs first"
  shows "stops_at (\<lambda>us. successively (block_ok ssl bo n) (a # us)) (\<lambda>us. unreported ssl bo n (a # us)) want (b # bs) first"
  by (rule stops_at_Cons) (use assms in simp)

lemma stops_at_here:
  "P [] \<Longrightarrow> \<not> P [b] \<Longrightarrow> \<not> S [] b \<Longrightarrow> stops_at P S want (b # bs) (if want then Some b else None)"
  unfolding stops_at_def by (rule exI [of _ "[]"]) auto

lemma stops_at_silent:
  "P [] \<Longrightarrow> \<not> P [b] \<Longrightarrow> S [] b \<Longrightarrow> stops_at P S want (b # bs) None"
  unfolding stops_at_def by (rule exI [of _ "[]"]) auto

lemma wp_verify_blocks:
  assumes "hashing_ok ssl" and "unat n \<le> SHA256_DIGEST_LENGTH"
    and "\<forall>b \<in> set bs. wf_block b" and "signatures_fit bs"
  shows "wp (verify_blocks ssl bo want n (hash_of ssl bo a) bs)
    (\<lambda>(v, first) t. t = s \<and> v = successively (block_ok ssl bo n) (a # bs) \<and>
       (if v then first = None
        else stops_at (\<lambda>us. successively (block_ok ssl bo n) (a # us)) (\<lambda>us. unreported ssl bo n (a # us)) want bs first))
    (\<lambda>c t. t = s \<and> c = FAILURE_OPENSSL_FUNCTION \<and>
       \<not> successively (block_ok ssl bo n) (a # bs)) s"
  using assms(3,4)
proof (induction bs arbitrary: a)
  case Nil
  then show ?case by simp
next
  case (Cons b bs)
  let ?P = "\<lambda>us. successively (block_ok ssl bo n) (a # us)"
  let ?S = "\<lambda>us. unreported ssl bo n (a # us)"
  let ?ok = "block_ok ssl bo n a b"
  have wf: "wf_block b" and wf': "\<forall>t \<in> set (transaction_list b). wf_transaction t"
    and fit: "\<forall>t \<in> set (transaction_list b).
      unat (sig_length (sender_signature t)) \<le> MAX_SSH_SIGNATURE_LENGTH"
    and IH: "wp (verify_blocks ssl bo want n (hash_of ssl bo b) bs)
      (\<lambda>(v, first) t. t = s \<and> v = successively (block_ok ssl bo n) (b # bs) \<and>
         (if v then first = None
          else stops_at (\<lambda>us. successively (block_ok ssl bo n) (b # us)) (\<lambda>us. unreported ssl bo n (b # us)) want bs first))
      (\<lambda>c t. t = s \<and> c = FAILURE_OPENSSL_FUNCTION \<and>
         \<not> successively (block_ok ssl bo n) (b # bs)) s"
    using Cons by (auto simp: signatures_fit_def wf_block_def)
  have pow: "compare_bytes (take (unat n) (hash_of ssl bo b)) (take (unat n) zero_hash) = 0 \<longleftrightarrow>
      take (unat n) (hash_of ssl bo b) = replicate (unat n) 0"
    using assms(2) length_hash_of [OF assms(1)]
    by (subst compare_take_eq_0_iff) (simp_all add: zero_hash_def min_def)
  have prev: "compare_bytes (previous_block_hash b) (hash_of ssl bo a) = 0 \<longleftrightarrow>
      previous_block_hash b = hash_of ssl bo a"
    using wf length_hash_of [OF assms(1)] by (simp add: compare_bytes_eq_0_iff wf_block_def)
  have lens: "unat n \<le> length (hash_of ssl bo b)" "unat n \<le> length zero_hash"
    "length (previous_block_hash b) = SHA256_DIGEST_LENGTH"
    "length (hash_of ssl bo a) = SHA256_DIGEST_LENGTH"
    using assms(2) wf length_hash_of [OF assms(1)] by (simp_all add: wf_block_def zero_hash_def)
  have bad: "\<not> ?ok \<Longrightarrow> \<not> ?S [] b \<Longrightarrow> stops_at ?P ?S want (b # bs) (if want then Some b else None)"
    by (rule stops_at_here) simp_all
  show ?case
  proof (cases "transaction_list b")
    case Nil
    then have "\<not> ?ok" by (simp add: block_ok_def minting_ok_def)
    moreover from this have "stops_at ?P ?S want (b # bs) None" if "?S [] b"
      using that by (intro stops_at_silent) simp_all
    moreover have "?S [] b \<longleftrightarrow> take (unat n) (hash_of ssl bo b) = replicate (unat n) 0 \<and>
        previous_block_hash b = hash_of ssl bo a"
      using Nil by (simp add: unreported_def)
    ultimately show ?thesis
      using lens bad Nil assms(1)
      by (auto simp: Let_def hash_of_def [symmetric] hashing_ok_def pow prev)
  next
    case (Cons m ts)
    have mint: "compare_bytes (sender_public_key m) (recipient_public_key m) = 0 \<longleftrightarrow>
        sender_public_key m = recipient_public_key m"
      and mlen: "length (sender_public_key m) = MAX_SSH_KEY_LENGTH"
        "length (recipient_public_key m) = MAX_SSH_KEY_LENGTH"
      using wf' Cons by (auto simp: compare_bytes_eq_0_iff wf_transaction_def wf_key_def)
    have ok: "?ok \<longleftrightarrow> take (unat n) (hash_of ssl bo b) = replicate (unat n) 0 \<and>
        previous_block_hash b = hash_of ssl bo a \<and>
        amount m = AMOUNT_GENERATED_DURING_MINTING \<and>
        sender_public_key m = recipient_public_key m \<and>
        (\<forall>t \<in> set (m # ts). signature_outcome ssl bo t = Ok True)"
      by (simp add: block_ok_def minting_ok_def Cons)
    have loud: "\<not> ?S [] b" by (simp add: unreported_def Cons)
    have sigs: "wp (verify_signatures ssl bo (m # ts))
      (\<lambda>v t. t = s \<and> v = (\<forall>t \<in> set (m # ts). signature_outcome ssl bo t = Ok True))
      (\<lambda>c t. t = s \<and> c = FAILURE_OPENSSL_FUNCTION \<and>
        \<not> (\<forall>t \<in> set (m # ts). signature_outcome ssl bo t = Ok True)) s"
      by (rule wp_verify_signatures) (use fit Cons in simp)
    have rest: "wp (verify_blocks ssl bo want n (hash_of ssl bo b) bs)
      (\<lambda>(v, first) t. t = s \<and> v = ?P (b # bs) \<and>
         (if v then first = None else stops_at ?P ?S want (b # bs) first))
      (\<lambda>c t. t = s \<and> c = FAILURE_OPENSSL_FUNCTION \<and> \<not> ?P (b # bs)) s" if "?ok"
      by (rule wp_mono [OF IH])
        (use that in \<open>auto split: if_splits intro: stops_at_step\<close>)
    have step: "wp (verify_signatures ssl bo (m # ts))
      (\<lambda>v. wp (if \<not> v then ret (False, if want then Some b else None)
          else verify_blocks ssl bo want n (hash_of ssl bo b) bs)
         (\<lambda>(v, first) t. t = s \<and> v = ?P (b # bs) \<and>
           (if v then first = None else stops_at ?P ?S want (b # bs) first))
         (\<lambda>c t. t = s \<and> c = FAILURE_OPENSSL_FUNCTION \<and> \<not> ?P (b # bs)))
      (\<lambda>c t. t = s \<and> c = FAILURE_OPENSSL_FUNCTION \<and> \<not> ?P (b # bs)) s"
      if "take (unat n) (hash_of ssl bo b) = replicate (unat n) 0"
        "previous_block_hash b = hash_of ssl bo a" "amount m = AMOUNT_GENERATED_DURING_MINTING"
        "sender_public_key m = recipient_public_key m"
    proof (rule wp_mono [OF sigs], goal_cases)
      case (1 v t)
      then show ?case using rest bad ok loud that by auto
    next
      case (2 c t)
      then show ?case using ok by auto
    qed
    show ?thesis
      using lens mlen step bad loud assms(1)
      by (auto simp: Let_def Cons hash_of_def [symmetric] hashing_ok_def pow prev mint ok)
  qed
qed

lemma wp_blockchain_verify:
  assumes "hashing_ok ssl" and "wf_blockchain c" and "signatures_fit (block_list c)"
    and n: "n = num_leading_zero_bytes_required_in_block_hash c"
    and "unat n \<le> SHA256_DIGEST_LENGTH"
  shows "wp (blockchain_verify ssl bo (Some c) True want)
    (\<lambda>(v, first) t. t = s \<and> v = valid_chain ssl bo n (block_list c) \<and>
       (if v then first = None
        else stops_at (valid_chain ssl bo n) (unreported ssl bo n) want (block_list c) first))
    (\<lambda>e t. t = s \<and> e = FAILURE_OPENSSL_FUNCTION \<and> \<not> valid_chain ssl bo n (block_list c)) s"
proof (cases "block_list c")
  case Nil
  then show ?thesis by (simp add: blockchain_verify_def)
next
  case (Cons g bs)
  have wf: "wf_block g" "\<forall>b \<in> set bs. wf_block b" and fit: "signatures_fit bs"
    using assms(2,3) Cons by (auto simp: wf_blockchain_def signatures_fit_def)
  have valid: "valid_chain ssl bo n (g # us) \<longleftrightarrow>
      genesis_ok g \<and> successively (block_ok ssl bo n) (g # us)" for us
    by (simp add: valid_chain_def)
  have z: "length (previous_block_hash g) = SHA256_DIGEST_LENGTH"
    "length zero_hash = SHA256_DIGEST_LENGTH"
    using wf by (simp_all add: wf_block_def zero_hash_def)
  show ?thesis
  proof (cases "genesis_ok g")
    case False
    then have "stops_at (valid_chain ssl bo n) (unreported ssl bo n) want (g # bs) (if want then Some g else None)"
      by (intro stops_at_here) (simp_all add: valid unreported_def)
    with False z show ?thesis
      by (auto simp: blockchain_verify_def Cons valid Let_def genesis_ok_def
          compare_bytes_eq_0_iff)
  next
    case True
    have "stops_at (valid_chain ssl bo n) (unreported ssl bo n) want (g # bs) first"
      if "stops_at (\<lambda>us. successively (block_ok ssl bo n) (g # us)) (\<lambda>us. unreported ssl bo n (g # us)) want bs first"
      for first
      by (rule stops_at_Cons) (use that True in \<open>simp add: valid\<close>)
    then have "wp (verify_blocks ssl bo want n (hash_of ssl bo g) bs)
      (\<lambda>(v, first) t. t = s \<and> v = valid_chain ssl bo n (g # bs) \<and>
         (if v then first = None else stops_at (valid_chain ssl bo n) (unreported ssl bo n) want (g # bs) first))
      (\<lambda>e t. t = s \<and> e = FAILURE_OPENSSL_FUNCTION \<and> \<not> valid_chain ssl bo n (g # bs)) s"
      using True
      by (intro wp_mono [OF wp_verify_blocks [OF assms(1,5) wf(2) fit, of bo want g s]])
        (auto simp: valid split: if_splits)
    with True z show ?thesis
      unfolding Cons using assms(1) n
      by (auto simp: blockchain_verify_def Cons Let_def genesis_ok_def hashing_ok_def
          compare_bytes_eq_0_iff hash_of_def)
  qed
qed

section \<open>The two proof-of-work checks agree\<close>

lemma is_valid_block_hash_loop_eq:
  assumes "n \<le> length digest" and "idx \<le> n"
  shows "is_valid_block_hash_loop n digest idx =
    ret (take (n - idx) (drop idx digest) = replicate (n - idx) 0)"
  using assms
proof (induction n digest idx rule: is_valid_block_hash_loop.induct)
  case (1 n digest idx)
  show ?case
  proof (cases "idx < n")
    case True
    then have "n - idx = Suc (n - Suc idx)" and "drop idx digest = digest ! idx # drop (Suc idx) digest"
      using 1 by (simp_all add: Cons_nth_drop_Suc)
    with True 1 show ?thesis
      by (subst is_valid_block_hash_loop.simps) auto
  next
    case False
    then show ?thesis by (subst is_valid_block_hash_loop.simps) simp
  qed
qed

lemma blockchain_is_valid_block_hash_eq:
  assumes "unat (num_leading_zero_bytes_required_in_block_hash c) \<le> length digest"
  shows "blockchain_is_valid_block_hash (Some c) digest True =
    ret (take (unat (num_leading_zero_bytes_required_in_block_hash c)) digest =
      replicate (unat (num_leading_zero_bytes_required_in_block_hash c)) 0)"
  using is_valid_block_hash_loop_eq [OF assms, of 0]
  by (simp add: blockchain_is_valid_block_hash_def)

section \<open>Chains with the same last hash\<close>

text \<open>Two different byte strings that are hashed for a block of one and of the other chain and
  have the same SHA-256 digest.\<close>

definition collision :: "'k openssl \<Rightarrow> byte_order \<Rightarrow> block_t list \<Rightarrow> block_t list \<Rightarrow> bool" where
  "collision ssl bo bs cs \<longleftrightarrow>
     (\<exists>b \<in> set bs. \<exists>c \<in> set cs. block_bytes bo b \<noteq> block_bytes bo c \<and>
        sha256 ssl (block_bytes bo b) = sha256 ssl (block_bytes bo c))"

lemma valid_chain_snoc_cases:
  assumes "valid_chain ssl bo n (bs @ [b])"
  obtains "bs = []" "genesis_ok b"
  | "bs \<noteq> []" "valid_chain ssl bo n bs" "block_ok ssl bo n (last bs) b"
proof (cases "bs = []")
  case True
  with assms show ?thesis by (intro that(1)) (simp_all add: valid_chain_def)
next
  case False
  with assms show ?thesis by (intro that(2)) (simp_all add: valid_chain_append1)
qed

lemma same_tip_same_chain:
  assumes "valid_chain ssl bo n bs" and "valid_chain ssl bo m cs"
    and "bs \<noteq> []" and "cs \<noteq> []" and "hash_of ssl bo (last bs) = hash_of ssl bo (last cs)"
    and "\<forall>b \<in> set bs. wf_block b" and "\<forall>c \<in> set cs. wf_block c"
  shows "bs = cs \<or> collision ssl bo bs cs"
  using assms
proof (induction bs arbitrary: cs rule: rev_induct)
  case Nil
  then show ?case by simp
next
  case (snoc b bs)
  obtain cs' c where cs: "cs = cs' @ [c]"
    using snoc.prems(4) by (metis rev_exhaust)
  show ?case
  proof (cases "b = c")
    case False
    then have "block_bytes bo b \<noteq> block_bytes bo c"
      using snoc.prems(6,7) by (auto simp: cs dest: block_bytes_inject)
    then show ?thesis using snoc.prems(5) by (auto simp: collision_def cs hash_of_def)
  next
    case True
    note c = snoc.prems(2) [unfolded cs]
    show ?thesis
    proof (rule valid_chain_snoc_cases [OF snoc.prems(1)])
      assume "bs = []" "genesis_ok b"
      with True show ?thesis
        by (cases rule: valid_chain_snoc_cases [OF c])
          (auto simp: cs genesis_ok_def block_ok_def minting_ok_def)
    next
      assume bs: "bs \<noteq> []" "valid_chain ssl bo n bs" "block_ok ssl bo n (last bs) b"
      show ?thesis
      proof (rule valid_chain_snoc_cases [OF c])
        assume "cs' = []" "genesis_ok c"
        with True bs show ?thesis by (auto simp: genesis_ok_def block_ok_def minting_ok_def)
      next
        assume cs': "cs' \<noteq> []" "valid_chain ssl bo m cs'" "block_ok ssl bo m (last cs') c"
        with True bs have "hash_of ssl bo (last bs) = hash_of ssl bo (last cs')"
          by (simp add: block_ok_def)
        from snoc.IH [OF bs(2) cs'(2) bs(1) cs'(1) this] snoc.prems(6,7) True show ?thesis
          by (auto simp: cs collision_def)
      qed
    qed
  qed
qed

section \<open>Verification of a chain with a good beginning\<close>

lemma verify_signatures_all:
  "\<forall>t \<in> set ts. signature_outcome ssl bo t = Ok True \<Longrightarrow> verify_signatures ssl bo ts = ret True"
  by (induction ts) (auto simp: fun_eq_iff seq_def verify_signature_outcome ret_def)

lemma verify_blocks_append:
  assumes "hashing_ok ssl" and "unat n \<le> SHA256_DIGEST_LENGTH"
    and "\<forall>b \<in> set us. wf_block b" and "successively (block_ok ssl bo n) (a # us)"
  shows "verify_blocks ssl bo want n (hash_of ssl bo a) (us @ bs) =
    verify_blocks ssl bo want n (hash_of ssl bo (last (a # us))) bs"
  using assms(3,4)
proof (induction us arbitrary: a)
  case Nil
  then show ?case by simp
next
  case (Cons b us)
  then have ok: "block_ok ssl bo n a b" and wf: "wf_block b"
    by auto
  note IH = Cons.IH [of b]
  have "\<forall>t \<in> set (transaction_list b). signature_outcome ssl bo t = Ok True"
    using ok by (simp add: block_ok_def)
  note sigs = verify_signatures_all [OF this]
  from ok obtain m ts where ts: "transaction_list b = m # ts"
    by (cases "transaction_list b") (auto simp: block_ok_def minting_ok_def)
  have "wf_transaction m" using wf ts by (simp add: wf_block_def)
  moreover have "take (unat n) zero_hash = replicate (unat n) 0" and "unat n \<le> length zero_hash"
    using assms(2) by (simp_all add: zero_hash_def min_def)
  ultimately show ?case
    using ok wf IH Cons.prems assms(1,2) length_hash_of [OF assms(1)] ts
    by (simp del: verify_signatures.simps add: Let_def hashing_ok_def hash_of_def [symmetric]
        memcmp_def block_ok_def minting_ok_def compare_bytes_eq_0_iff sigs [unfolded ts]
        wf_transaction_def wf_key_def wf_block_def)
qed

section \<open>Properties\<close>

text \<open>C8. blockchain_verify decides validity. For a chain whose arrays have their declared sizes,
  whose transactions state signature lengths that fit and whose difficulty is at most 32, it
  changes nothing and has no undefined behaviour; when it returns SUCCESS its verdict is
  valid_chain, that is the documented conditions; on an invalid chain it reports the first block
  at which the chain stops being valid, when it is asked to, with one exception, against the
  header: a block after the genesis block whose hash and previous hash are right, but which has
  no transactions, is never reported. It returns an error only when OpenSSL fails or cannot read
  a key, and never for a valid chain.\<close>

theorem blockchain_verify_decides:
  assumes "hashing_ok ssl" and "wf_blockchain c" and "signatures_fit (block_list c)"
    and "unat (num_leading_zero_bytes_required_in_block_hash c) \<le> SHA256_DIGEST_LENGTH"
  shows "wp (blockchain_verify ssl bo (Some c) True want)
    (\<lambda>(v, first) t. t = s \<and>
       v = valid_chain ssl bo (num_leading_zero_bytes_required_in_block_hash c) (block_list c) \<and>
       (if v then first = None
        else stops_at (valid_chain ssl bo (num_leading_zero_bytes_required_in_block_hash c))
          (unreported ssl bo (num_leading_zero_bytes_required_in_block_hash c)) want (block_list c) first))
    (\<lambda>e t. t = s \<and> e = FAILURE_OPENSSL_FUNCTION \<and>
       \<not> valid_chain ssl bo (num_leading_zero_bytes_required_in_block_hash c) (block_list c)) s"
  using wp_blockchain_verify [OF assms(1-3) refl assms(4)] .

text \<open>A chain of a genesis block and one mined block for the toy OpenSSL of theory
  Transaction, whose digest is 31 zero bytes and the sum of the message.\<close>

definition toy_mint :: transaction_t where
  "toy_mint = \<lparr>tx_created_at = 0, sender_public_key = toy_key 0, recipient_public_key = toy_key 0,
     amount = 1, sender_signature = \<lparr>sig_length = 4, sig_bytes = [0, 16, 16, 16] @ replicate 508 0\<rparr>\<rparr>"

definition toy_genesis :: block_t where
  "toy_genesis = \<lparr>created_at = 0, transaction_list = [],
     proof_of_work = GENESIS_BLOCK_PROOF_OF_WORK, previous_block_hash = zero_hash\<rparr>"

definition toy_block :: "transaction_t list \<Rightarrow> block_t" where
  "toy_block ts = \<lparr>created_at = 0, transaction_list = ts, proof_of_work = 0,
     previous_block_hash = replicate 31 0 @ [48]\<rparr>"

definition toy_chain :: "transaction_t list \<Rightarrow> blockchain_t" where
  "toy_chain ts = \<lparr>block_list = [toy_genesis, toy_block ts],
     num_leading_zero_bytes_required_in_block_hash = 3\<rparr>"

lemma toy_simps [simp]:
  "transaction_list (toy_block ts) = ts"
  "previous_block_hash (toy_block ts) = replicate 31 0 @ [48]"
  "transaction_list toy_genesis = []"
  "proof_of_work toy_genesis = GENESIS_BLOCK_PROOF_OF_WORK"
  "previous_block_hash toy_genesis = zero_hash"
  "block_list (toy_chain ts) = [toy_genesis, toy_block ts]"
  "num_leading_zero_bytes_required_in_block_hash (toy_chain ts) = 3"
  "sender_public_key toy_mint = toy_key 0" "recipient_public_key toy_mint = toy_key 0"
  "amount toy_mint = 1" "sig_length (sender_signature toy_mint) = 4"
  "sig_bytes (sender_signature toy_mint) = [0, 16, 16, 16] @ replicate 508 0"
  by (simp_all add: toy_block_def toy_genesis_def toy_chain_def toy_mint_def)

lemma hashing_ok_toy: "hashing_ok (toy_ssl n)"
  by (simp add: hashing_ok_def toy_ssl_def size_defs)

lemma wf_toy_mint: "wf_transaction toy_mint"
  by (simp add: wf_transaction_def wf_key_def toy_mint_def size_defs)

lemma wf_toy_genesis: "wf_block toy_genesis"
  by (simp add: wf_block_def toy_genesis_def zero_hash_def)

lemma wf_toy_block: "\<forall>t \<in> set ts. wf_transaction t \<Longrightarrow> wf_block (toy_block ts)"
  by (simp add: wf_block_def toy_block_def size_defs)

lemma toy_hash:
  "wf_block b \<Longrightarrow> hash_of (toy_ssl n) bo b =
    replicate 31 0 @ [of_nat (48 + 8728 * length (transaction_list b))]"
  by (simp add: hash_of_def toy_ssl_def length_block_bytes)

lemma toy_mint_outcome: "signature_outcome (toy_ssl 4) bo toy_mint = Ok True"
proof -
  have "(8208 :: u8) = 16"
    by simp
  then have "toy_sign 4 0 (signed_bytes bo toy_mint) = [0, 16, 16, 16]"
    by (simp add: toy_sign_def length_signed_bytes [OF wf_toy_mint]
        numeral_3_eq_3 del: word_eq_numeral_iff_iszero)
  then show ?thesis
    by (simp add: signature_outcome_def transaction_verify_signature_def toy_ssl_def Let_def
        prog_basic size_defs)
qed

lemma toy_block_ok:
  assumes "ts = [] \<or> ts = [toy_mint]"
  shows "block_ok (toy_ssl 4) bo 3 toy_genesis (toy_block ts) \<longleftrightarrow> ts = [toy_mint]"
proof -
  have "wf_block (toy_block ts)"
    using assms by (intro wf_toy_block) (auto simp: wf_toy_mint)
  from toy_hash [OF this, of 4 bo] toy_hash [OF wf_toy_genesis, of 4 bo] show ?thesis
    using assms by (auto simp: block_ok_def minting_ok_def toy_mint_outcome
        AMOUNT_GENERATED_DURING_MINTING_def)
qed

lemma toy_chain_facts:
  "hashing_ok (toy_ssl 4)" "wf_blockchain (toy_chain [toy_mint])" "wf_blockchain (toy_chain [])"
  "signatures_fit (block_list (toy_chain [toy_mint]))" "signatures_fit (block_list (toy_chain []))"
  "unat (num_leading_zero_bytes_required_in_block_hash (toy_chain ts)) \<le> SHA256_DIGEST_LENGTH"
  "valid_chain (toy_ssl 4) bo 3 [toy_genesis, toy_block [toy_mint]]"
  "\<not> valid_chain (toy_ssl 4) bo 3 [toy_genesis, toy_block []]"
  "valid_chain (toy_ssl 4) bo 3 [toy_genesis]"
  using toy_block_ok [of "[toy_mint]" bo] toy_block_ok [of "[]" bo]
  by (auto simp: hashing_ok_toy wf_blockchain_def wf_toy_genesis wf_toy_block wf_toy_mint
      signatures_fit_def size_defs valid_chain_def genesis_ok_def)

theorem blockchain_verify_decides_witness:
  "wp (blockchain_verify (toy_ssl 4) Little_Endian (Some (toy_chain [toy_mint])) True True)
    (\<lambda>(v, first) t. t = () \<and> v) (\<lambda>e t. False) ()"
  using toy_chain_facts(7) [of Little_Endian]
  by (intro wp_mono [OF blockchain_verify_decides [OF toy_chain_facts(1,2,4,6)]]) auto

text \<open>When the first invalid block of a chain has the right hash and previous hash but no
  transactions, blockchain_verify returns SUCCESS with the verdict false and leaves
  first_invalid_block as it was, although its comment promises to fill it: mine_blocks, which
  passes a null pointer there and prints the block it points to, would read through it.\<close>

theorem blockchain_verify_empty_block_not_reported:
  assumes "hashing_ok ssl"
    and n: "n = num_leading_zero_bytes_required_in_block_hash c"
    and "unat n \<le> SHA256_DIGEST_LENGTH"
    and c: "block_list c = g # us @ b # vs"
    and "\<forall>x \<in> set (us @ [b]). wf_block x"
    and valid: "valid_chain ssl bo n (g # us)"
    and "take (unat n) (hash_of ssl bo b) = replicate (unat n) 0"
    and "previous_block_hash b = hash_of ssl bo (last (g # us))"
    and "transaction_list b = []"
  shows "blockchain_verify ssl bo (Some c) True want s = (Ok (False, None), s)"
proof -
  have "successively (block_ok ssl bo n) (g # us)" and g: "genesis_ok g"
    using valid by (simp_all add: valid_chain_def)
  then have skip: "verify_blocks ssl bo want n (hash_of ssl bo g) (us @ b # vs) s =
      verify_blocks ssl bo want n (hash_of ssl bo (last (g # us))) (b # vs) s"
    using assms(5) by (subst verify_blocks_append [OF assms(1,3)]) auto
  have "take (unat n) zero_hash = replicate (unat n) 0" and "length zero_hash = SHA256_DIGEST_LENGTH"
    using assms(3) by (simp_all add: zero_hash_def min_def)
  then have stop: "verify_blocks ssl bo want n (hash_of ssl bo (last (g # us))) (b # vs) s =
      (Ok (False, None), s)"
    using assms length_hash_of [OF assms(1)]
    by (simp add: Let_def hashing_ok_def hash_of_def [symmetric] memcmp_def
        compare_bytes_eq_0_iff ret_def del: last.simps)
  have "length (previous_block_hash g) = SHA256_DIGEST_LENGTH"
    using g by (simp add: genesis_ok_def zero_hash_def)
  then show ?thesis
    using g c assms(1) \<open>length zero_hash = _\<close> skip stop n [symmetric]
    by (simp add: blockchain_verify_def genesis_ok_def Let_def memcmp_all
        compare_bytes_eq_0_iff hashing_ok_def hash_of_def [symmetric]
        del: last.simps verify_blocks.simps)
qed

theorem blockchain_verify_empty_block_not_reported_witness:
  "blockchain_verify (toy_ssl 4) Little_Endian (Some (toy_chain [])) True True () = (Ok (False, None), ())"
  using blockchain_verify_empty_block_not_reported [OF toy_chain_facts(1) refl toy_chain_facts(6),
      of "[]" toy_genesis "[]" "toy_block []" "[]" Little_Endian True "()"]
    toy_hash [OF wf_toy_genesis, of 4 Little_Endian] toy_hash [OF wf_toy_block, of "[]" 4 Little_Endian]
    toy_chain_facts(9) [of Little_Endian]
  by (simp add: wf_toy_block)

text \<open>The check of a proof of work while mining (the loop of blockchain_is_valid_block_hash) and
  during verification (memcmp with a zero digest) agree up to a difficulty of 32. Above it, the
  loop reads past a digest of zeros and rejects every other digest, while verification always
  asks memcmp for more bytes than the two digests have.\<close>

theorem proof_of_work_checks_agree:
  assumes "length digest = SHA256_DIGEST_LENGTH"
    and n: "n = num_leading_zero_bytes_required_in_block_hash c"
  shows "fst (blockchain_is_valid_block_hash (Some c) digest True s) =
    (if unat n \<le> SHA256_DIGEST_LENGTH
     then Ok (fst (memcmp digest zero_hash (unat n) s) = Ok 0)
     else if digest = zero_hash then Undefined else Ok False) \<and>
    (SHA256_DIGEST_LENGTH < unat n \<longrightarrow> fst (memcmp digest zero_hash (unat n) s) = Undefined)"
proof (cases "unat n \<le> SHA256_DIGEST_LENGTH")
  case True
  then show ?thesis
    using assms
    by (simp add: blockchain_is_valid_block_hash_eq memcmp_def zero_hash_def ret_def min_def
        compare_bytes_eq_0_iff)
next
  case False
  have "fst (is_valid_block_hash_loop (unat n) digest idx s) =
      (if drop idx digest = replicate (SHA256_DIGEST_LENGTH - idx) 0 then Undefined else Ok False)"
    if "idx \<le> SHA256_DIGEST_LENGTH" for idx
    using that
  proof (induction "SHA256_DIGEST_LENGTH - idx" arbitrary: idx)
    case 0
    then show ?case using assms(1) False
      by (subst is_valid_block_hash_loop.simps) (simp add: undef_def)
  next
    case (Suc k)
    then have "drop idx digest = digest ! idx # drop (Suc idx) digest"
      using assms(1) by (simp add: Cons_nth_drop_Suc)
    moreover have "SHA256_DIGEST_LENGTH - idx = Suc (SHA256_DIGEST_LENGTH - Suc idx)"
      using Suc(2) by simp
    ultimately show ?case
      using Suc(1) [of "Suc idx"] Suc(2) assms(1) False
      by (subst is_valid_block_hash_loop.simps) (auto simp: ret_def)
  qed
  from this [of 0] False n assms(1) show ?thesis
    by (simp add: blockchain_is_valid_block_hash_def zero_hash_def memcmp_def undef_def)
qed

theorem proof_of_work_checks_agree_witness:
  "fst (blockchain_is_valid_block_hash
     (Some \<lparr>block_list = [], num_leading_zero_bytes_required_in_block_hash = 33\<rparr>) zero_hash True ())
   = Undefined"
  using proof_of_work_checks_agree [of zero_hash 33
      "\<lparr>block_list = [], num_leading_zero_bytes_required_in_block_hash = 33\<rparr>" "()"]
  by (simp add: zero_hash_def size_defs)

text \<open>C31. The hash of the last block commits to the whole chain: two non-empty valid chains of
  well-formed blocks with the same hash of their last blocks are the same chain, of the same
  length, or two different byte strings hashed for their blocks are a SHA-256 collision.\<close>

theorem last_hash_commits_to_chain:
  assumes "valid_chain ssl bo n bs" and "valid_chain ssl bo m cs"
    and "bs \<noteq> []" and "cs \<noteq> []" and "hash_of ssl bo (last bs) = hash_of ssl bo (last cs)"
    and "\<forall>b \<in> set bs. wf_block b" and "\<forall>c \<in> set cs. wf_block c"
  shows "bs = cs \<or> collision ssl bo bs cs"
  by (rule same_tip_same_chain [OF assms])

theorem last_hash_commits_to_chain_witness:
  "collision (toy_ssl 4) Little_Endian [toy_genesis] [toy_genesis\<lparr>created_at := 1\<rparr>]"
proof -
  let ?g = "toy_genesis\<lparr>created_at := 1\<rparr>"
  have wf: "wf_block ?g"
    by (simp add: wf_block_def zero_hash_def)
  have "toy_genesis \<noteq> ?g"
    by (simp add: toy_genesis_def)
  moreover have "valid_chain (toy_ssl 4) Little_Endian 3 [?g]"
    by (simp add: valid_chain_def genesis_ok_def)
  ultimately show ?thesis
    using last_hash_commits_to_chain [OF toy_chain_facts(9), of Little_Endian 3 "[?g]"]
      toy_hash [OF wf_toy_genesis] toy_hash [OF wf]
    by (simp add: wf wf_toy_genesis)
qed

end
