(* ===== verification/Chain_Codec.thy ===== *)
theory Chain_Codec
  imports Blockchain Cursor
begin

text \<open>
  The wire and file format of a blockchain: \<open>blockchain_serialize\<close>,
  \<open>blockchain_deserialize\<close>, \<open>blockchain_write_to_file\<close> and \<open>blockchain_read_from_file\<close> of
  src/blockchain.c. \<open>wire_chain\<close> is the format itself, on which the theorems about both
  directions rest; it does not depend on the byte order of the host.
\<close>

section \<open>The format\<close>

definition wire_transaction :: "transaction_t \<Rightarrow> u8 list" where
  "wire_transaction t = be_bytes (tx_created_at t) @ sender_public_key t @ recipient_public_key t @
     be_bytes (amount t) @ be_bytes (sig_length (sender_signature t)) @
     sig_bytes (sender_signature t)"

definition wire_block :: "block_t \<Rightarrow> u8 list" where
  "wire_block b = be_bytes (created_at b) @ previous_block_hash b @ be_bytes (proof_of_work b) @
     be_bytes (of_nat (length (transaction_list b)) :: u64) @
     concat (map wire_transaction (transaction_list b))"

definition wire_chain :: "blockchain_t \<Rightarrow> u8 list" where
  "wire_chain c = be_bytes (num_leading_zero_bytes_required_in_block_hash c) @
     be_bytes (of_nat (length (block_list c)) :: u64) @ concat (map wire_block (block_list c))"

section \<open>Serialization\<close>

text \<open>The fields are written into the part of the buffer that realloc has just added, which they
  fill.\<close>

fun serialize_transactions ::
  "byte_order \<Rightarrow> u8 list \<Rightarrow> transaction_t list \<Rightarrow> ('z env_scheme, u8 list) prog" where
  "serialize_transactions bo buffer [] = ret buffer"
| "serialize_transactions bo buffer (t # ts) =
     seq alloc (\<lambda>_.
     serialize_transactions bo
       (buffer @ store_u64 bo (tx_created_at t) @ sender_public_key t @ recipient_public_key t @
        store_u64 bo (amount t) @ store_u64 bo (sig_length (sender_signature t)) @
        sig_bytes (sender_signature t)) ts)"

fun serialize_blocks ::
  "byte_order \<Rightarrow> u8 list \<Rightarrow> block_t list \<Rightarrow> ('z env_scheme, u8 list) prog" where
  "serialize_blocks bo buffer [] = ret buffer"
| "serialize_blocks bo buffer (b # bs) =
     seq (ll_length (transaction_list b)) (\<lambda>num_transactions_in_block.
     seq alloc (\<lambda>_.
     seq (serialize_transactions bo
       (buffer @ store_u64 bo (created_at b) @ previous_block_hash b @
        store_u64 bo (proof_of_work b) @ store_u64 bo num_transactions_in_block)
       (transaction_list b)) (\<lambda>buffer.
     serialize_blocks bo buffer bs)))"

definition blockchain_serialize ::
  "byte_order \<Rightarrow> blockchain_t option \<Rightarrow> bool \<Rightarrow> bool \<Rightarrow> ('z env_scheme, u8 list \<times> u64) prog" where
  "blockchain_serialize bo chain buffer buffer_size =
     (case chain of
        None \<Rightarrow> fail FAILURE_INVALID_INPUT
      | Some c \<Rightarrow>
          if \<not> buffer \<or> \<not> buffer_size then fail FAILURE_INVALID_INPUT
          else
            seq (ll_length (block_list c)) (\<lambda>num_blocks.
            seq alloc (\<lambda>_.
            seq (serialize_blocks bo
              (store_u64 bo (num_leading_zero_bytes_required_in_block_hash c) @
               store_u64 bo num_blocks) (block_list c)) (\<lambda>serialization_buffer.
            ret (serialization_buffer, of_nat (length serialization_buffer))))))"

section \<open>Deserialization\<close>

text \<open>One iteration of the loop over the transactions of a block, up to the append. The stated
  length of the signature is compared with the size of a key, and the check before the
  signature array is read asks for that many bytes, not for the size of the array.\<close>

definition deserialize_transaction ::
  "byte_order \<Rightarrow> u8 list \<Rightarrow> u64 \<Rightarrow> (reader, transaction_t) prog" where
  "deserialize_transaction bo mem buffer_size =
     seq alloc (\<lambda>_.
     seq (need buffer_size 8) (\<lambda>_.
     seq (read_u64 bo mem) (\<lambda>created.
     seq (need buffer_size MAX_SSH_KEY_LENGTH) (\<lambda>_.
     seq (read_bytes mem MAX_SSH_KEY_LENGTH) (\<lambda>sender.
     seq (need buffer_size MAX_SSH_KEY_LENGTH) (\<lambda>_.
     seq (read_bytes mem MAX_SSH_KEY_LENGTH) (\<lambda>recipient.
     seq (need buffer_size 8) (\<lambda>_.
     seq (read_u64 bo mem) (\<lambda>amt.
     seq (need buffer_size 8) (\<lambda>_.
     seq (read_u64 bo mem) (\<lambda>len.
     seq (require (unat len \<le> MAX_SSH_KEY_LENGTH) FAILURE_SIGNATURE_TOO_LONG) (\<lambda>_.
     seq (need buffer_size (unat len)) (\<lambda>_.
     seq (read_bytes mem MAX_SSH_SIGNATURE_LENGTH) (\<lambda>sig.
     ret \<lparr>tx_created_at = created, sender_public_key = sender, recipient_public_key = recipient,
          amount = amt, sender_signature = \<lparr>sig_length = len, sig_bytes = sig\<rparr>\<rparr>))))))))))))))"

text \<open>The loops, by the number of iterations left.\<close>

primrec deserialize_transactions ::
  "byte_order \<Rightarrow> u8 list \<Rightarrow> u64 \<Rightarrow> nat \<Rightarrow> transaction_t list \<Rightarrow>
    (reader, transaction_t list) prog" where
  "deserialize_transactions bo mem buffer_size 0 txs = ret txs"
| "deserialize_transactions bo mem buffer_size (Suc n) txs =
     seq (deserialize_transaction bo mem buffer_size) (\<lambda>t.
     seq (ll_append txs t) (\<lambda>txs.
     deserialize_transactions bo mem buffer_size n txs))"

definition deserialize_block ::
  "byte_order \<Rightarrow> u64 \<Rightarrow> u8 list \<Rightarrow> u64 \<Rightarrow> (reader, block_t) prog" where
  "deserialize_block bo now mem buffer_size =
     seq (need buffer_size 8) (\<lambda>_.
     seq (read_u64 bo mem) (\<lambda>block_created_at.
     seq (need buffer_size SHA256_DIGEST_LENGTH) (\<lambda>_.
     seq (read_bytes mem SHA256_DIGEST_LENGTH) (\<lambda>previous_hash.
     seq (need buffer_size 8) (\<lambda>_.
     seq (read_u64 bo mem) (\<lambda>proof.
     seq (need buffer_size 8) (\<lambda>_.
     seq (read_u64 bo mem) (\<lambda>num_transactions.
     seq ll_create (\<lambda>txs.
     seq (deserialize_transactions bo mem buffer_size (unat num_transactions) txs) (\<lambda>txs.
     seq (block_create now True (Some txs) proof previous_hash) (\<lambda>block.
     ret (block\<lparr>created_at := block_created_at\<rparr>))))))))))))"

primrec deserialize_blocks ::
  "byte_order \<Rightarrow> u64 \<Rightarrow> u8 list \<Rightarrow> u64 \<Rightarrow> nat \<Rightarrow> blockchain_t \<Rightarrow> (reader, blockchain_t) prog" where
  "deserialize_blocks bo now mem buffer_size 0 c = ret c"
| "deserialize_blocks bo now mem buffer_size (Suc n) c =
     seq (deserialize_block bo now mem buffer_size) (\<lambda>b.
     seq (blockchain_add_block (Some c) (Some b)) (\<lambda>c.
     deserialize_blocks bo now mem buffer_size n c))"

definition blockchain_deserialize ::
  "byte_order \<Rightarrow> u64 \<Rightarrow> bool \<Rightarrow> u8 list option \<Rightarrow> u64 \<Rightarrow> ('z env_scheme, blockchain_t) prog" where
  "blockchain_deserialize bo now out buffer buffer_size =
     (case buffer of
        None \<Rightarrow> fail FAILURE_INVALID_INPUT
      | Some mem \<Rightarrow>
          if \<not> out then fail FAILURE_INVALID_INPUT
          else with_cursor (
            seq (need buffer_size 8) (\<lambda>_.
            seq (read_u64 bo mem) (\<lambda>n.
            seq (blockchain_create True n) (\<lambda>c.
            seq (need buffer_size 8) (\<lambda>_.
            seq (read_u64 bo mem) (\<lambda>num_blocks.
            deserialize_blocks bo now mem buffer_size (unat num_blocks) c)))))))"

section \<open>Serialization writes the format\<close>

lemma wp_serialize_transactions:
  "wp (serialize_transactions bo buffer ts)
     (\<lambda>v t. v = buffer @ concat (map wire_transaction ts) \<and> alloc_step s t)
     (\<lambda>e t. e = FAILURE_COULD_NOT_MALLOC \<and> \<not> no_oom s \<and> alloc_step s t) s"
proof (induction ts arbitrary: buffer s)
  case Nil
  then show ?case by simp
next
  case (Cons t ts)
  show ?case
    by (simp, rule wp_allocI, rule wp_mono [OF Cons.IH])
      (auto simp: wire_transaction_def [of t] intro: alloc_step_trans dest: alloc_step_no_oom)
qed

lemma wp_serialize_blocks:
  "wp (serialize_blocks bo buffer bs)
     (\<lambda>v t. v = buffer @ concat (map wire_block bs) \<and> alloc_step s t)
     (\<lambda>e t. e = FAILURE_COULD_NOT_MALLOC \<and> \<not> no_oom s \<and> alloc_step s t) s"
proof (induction bs arbitrary: buffer s)
  case Nil
  then show ?case by simp
next
  case (Cons b bs)
  show ?case
    by (simp, rule wp_allocI, rule wp_seqI, rule wp_mono [OF wp_serialize_transactions],
        rule wp_mono [OF Cons.IH])
      (auto simp: wire_block_def [of b] intro: alloc_step_trans dest: alloc_step_no_oom)
qed

lemma wp_blockchain_serialize:
  "wp (blockchain_serialize bo (Some c) True True)
     (\<lambda>v t. v = (wire_chain c, of_nat (length (wire_chain c))) \<and> alloc_step s t)
     (\<lambda>e t. e = FAILURE_COULD_NOT_MALLOC \<and> \<not> no_oom s \<and> alloc_step s t) s"
  by (simp add: blockchain_serialize_def, rule wp_allocI, rule wp_seqI,
      rule wp_mono [OF wp_serialize_blocks])
    (auto simp: wire_chain_def intro: alloc_step_trans dest: alloc_step_no_oom)

section \<open>Sizes\<close>

lemma length_wire_transaction: "wf_transaction t \<Longrightarrow> length (wire_transaction t) = 8728"
  by (simp add: wire_transaction_def wf_transaction_def wf_key_def size_defs)

definition wire_block_size :: "block_t \<Rightarrow> nat" where
  "wire_block_size b = 56 + 8728 * length (transaction_list b)"

definition wire_chain_size :: "blockchain_t \<Rightarrow> nat" where
  "wire_chain_size c = 16 + sum_list (map wire_block_size (block_list c))"

lemma length_concat_wire_transaction:
  "\<forall>t \<in> set ts. wf_transaction t \<Longrightarrow>
    length (concat (map wire_transaction ts)) = 8728 * length ts"
  by (induction ts) (auto simp: length_wire_transaction)

lemma length_wire_block: "wf_block b \<Longrightarrow> length (wire_block b) = wire_block_size b"
  by (simp add: wire_block_def wire_block_size_def wf_block_def length_concat_wire_transaction
      size_defs)

lemma length_concat_wire_block:
  "\<forall>b \<in> set bs. wf_block b \<Longrightarrow>
    length (concat (map wire_block bs)) = sum_list (map wire_block_size bs)"
  by (induction bs) (simp_all add: length_wire_block)

lemma length_wire_chain: "wf_blockchain c \<Longrightarrow> length (wire_chain c) = wire_chain_size c"
  by (simp add: wire_chain_def wire_chain_size_def wf_blockchain_def length_concat_wire_block)

section \<open>Deserialization reads the format\<close>

text \<open>The stated length of a signature passes the two checks when at least \<open>slack\<close> bytes of the
  buffer follow the transaction.\<close>

definition length_accepted :: "nat \<Rightarrow> transaction_t \<Rightarrow> bool" where
  "length_accepted slack t \<longleftrightarrow> unat (sig_length (sender_signature t)) \<le> MAX_SSH_KEY_LENGTH \<and>
     unat (sig_length (sender_signature t)) \<le> MAX_SSH_SIGNATURE_LENGTH + slack"

text \<open>What a function that ran out of memory, or did not, leaves.\<close>

abbreviation oom :: "reader \<Rightarrow> return_code_t \<Rightarrow> reader \<Rightarrow> bool" where
  "oom s e t \<equiv> e = FAILURE_COULD_NOT_MALLOC \<and> \<not> no_oom s"

lemma wp_deserialize_transaction:
  assumes "wf_transaction t" and "length_accepted slack t"
    and "sits mem (pos s) (wire_transaction t)" and "pos s + 8728 + slack \<le> unat bs"
  shows "wp (deserialize_transaction bo mem bs)
    (\<lambda>v u. v = t \<and> pos u = pos s + 8728 \<and> (no_oom s \<longrightarrow> no_oom u)) (oom s) s"
proof -
  have len: "length (sender_public_key t) = 4096" "length (recipient_public_key t) = 4096"
    "length (sig_bytes (sender_signature t)) = 512"
    using assms(1) by (simp_all add: wf_transaction_def wf_key_def size_defs)
  have "pos s + 8728 \<le> length mem"
    using sits_length [OF assms(3)] length_wire_transaction [OF assms(1)] by force
  moreover have "take 4096 (drop (pos s + 8) mem) = sender_public_key t"
    and "take 4096 (drop (4104 + pos s) mem) = recipient_public_key t"
    and "take 512 (drop (8216 + pos s) mem) = sig_bytes (sender_signature t)"
    and "of_be_bytes (take 8 (drop (pos s) mem)) = tx_created_at t"
    and "of_be_bytes (take 8 (drop (8200 + pos s) mem)) = amount t"
    and "of_be_bytes (take 8 (drop (8208 + pos s) mem)) = sig_length (sender_signature t)"
    using assms(3)
    by (auto simp: wire_transaction_def sits_append len sits_take_eq intro!: of_be_bytes_sits)
  ultimately show ?thesis
    unfolding deserialize_transaction_def
    by (intro wp_seqI wp_allocI)
      (use assms(2,4) in \<open>auto simp: alloc_step_pos size_defs length_accepted_def
        dest: alloc_step_no_oom\<close>)
qed

lemma deserialize_transactions_add:
  "deserialize_transactions bo mem bs (m + n) txs =
    seq (deserialize_transactions bo mem bs m txs) (deserialize_transactions bo mem bs n)"
  by (induction m arbitrary: txs) (simp_all add: seq_assoc)

lemma deserialize_blocks_add:
  "deserialize_blocks bo now mem bs (m + n) c =
    seq (deserialize_blocks bo now mem bs m c) (deserialize_blocks bo now mem bs n)"
  by (induction m arbitrary: c) (simp_all add: seq_assoc)

lemma wp_ll_append_oom:
  "(\<And>t. alloc_step s t \<Longrightarrow> Q (xs @ [d]) t) \<Longrightarrow>
    (\<And>t. alloc_step s t \<Longrightarrow> \<not> no_oom s \<Longrightarrow> E FAILURE_COULD_NOT_MALLOC t) \<Longrightarrow>
    wp (ll_append xs d) Q E s"
  unfolding ll_append_def by (intro wp_seqI wp_allocI) auto

lemma wp_deserialize_transactions:
  assumes "\<forall>t \<in> set ts. wf_transaction t \<and> length_accepted slack t"
    and "sits mem (pos s) (concat (map wire_transaction ts))"
    and "pos s + 8728 * length ts + slack \<le> unat bs"
  shows "wp (deserialize_transactions bo mem bs (length ts) txs)
    (\<lambda>v u. v = txs @ ts \<and> pos u = pos s + 8728 * length ts \<and> (no_oom s \<longrightarrow> no_oom u)) (oom s) s"
  using assms
proof (induction ts arbitrary: txs s)
  case Nil
  then show ?case by simp
next
  case (Cons t ts)
  have t: "wf_transaction t" "length_accepted slack t" "sits mem (pos s) (wire_transaction t)"
    "sits mem (pos s + 8728) (concat (map wire_transaction ts))"
    using Cons.prems by (simp_all add: sits_append length_wire_transaction)
  have "wp (deserialize_transaction bo mem bs)
    (\<lambda>v u. v = t \<and> pos u = pos s + 8728 \<and> (no_oom s \<longrightarrow> no_oom u)) (oom s) s"
    by (rule wp_deserialize_transaction [OF t(1-3)]) (use Cons.prems(3) in simp)
  moreover have "wp (seq (ll_append txs t) (deserialize_transactions bo mem bs (length ts)))
    (\<lambda>v u. v = txs @ t # ts \<and> pos u = pos s + 8728 * length (t # ts) \<and> (no_oom s \<longrightarrow> no_oom u))
    (oom s) u" if "pos u = pos s + 8728" "no_oom s \<longrightarrow> no_oom u" for u
  proof (intro wp_seqI wp_ll_append_oom)
    fix w assume w: "alloc_step u w"
    have "wp (deserialize_transactions bo mem bs (length ts) (txs @ [t]))
      (\<lambda>v x. v = (txs @ [t]) @ ts \<and> pos x = pos w + 8728 * length ts \<and> (no_oom w \<longrightarrow> no_oom x))
      (oom w) w"
      by (rule Cons.IH) (use Cons.prems t that alloc_step_pos [OF w] in auto)
    then show "wp (deserialize_transactions bo mem bs (length ts) (txs @ [t]))
      (\<lambda>v u. v = txs @ t # ts \<and> pos u = pos s + 8728 * length (t # ts) \<and>
        (no_oom s \<longrightarrow> no_oom u)) (oom s) w"
      by (rule wp_mono) (use that w in \<open>auto dest: alloc_step_no_oom alloc_step_pos\<close>)
  qed (use that in auto)
  ultimately show ?case
    by (simp del: wp_seq, intro wp_seqI) (erule wp_mono, auto)
qed

lemma unat_of_nat_small: "n \<le> unat (bs :: u64) \<Longrightarrow> unat (of_nat n :: u64) = n"
  by (metis le_less_trans of_nat_inverse unsigned_less)

lemma wp_ll_create_oom:
  "(\<And>t. alloc_step s t \<Longrightarrow> Q [] t) \<Longrightarrow>
    (\<And>t. alloc_step s t \<Longrightarrow> \<not> no_oom s \<Longrightarrow> E FAILURE_COULD_NOT_MALLOC t) \<Longrightarrow>
    wp ll_create Q E s"
  unfolding ll_create_def by (intro wp_seqI wp_allocI) auto

lemma wp_block_create:
  "(\<And>t. alloc_step s t \<Longrightarrow> Q \<lparr>created_at = now, transaction_list = ts, proof_of_work = proof,
      previous_block_hash = h\<rparr> t) \<Longrightarrow>
    (\<And>t. alloc_step s t \<Longrightarrow> \<not> no_oom s \<Longrightarrow> E FAILURE_COULD_NOT_MALLOC t) \<Longrightarrow>
    wp (block_create now True (Some ts) proof h) Q E s"
  unfolding block_create_def by (simp del: wp_seq, intro wp_seqI wp_allocI) auto

lemma wp_blockchain_add_block:
  "(\<And>t. alloc_step s t \<Longrightarrow> Q (c\<lparr>block_list := block_list c @ [b]\<rparr>) t) \<Longrightarrow>
    (\<And>t. alloc_step s t \<Longrightarrow> \<not> no_oom s \<Longrightarrow> E FAILURE_COULD_NOT_MALLOC t) \<Longrightarrow>
    wp (blockchain_add_block (Some c) (Some b)) Q E s"
  unfolding blockchain_add_block_def by (simp del: wp_seq, intro wp_seqI wp_ll_append_oom) auto

lemma wp_deserialize_block:
  assumes "wf_block b" and "\<forall>t \<in> set (transaction_list b). length_accepted slack t"
    and "sits mem (pos s) (wire_block b)" and "pos s + wire_block_size b + slack \<le> unat bs"
  shows "wp (deserialize_block bo now mem bs)
    (\<lambda>v u. v = b \<and> pos u = pos s + wire_block_size b \<and> (no_oom s \<longrightarrow> no_oom u)) (oom s) s"
proof -
  let ?ts = "transaction_list b"
  have len: "length (previous_block_hash b) = 32"
    using assms(1) by (simp add: wf_block_def size_defs)
  have n: "unat (of_nat (length ?ts) :: u64) = length ?ts"
    by (rule unat_of_nat_small [of _ bs]) (use assms(4) in \<open>simp add: wire_block_size_def\<close>)
  have "pos s + wire_block_size b \<le> length mem"
    using sits_length [OF assms(3)] length_wire_block [OF assms(1)]
    by (force simp: wire_block_size_def)
  moreover have "take 32 (drop (pos s + 8) mem) = previous_block_hash b"
    and "of_be_bytes (take 8 (drop (pos s) mem)) = created_at b"
    and "of_be_bytes (take 8 (drop (40 + pos s) mem)) = proof_of_work b"
    and "of_be_bytes (take 8 (drop (48 + pos s) mem)) = (of_nat (length ?ts) :: u64)"
    and sits: "sits mem (56 + pos s) (concat (map wire_transaction ?ts))"
    using assms(3)
    by (auto simp: wire_block_def sits_append len sits_take_eq intro!: of_be_bytes_sits)
  moreover have "wp (seq ll_create (\<lambda>txs.
       seq (deserialize_transactions bo mem bs (length ?ts) txs) (\<lambda>txs.
       seq (block_create now True (Some txs) (proof_of_work b) (previous_block_hash b)) (\<lambda>block.
       ret (block\<lparr>created_at := created_at b\<rparr>)))))
    (\<lambda>v u. v = b \<and> pos u = pos s + wire_block_size b \<and> (no_oom s \<longrightarrow> no_oom u)) (oom s) w"
    if w: "pos w = 56 + pos s" "mallocs w = mallocs s" for w
  proof (intro wp_seqI wp_ll_create_oom)
    have np: "no_oom w = no_oom s" using w by (simp add: no_oom_def)
    fix t assume t: "alloc_step w t"
    have "wp (deserialize_transactions bo mem bs (length ?ts) [])
      (\<lambda>v u. v = [] @ ?ts \<and> pos u = pos t + 8728 * length ?ts \<and> (no_oom t \<longrightarrow> no_oom u)) (oom t) t"
      by (rule wp_deserialize_transactions)
        (use assms(1,2,4) sits w alloc_step_pos [OF t] in
          \<open>auto simp: wf_block_def wire_block_size_def ac_simps\<close>)
    then show "wp (deserialize_transactions bo mem bs (length ?ts) [])
      (\<lambda>v. wp (seq (block_create now True (Some v) (proof_of_work b) (previous_block_hash b))
             (\<lambda>block. ret (block\<lparr>created_at := created_at b\<rparr>)))
         (\<lambda>v u. v = b \<and> pos u = pos s + wire_block_size b \<and> (no_oom s \<longrightarrow> no_oom u)) (oom s))
      (oom s) t"
    proof (rule wp_mono)
      fix v and u :: reader
      assume u: "v = [] @ ?ts \<and> pos u = pos t + 8728 * length ?ts \<and> (no_oom t \<longrightarrow> no_oom u)"
      then show "wp (seq (block_create now True (Some v) (proof_of_work b) (previous_block_hash b))
             (\<lambda>block. ret (block\<lparr>created_at := created_at b\<rparr>)))
         (\<lambda>v u. v = b \<and> pos u = pos s + wire_block_size b \<and> (no_oom s \<longrightarrow> no_oom u)) (oom s) u"
        using w np alloc_step_pos [OF t] alloc_step_no_oom [OF t]
        by (intro wp_seqI wp_block_create)
          (auto simp: wire_block_size_def alloc_step_pos dest: alloc_step_no_oom)
    qed (use t w in \<open>auto dest: alloc_step_no_oom simp: no_oom_def\<close>)
  qed (use w in \<open>auto simp: no_oom_def\<close>)
  ultimately show ?thesis
    unfolding deserialize_block_def
    using assms(4) by (simp add: size_defs n wire_block_size_def)
qed

lemma wp_deserialize_blocks:
  assumes "\<forall>b \<in> set bs. wf_block b \<and> (\<forall>t \<in> set (transaction_list b). length_accepted slack t)"
    and "sits mem (pos s) (concat (map wire_block bs))"
    and "pos s + sum_list (map wire_block_size bs) + slack \<le> unat n"
  shows "wp (deserialize_blocks bo now mem n (length bs) c)
    (\<lambda>v u. v = c\<lparr>block_list := block_list c @ bs\<rparr> \<and>
       pos u = pos s + sum_list (map wire_block_size bs) \<and> (no_oom s \<longrightarrow> no_oom u)) (oom s) s"
  using assms
proof (induction bs arbitrary: c s)
  case Nil
  then show ?case by simp
next
  case (Cons b bs)
  have b: "wf_block b" "\<forall>t \<in> set (transaction_list b). length_accepted slack t"
    "sits mem (pos s) (wire_block b)"
    "sits mem (pos s + wire_block_size b) (concat (map wire_block bs))"
    using Cons.prems by (simp_all add: sits_append length_wire_block)
  have "wp (deserialize_block bo now mem n)
    (\<lambda>v u. v = b \<and> pos u = pos s + wire_block_size b \<and> (no_oom s \<longrightarrow> no_oom u)) (oom s) s"
    by (rule wp_deserialize_block [OF b(1-3)]) (use Cons.prems(3) in simp)
  moreover have "wp (seq (blockchain_add_block (Some c) (Some b))
      (deserialize_blocks bo now mem n (length bs)))
    (\<lambda>v u. v = c\<lparr>block_list := block_list c @ b # bs\<rparr> \<and>
       pos u = pos s + sum_list (map wire_block_size (b # bs)) \<and> (no_oom s \<longrightarrow> no_oom u))
    (oom s) u" if "pos u = pos s + wire_block_size b" "no_oom s \<longrightarrow> no_oom u" for u
  proof (intro wp_seqI wp_blockchain_add_block)
    fix w assume w: "alloc_step u w"
    let ?c = "c\<lparr>block_list := block_list c @ [b]\<rparr>"
    have "wp (deserialize_blocks bo now mem n (length bs) ?c)
      (\<lambda>v x. v = ?c\<lparr>block_list := block_list ?c @ bs\<rparr> \<and>
         pos x = pos w + sum_list (map wire_block_size bs) \<and> (no_oom w \<longrightarrow> no_oom x)) (oom w) w"
      by (rule Cons.IH) (use Cons.prems b that alloc_step_pos [OF w] in auto)
    then show "wp (deserialize_blocks bo now mem n (length bs) ?c)
      (\<lambda>v u. v = c\<lparr>block_list := block_list c @ b # bs\<rparr> \<and>
         pos u = pos s + sum_list (map wire_block_size (b # bs)) \<and> (no_oom s \<longrightarrow> no_oom u))
      (oom s) w"
      by (rule wp_mono) (use that w in \<open>auto dest: alloc_step_no_oom alloc_step_pos\<close>)
  qed (use that in auto)
  ultimately show ?case
    by (simp del: wp_seq, intro wp_seqI) (erule wp_mono, auto)
qed

lemma length_le_wire_block_sizes: "length bs \<le> sum_list (map wire_block_size bs)"
  by (induction bs) (auto simp: wire_block_size_def)

lemma wp_blockchain_create:
  "(\<And>t. alloc_step s t \<Longrightarrow> Q \<lparr>block_list = [],
      num_leading_zero_bytes_required_in_block_hash = n\<rparr> t) \<Longrightarrow>
    (\<And>t. alloc_step s t \<Longrightarrow> \<not> no_oom s \<Longrightarrow> E FAILURE_COULD_NOT_MALLOC t) \<Longrightarrow>
    wp (blockchain_create True n) Q E s"
  unfolding blockchain_create_def
  by (simp del: wp_seq, intro wp_seqI wp_allocI wp_ll_create_oom)
    (auto intro: alloc_step_trans dest: alloc_step_no_oom)

text \<open>The header of a chain: up to its first block. The lemmas about a whole chain, complete or
  cut off, go through it.\<close>

lemma blockchain_deserialize_header:
  fixes d n bs :: u64
  assumes "sits mem 0 (be_bytes d @ be_bytes n)" and "16 \<le> unat bs"
    and "\<And>r. pos r = 16 \<Longrightarrow> no_oom s \<longrightarrow> no_oom r \<Longrightarrow>
      wp (deserialize_blocks bo now mem bs (unat n)
        \<lparr>block_list = [], num_leading_zero_bytes_required_in_block_hash = d\<rparr>)
        (\<lambda>v r. Q v (s\<lparr>mallocs := mallocs r\<rparr>)) (\<lambda>c r. E c (s\<lparr>mallocs := mallocs r\<rparr>)) r"
    and "\<And>r :: reader. \<not> no_oom s \<Longrightarrow> E FAILURE_COULD_NOT_MALLOC (s\<lparr>mallocs := mallocs r\<rparr>)"
  shows "wp (blockchain_deserialize bo now True (Some mem) bs) Q E (s :: 'z env_scheme)"
proof -
  have "16 \<le> length mem"
    using sits_length [OF assms(1)] by (simp add: be_bytes_u64)
  moreover have eqs: "of_be_bytes (take 8 mem) = d" "of_be_bytes (take 8 (drop 8 mem)) = n"
    using of_be_bytes_sits [of mem 0 d 8] of_be_bytes_sits [of mem 8 n 8] assms(1)
    by (simp_all add: sits_append)
  moreover have "no_oom t" if "alloc_step \<lparr>mallocs = mallocs s, pos = 8\<rparr> t" "no_oom s" for t
    using alloc_step_no_oom [OF that(1)] that(2) by simp
  ultimately show ?thesis
    using assms(2)
    by (auto simp: blockchain_deserialize_def alloc_step_pos eqs
        intro!: wp_blockchain_create assms(3,4))
qed

lemma wp_blockchain_deserialize:
  assumes "wf_blockchain c"
    and "\<forall>b \<in> set (block_list c). \<forall>t \<in> set (transaction_list b). length_accepted slack t"
    and "sits mem 0 (wire_chain c)" and "wire_chain_size c + slack \<le> unat bs"
  shows "wp (blockchain_deserialize bo now True (Some mem) bs)
    (\<lambda>v t. v = c) (\<lambda>e t. e = FAILURE_COULD_NOT_MALLOC \<and> \<not> no_oom s) s"
proof (rule blockchain_deserialize_header)
  have sits: "sits mem 16 (concat (map wire_block (block_list c)))"
    and "sits mem 0 (be_bytes (num_leading_zero_bytes_required_in_block_hash c) @
      be_bytes (of_nat (length (block_list c)) :: u64))"
    using assms(3) by (simp_all add: wire_chain_def sits_append)
  then show "sits mem 0 (be_bytes (num_leading_zero_bytes_required_in_block_hash c) @
      be_bytes (of_nat (length (block_list c)) :: u64))" by simp
  show "16 \<le> unat bs" using assms(4) by (simp add: wire_chain_size_def)
  have "length (block_list c) \<le> wire_chain_size c"
    by (simp add: wire_chain_size_def length_le_wire_block_sizes trans_le_add2)
  then have n: "unat (of_nat (length (block_list c)) :: u64) = length (block_list c)"
    using assms(4) by (intro unat_of_nat_small [of _ bs]) simp
  fix r :: reader
  assume r: "pos r = 16" "no_oom s \<longrightarrow> no_oom r"
  show "wp (deserialize_blocks bo now mem bs (unat (of_nat (length (block_list c)) :: u64))
      \<lparr>block_list = [], num_leading_zero_bytes_required_in_block_hash =
         num_leading_zero_bytes_required_in_block_hash c\<rparr>)
    (\<lambda>v r. v = c) (\<lambda>e r. e = FAILURE_COULD_NOT_MALLOC \<and> \<not> no_oom s) r"
    unfolding n
    by (rule wp_mono [OF wp_deserialize_blocks [where slack = slack]])
      (use assms sits r in \<open>auto simp: wf_blockchain_def wire_chain_size_def\<close>)
qed auto

section \<open>Deserialization leaves the connection alone\<close>

lemma takes_chain [takes]:
  "takes_mallocs (ll_append xs x)" "takes_mallocs ll_create"
  "takes_mallocs (block_create now out txs proof h)"
  "takes_mallocs (blockchain_create out n)"
  "takes_mallocs (blockchain_add_block (Some c) (Some b))"
  unfolding ll_append_def ll_create_def block_create_def blockchain_create_def blockchain_add_block_def
  by (auto split: option.split intro!: takes)

lemma takes_deserialize_transactions [takes]:
  "takes_mallocs (deserialize_transactions bo mem bs n txs)"
proof (induction n arbitrary: txs)
  case 0
  then show ?case by (simp add: takes)
next
  case (Suc n)
  then show ?case
    unfolding deserialize_transactions.simps deserialize_transaction_def by (intro takes)
qed

lemma takes_deserialize_blocks [takes]: "takes_mallocs (deserialize_blocks bo now mem bs n c)"
proof (induction n arbitrary: c)
  case 0
  then show ?case by (simp add: takes)
next
  case (Suc n)
  then show ?case
    unfolding deserialize_blocks.simps deserialize_block_def by (intro takes)
qed

lemma blockchain_deserialize_frame:
  "alloc_step s (snd (blockchain_deserialize bo now True (Some mem) bs s))"
  unfolding blockchain_deserialize_def by (simp, intro takes_with_cursor takes)

section \<open>Whatever is read back is in the format\<close>

text \<open>An error of deserialization is one of three; running out of memory is possible only when a
  request for memory fails.\<close>

abbreviation read_error :: "reader \<Rightarrow> return_code_t \<Rightarrow> reader \<Rightarrow> bool" where
  "read_error s e t \<equiv> e = FAILURE_BUFFER_TOO_SMALL \<or> e = FAILURE_SIGNATURE_TOO_LONG \<or> oom s e t"

text \<open>\<open>reads mem bs s u xs\<close>: the bytes from the cursor of \<open>s\<close> to that of \<open>u\<close> are \<open>xs\<close>, and the
  cursor has not gone further than the stated size and a signature array.\<close>

definition reads :: "u8 list \<Rightarrow> u64 \<Rightarrow> reader \<Rightarrow> reader \<Rightarrow> u8 list \<Rightarrow> bool" where
  "reads mem bs s u xs \<longleftrightarrow> sits mem (pos s) xs \<and> pos u = pos s + length xs \<and>
     pos u \<le> unat bs + MAX_SSH_SIGNATURE_LENGTH \<and> (no_oom s \<longrightarrow> no_oom u)"

lemma reads_append: "reads mem bs s t xs \<Longrightarrow> reads mem bs t u ys \<Longrightarrow> reads mem bs s u (xs @ ys)"
  by (auto simp: reads_def sits_append)

lemma reads_alloc: "reads mem bs s t xs \<Longrightarrow> alloc_step t u \<Longrightarrow> reads mem bs s u xs"
  by (auto simp: reads_def alloc_step_pos dest: alloc_step_no_oom)

lemma reads_alloc_Nil:
  "alloc_step s u \<Longrightarrow> pos s \<le> unat bs + MAX_SSH_SIGNATURE_LENGTH \<Longrightarrow> reads mem bs s u []"
  by (auto simp: reads_def alloc_step_pos dest: alloc_step_no_oom)

lemma reads_pos: "reads mem bs s u xs \<Longrightarrow> pos u \<le> unat bs + MAX_SSH_SIGNATURE_LENGTH"
  by (simp add: reads_def)

lemma reads_no_oom: "reads mem bs s u xs \<Longrightarrow> \<not> no_oom u \<Longrightarrow> \<not> no_oom s"
  by (auto simp: reads_def)

definition short_buffer :: "u8 list \<Rightarrow> u64 \<Rightarrow> bool" where
  "short_buffer mem bs \<longleftrightarrow> length mem < unat bs + MAX_SSH_SIGNATURE_LENGTH"

lemma deserialize_transaction_reads:
  "wp_unless (short_buffer mem bs) (deserialize_transaction bo mem bs)
    (\<lambda>t u. wf_transaction t \<and> unat (sig_length (sender_signature t)) \<le> MAX_SSH_KEY_LENGTH \<and>
      reads mem bs s u (wire_transaction t)) (read_error s) s"
  unfolding deserialize_transaction_def
  by (intro wp_unless_seqI wp_unless_allocI)
    (auto simp: size_defs wf_transaction_def wf_key_def wire_transaction_def reads_def sits_append
      alloc_step_pos short_buffer_def add.commute [of 4096] sits_take sits_be_bytes ac_simps
      dest: alloc_step_no_oom)

lemma wp_unless_ll_append:
  "(\<And>t. alloc_step s t \<Longrightarrow> Q (xs @ [d]) t) \<Longrightarrow>
    (\<And>t. alloc_step s t \<Longrightarrow> \<not> no_oom s \<Longrightarrow> E FAILURE_COULD_NOT_MALLOC t) \<Longrightarrow>
    wp_unless U (ll_append xs d) Q E s"
  by (rule wp_imp_wp_unless, rule wp_ll_append_oom)

lemma wp_unless_blockchain_add_block:
  "(\<And>t. alloc_step s t \<Longrightarrow> Q (c\<lparr>block_list := block_list c @ [b]\<rparr>) t) \<Longrightarrow>
    (\<And>t. alloc_step s t \<Longrightarrow> \<not> no_oom s \<Longrightarrow> E FAILURE_COULD_NOT_MALLOC t) \<Longrightarrow>
    wp_unless U (blockchain_add_block (Some c) (Some b)) Q E s"
  by (rule wp_imp_wp_unless, rule wp_blockchain_add_block)

definition readable :: "transaction_t \<Rightarrow> bool" where
  "readable t \<longleftrightarrow> wf_transaction t \<and>
     unat (sig_length (sender_signature t)) \<le> MAX_SSH_KEY_LENGTH"

lemma deserialize_transactions_reads:
  assumes "pos s \<le> unat bs + MAX_SSH_SIGNATURE_LENGTH"
  shows "wp_unless (short_buffer mem bs) (deserialize_transactions bo mem bs n txs)
    (\<lambda>v u. \<exists>ts. v = txs @ ts \<and> length ts = n \<and> (\<forall>t \<in> set ts. readable t) \<and>
       reads mem bs s u (concat (map wire_transaction ts))) (read_error s) s"
  using assms
proof (induction n arbitrary: txs s)
  case 0
  then show ?case by (auto simp: reads_def)
next
  case (Suc n)
  show ?case
    unfolding deserialize_transactions.simps
  proof (intro wp_unless_seqI, rule wp_unless_mono [OF deserialize_transaction_reads])
    fix t and u :: reader
    assume t: "wf_transaction t \<and> unat (sig_length (sender_signature t)) \<le> MAX_SSH_KEY_LENGTH \<and>
      reads mem bs s u (wire_transaction t)"
    show "wp_unless (short_buffer mem bs)
      (seq (ll_append txs t) (deserialize_transactions bo mem bs n))
      (\<lambda>v u. \<exists>ts. v = txs @ ts \<and> length ts = Suc n \<and> (\<forall>t \<in> set ts. readable t) \<and>
         reads mem bs s u (concat (map wire_transaction ts))) (read_error s) u"
    proof (intro wp_unless_seqI wp_unless_ll_append)
      fix w assume "alloc_step u w"
      with t have w: "reads mem bs s w (wire_transaction t)"
        by (auto intro: reads_alloc)
      show "wp_unless (short_buffer mem bs) (deserialize_transactions bo mem bs n (txs @ [t]))
        (\<lambda>v u. \<exists>ts. v = txs @ ts \<and> length ts = Suc n \<and> (\<forall>t \<in> set ts. readable t) \<and>
           reads mem bs s u (concat (map wire_transaction ts))) (read_error s) w"
      proof (rule wp_unless_mono [OF Suc.IH])
        fix v and x :: reader
        assume "\<exists>ts. v = (txs @ [t]) @ ts \<and> length ts = n \<and> (\<forall>t \<in> set ts. readable t) \<and>
          reads mem bs w x (concat (map wire_transaction ts))"
        then obtain ts where "v = txs @ t # ts" "length ts = n" "\<forall>t \<in> set ts. readable t"
          "reads mem bs w x (concat (map wire_transaction ts))" by auto
        then show "\<exists>ts. v = txs @ ts \<and> length ts = Suc n \<and> (\<forall>t \<in> set ts. readable t) \<and>
          reads mem bs s x (concat (map wire_transaction ts))"
          using t reads_append [OF w] by (intro exI [of _ "t # ts"]) (auto simp: readable_def)
      qed (use w in \<open>auto dest: reads_pos reads_no_oom\<close>)
    qed (use t in \<open>auto dest: reads_no_oom\<close>)
  qed auto
qed

lemma deserialize_block_reads:
  "wp_unless (short_buffer mem bs) (deserialize_block bo now mem bs)
    (\<lambda>b u. wf_block b \<and> (\<forall>t \<in> set (transaction_list b). readable t) \<and>
      reads mem bs s u (wire_block b)) (read_error s) s"
proof -
  define head where "head c h p n = be_bytes c @ h @ be_bytes p @ be_bytes n"
    for c p n :: u64 and h :: sha_256_t
  have rest: "wp_unless (short_buffer mem bs)
    (seq ll_create (\<lambda>txs.
     seq (deserialize_transactions bo mem bs (unat n) txs) (\<lambda>txs.
     seq (block_create now True (Some txs) p h) (\<lambda>block. ret (block\<lparr>created_at := c\<rparr>)))))
    (\<lambda>b u. wf_block b \<and> (\<forall>t \<in> set (transaction_list b). readable t) \<and>
      reads mem bs s u (wire_block b)) (read_error s) w"
    if w: "reads mem bs s w (head c h p n)" "length h = SHA256_DIGEST_LENGTH" for c h p n w
  proof (intro wp_unless_seqI wp_imp_wp_unless [OF wp_ll_create_oom])
    fix t assume "alloc_step w t"
    with w have t: "reads mem bs s t (head c h p n)" by (auto intro: reads_alloc)
    show "wp_unless (short_buffer mem bs) (deserialize_transactions bo mem bs (unat n) [])
      (\<lambda>txs. wp_unless (short_buffer mem bs)
         (seq (block_create now True (Some txs) p h) (\<lambda>block. ret (block\<lparr>created_at := c\<rparr>)))
         (\<lambda>b u. wf_block b \<and> (\<forall>t \<in> set (transaction_list b). readable t) \<and>
           reads mem bs s u (wire_block b)) (read_error s)) (read_error s) t"
    proof (rule wp_unless_mono [OF deserialize_transactions_reads])
      fix v and u :: reader
      assume "\<exists>ts. v = [] @ ts \<and> length ts = unat n \<and> (\<forall>t \<in> set ts. readable t) \<and>
        reads mem bs t u (concat (map wire_transaction ts))"
      then have v: "length v = unat n" "\<forall>t \<in> set v. readable t"
        "reads mem bs s u (head c h p n @ concat (map wire_transaction v))"
        using reads_append [OF t] by auto
      from v(1) have "(of_nat (length v) :: u64) = n" by simp
      then show "wp_unless (short_buffer mem bs)
         (seq (block_create now True (Some v) p h) (\<lambda>block. ret (block\<lparr>created_at := c\<rparr>)))
         (\<lambda>b u. wf_block b \<and> (\<forall>t \<in> set (transaction_list b). readable t) \<and>
           reads mem bs s u (wire_block b)) (read_error s) u"
        using v w(2)
        by (intro wp_unless_seqI wp_imp_wp_unless [OF wp_block_create])
          (auto simp: wf_block_def wire_block_def head_def readable_def
            dest: reads_alloc reads_no_oom)
    qed (use t in \<open>auto dest: reads_pos reads_no_oom\<close>)
  qed (use w in \<open>auto dest: reads_no_oom\<close>)
  have "reads mem bs s (s\<lparr>pos := 56 + pos s\<rparr>)
      (head (of_be_bytes (take 8 (drop (pos s) mem))) (take 32 (drop (pos s + 8) mem))
         (of_be_bytes (take 8 (drop (40 + pos s) mem))) (of_be_bytes (take 8 (drop (48 + pos s) mem))))"
    if "56 + pos s \<le> length mem" "56 + pos s \<le> unat bs"
    using that
    by (auto simp: reads_def head_def sits_append size_defs sits_take sits_be_bytes ac_simps)
  note last = rest [OF this, unfolded size_defs short_buffer_def]
  show ?thesis
  proof (cases "56 + pos s \<le> length mem \<and> 56 + pos s \<le> unat bs")
    case True
    then have "min (length mem - (pos s + 8)) 32 = 32" by auto
    with True last show ?thesis
      unfolding deserialize_block_def by (simp add: size_defs short_buffer_def)
  next
    case False
    then show ?thesis
      unfolding deserialize_block_def by (auto simp: size_defs short_buffer_def)
  qed
qed

lemma deserialize_blocks_reads:
  assumes "pos s \<le> unat bs + MAX_SSH_SIGNATURE_LENGTH"
  shows "wp_unless (short_buffer mem bs) (deserialize_blocks bo now mem bs n c)
    (\<lambda>v u. \<exists>bl. v = c\<lparr>block_list := block_list c @ bl\<rparr> \<and> length bl = n \<and>
       (\<forall>b \<in> set bl. wf_block b \<and> (\<forall>t \<in> set (transaction_list b). readable t)) \<and>
       reads mem bs s u (concat (map wire_block bl))) (read_error s) s"
  using assms
proof (induction n arbitrary: c s)
  case 0
  then show ?case by (auto simp: reads_def)
next
  case (Suc n)
  show ?case
    unfolding deserialize_blocks.simps
  proof (intro wp_unless_seqI, rule wp_unless_mono [OF deserialize_block_reads])
    fix b and u :: reader
    assume b: "wf_block b \<and> (\<forall>t \<in> set (transaction_list b). readable t) \<and>
      reads mem bs s u (wire_block b)"
    show "wp_unless (short_buffer mem bs)
      (seq (blockchain_add_block (Some c) (Some b)) (deserialize_blocks bo now mem bs n))
      (\<lambda>v u. \<exists>bl. v = c\<lparr>block_list := block_list c @ bl\<rparr> \<and> length bl = Suc n \<and>
         (\<forall>b \<in> set bl. wf_block b \<and> (\<forall>t \<in> set (transaction_list b). readable t)) \<and>
         reads mem bs s u (concat (map wire_block bl))) (read_error s) u"
    proof (intro wp_unless_seqI wp_unless_blockchain_add_block)
      fix w assume "alloc_step u w"
      with b have w: "reads mem bs s w (wire_block b)"
        by (auto intro: reads_alloc)
      let ?c = "c\<lparr>block_list := block_list c @ [b]\<rparr>"
      show "wp_unless (short_buffer mem bs) (deserialize_blocks bo now mem bs n ?c)
        (\<lambda>v u. \<exists>bl. v = c\<lparr>block_list := block_list c @ bl\<rparr> \<and> length bl = Suc n \<and>
           (\<forall>b \<in> set bl. wf_block b \<and> (\<forall>t \<in> set (transaction_list b). readable t)) \<and>
           reads mem bs s u (concat (map wire_block bl))) (read_error s) w"
      proof (rule wp_unless_mono [OF Suc.IH])
        fix v and x :: reader
        assume "\<exists>bl. v = ?c\<lparr>block_list := block_list ?c @ bl\<rparr> \<and> length bl = n \<and>
          (\<forall>b \<in> set bl. wf_block b \<and> (\<forall>t \<in> set (transaction_list b). readable t)) \<and>
          reads mem bs w x (concat (map wire_block bl))"
        then obtain bl where "v = c\<lparr>block_list := block_list c @ b # bl\<rparr>" "length bl = n"
          "\<forall>b \<in> set bl. wf_block b \<and> (\<forall>t \<in> set (transaction_list b). readable t)"
          "reads mem bs w x (concat (map wire_block bl))" by auto
        then show "\<exists>bl. v = c\<lparr>block_list := block_list c @ bl\<rparr> \<and> length bl = Suc n \<and>
          (\<forall>b \<in> set bl. wf_block b \<and> (\<forall>t \<in> set (transaction_list b). readable t)) \<and>
          reads mem bs s x (concat (map wire_block bl))"
          using b reads_append [OF w] by (intro exI [of _ "b # bl"]) auto
      qed (use w in \<open>auto dest: reads_pos reads_no_oom\<close>)
    qed (use b in \<open>auto dest: reads_no_oom\<close>)
  qed auto
qed

lemma blockchain_deserialize_reads:
  "wp_unless (short_buffer mem bs) (blockchain_deserialize bo now True (Some mem) bs)
    (\<lambda>c t. wf_blockchain c \<and> (\<forall>b \<in> set (block_list c). \<forall>t \<in> set (transaction_list b). readable t) \<and>
      sits mem 0 (wire_chain c) \<and> wire_chain_size c \<le> unat bs + MAX_SSH_SIGNATURE_LENGTH)
    (\<lambda>e t. e = FAILURE_BUFFER_TOO_SMALL \<or> e = FAILURE_SIGNATURE_TOO_LONG \<or>
      e = FAILURE_COULD_NOT_MALLOC \<and> \<not> no_oom s) (s :: 'z env_scheme)"
proof -
  let ?Q = "\<lambda>c (r :: reader). wf_blockchain c \<and>
    (\<forall>b \<in> set (block_list c). \<forall>t \<in> set (transaction_list b). readable t) \<and>
    sits mem 0 (wire_chain c) \<and> wire_chain_size c \<le> unat bs + MAX_SSH_SIGNATURE_LENGTH"
  let ?E = "\<lambda>e (r :: reader). e = FAILURE_BUFFER_TOO_SMALL \<or> e = FAILURE_SIGNATURE_TOO_LONG \<or>
    e = FAILURE_COULD_NOT_MALLOC \<and> \<not> no_oom s"
  let ?d = "of_be_bytes (take 8 mem) :: u64" and ?n = "of_be_bytes (take 8 (drop 8 mem)) :: u64"
  have blocks: "wp_unless (short_buffer mem bs)
    (deserialize_blocks bo now mem bs (unat ?n)
      \<lparr>block_list = [], num_leading_zero_bytes_required_in_block_hash = ?d\<rparr>) ?Q ?E r"
    if r: "pos r = 16" "16 \<le> length mem" "16 \<le> unat bs" "no_oom s \<longrightarrow> no_oom r" for r
  proof (rule wp_unless_mono [OF deserialize_blocks_reads])
    fix v and u :: reader
    assume "\<exists>bl. v = \<lparr>block_list = [], num_leading_zero_bytes_required_in_block_hash = ?d\<rparr>
        \<lparr>block_list := block_list \<lparr>block_list = [], num_leading_zero_bytes_required_in_block_hash = ?d\<rparr> @ bl\<rparr>
        \<and> length bl = unat ?n \<and>
        (\<forall>b \<in> set bl. wf_block b \<and> (\<forall>t \<in> set (transaction_list b). readable t)) \<and>
        reads mem bs r u (concat (map wire_block bl))"
    then obtain bl where bl: "v = \<lparr>block_list = bl, num_leading_zero_bytes_required_in_block_hash = ?d\<rparr>"
      "length bl = unat ?n"
      "\<forall>b \<in> set bl. wf_block b \<and> (\<forall>t \<in> set (transaction_list b). readable t)"
      "reads mem bs r u (concat (map wire_block bl))" by auto
    have wf: "wf_blockchain v" using bl by (simp add: wf_blockchain_def)
    have "(of_nat (length bl) :: u64) = ?n" using bl(2) by simp
    moreover have "sits mem 0 (be_bytes ?d @ be_bytes ?n)"
      using r sits_be_bytes [of 8 0 mem, where ?'a = 64] sits_be_bytes [of 8 8 mem, where ?'a = 64]
      by (simp add: sits_append)
    ultimately have "sits mem 0 (wire_chain v)"
      using bl r by (simp add: wire_chain_def sits_append reads_def)
    moreover have "wire_chain_size v \<le> unat bs + MAX_SSH_SIGNATURE_LENGTH"
      using bl r length_concat_wire_block [of bl]
      by (simp add: wire_chain_size_def reads_def)
    ultimately show "?Q v u"
      using bl wf by simp
  qed (use r in auto)
  have after: "wp_unless (short_buffer mem bs) (seq (need bs 8) (\<lambda>_. seq (read_u64 bo mem)
      (\<lambda>n. deserialize_blocks bo now mem bs (unat n)
        \<lparr>block_list = [], num_leading_zero_bytes_required_in_block_hash = ?d\<rparr>))) ?Q ?E r"
    if "pos r = 8" "no_oom s \<longrightarrow> no_oom r" for r
    using that by (auto simp: short_buffer_def size_defs
        intro!: blocks [unfolded short_buffer_def size_defs])
  have "wp_unless (short_buffer mem bs) (seq (blockchain_create True ?d) (\<lambda>c.
      seq (need bs 8) (\<lambda>_. seq (read_u64 bo mem) (\<lambda>n. deserialize_blocks bo now mem bs (unat n) c))))
    ?Q ?E \<lparr>mallocs = mallocs s, pos = 8\<rparr>"
    by (rule wp_unless_seqI, rule wp_imp_wp_unless [OF wp_blockchain_create], rule after)
      (auto simp: alloc_step_pos dest: alloc_step_no_oom [of "\<lparr>mallocs = mallocs s, pos = 8\<rparr>"])
  then show ?thesis
    by (auto simp: blockchain_deserialize_def short_buffer_def size_defs)
qed

section \<open>A signature array that is cut off\<close>

lemma deserialize_transaction_undefined:
  assumes "no_oom s" and "wf_transaction t"
    and "unat (sig_length (sender_signature t)) \<le> MAX_SSH_SIGNATURE_LENGTH"
    and "sits mem (pos s) (take 8216 (wire_transaction t))"
    and "pos s + 8216 + unat (sig_length (sender_signature t)) \<le> unat bs"
    and "length mem < pos s + 8728"
  shows "undefined_at (deserialize_transaction bo mem bs) s"
proof -
  have len: "length (sender_public_key t) = 4096" "length (recipient_public_key t) = 4096"
    "length (sig_bytes (sender_signature t)) = 512"
    using assms(2) by (simp_all add: wf_transaction_def wf_key_def size_defs)
  have "sits mem (pos s) (be_bytes (tx_created_at t) @ sender_public_key t @
      recipient_public_key t @ be_bytes (amount t) @ be_bytes (sig_length (sender_signature t)))"
    using assms(4) by (simp add: wire_transaction_def len)
  then have "of_be_bytes (take 8 (drop (8208 + pos s) mem)) = sig_length (sender_signature t)"
    by (auto simp: sits_append len intro!: of_be_bytes_sits)
  then show ?thesis
    unfolding deserialize_transaction_def
    by (intro undefined_at_allocI) (use assms in \<open>auto simp: alloc_step_pos size_defs\<close>)
qed

lemma wp_no_oom: "wp m Q (oom s) s \<Longrightarrow> no_oom s \<Longrightarrow> wp m Q (\<lambda>_ _. False) s"
  by (rule wp_mono) auto

lemma deserialize_transactions_undefined:
  assumes "no_oom s" and "\<forall>t \<in> set ts. wf_transaction t \<and> length_accepted 0 t"
    and t: "wf_transaction t" "unat (sig_length (sender_signature t)) \<le> MAX_SSH_SIGNATURE_LENGTH"
    and "sits mem (pos s) (concat (map wire_transaction ts) @ take 8216 (wire_transaction t))"
    and "pos s + 8728 * length ts + 8216 + unat (sig_length (sender_signature t)) \<le> unat bs"
    and "length mem < pos s + 8728 * length ts + 8728"
  shows "undefined_at (deserialize_transactions bo mem bs (Suc (length ts)) txs) s"
proof -
  have split: "deserialize_transactions bo mem bs (Suc (length ts)) txs =
      seq (deserialize_transactions bo mem bs (length ts) txs) (deserialize_transactions bo mem bs 1)"
    using deserialize_transactions_add [of bo mem bs "length ts" 1 txs] by simp
  have sits: "sits mem (pos s) (concat (map wire_transaction ts))"
    "sits mem (pos s + 8728 * length ts) (take 8216 (wire_transaction t))"
    using assms(2,5) by (simp_all add: sits_append length_concat_wire_transaction)
  have "wp (deserialize_transactions bo mem bs (length ts) txs)
    (\<lambda>v u. v = txs @ ts \<and> pos u = pos s + 8728 * length ts \<and> (no_oom s \<longrightarrow> no_oom u)) (oom s) s"
    by (rule wp_deserialize_transactions [OF assms(2) sits(1)]) (use assms(6) in simp)
  then show ?thesis
    unfolding split
  proof (intro undefined_at_seqI, elim wp_mono [OF wp_no_oom])
    fix v and u :: reader
    assume u: "v = txs @ ts \<and> pos u = pos s + 8728 * length ts \<and> (no_oom s \<longrightarrow> no_oom u)"
    have "undefined_at (deserialize_transaction bo mem bs) u"
      by (rule deserialize_transaction_undefined [OF _ t]) (use u assms sits in auto)
    then show "undefined_at (deserialize_transactions bo mem bs 1 v) u"
      by (auto simp: undefined_at_def seq_def split: prod.split outcome.split)
  qed (use assms in auto)
qed

text \<open>All of a block but its last signature array.\<close>

definition wire_block_cut :: "block_t \<Rightarrow> u8 list" where
  "wire_block_cut b = take (wire_block_size b - MAX_SSH_SIGNATURE_LENGTH) (wire_block b)"

lemma wire_block_cut:
  assumes "wf_block b" and "transaction_list b = ts @ [t]"
  shows "wire_block_cut b = be_bytes (created_at b) @ previous_block_hash b @
    be_bytes (proof_of_work b) @ be_bytes (of_nat (length (transaction_list b)) :: u64) @
    concat (map wire_transaction ts) @ take 8216 (wire_transaction t)"
proof -
  have "length (previous_block_hash b) = 32"
    and "length (concat (map wire_transaction ts)) = 8728 * length ts"
    using assms by (auto simp: wf_block_def size_defs intro!: length_concat_wire_transaction)
  then show ?thesis
    by (simp add: wire_block_cut_def wire_block_def wire_block_size_def assms(2) size_defs)
qed

lemma undefined_at_ll_createI:
  "no_oom s \<Longrightarrow> (\<And>t. alloc_step s t \<Longrightarrow> no_oom t \<Longrightarrow> undefined_at (f []) t) \<Longrightarrow>
    undefined_at (seq ll_create f) s"
  by (rule undefined_at_seqI, rule wp_ll_create_oom) (auto dest: alloc_step_no_oom)

lemma deserialize_block_undefined:
  assumes "no_oom s" and wf: "wf_block b" and ts: "transaction_list b = ts @ [t]"
    and acc: "\<forall>t \<in> set (transaction_list b). length_accepted 0 t"
    and "sits mem (pos s) (wire_block_cut b)"
    and "pos s + wire_block_size b - MAX_SSH_SIGNATURE_LENGTH +
      unat (sig_length (sender_signature t)) \<le> unat bs"
    and "length mem < pos s + wire_block_size b"
  shows "undefined_at (deserialize_block bo now mem bs) s"
proof -
  have len: "length (previous_block_hash b) = 32"
    using wf by (simp add: wf_block_def size_defs)
  have "56 + pos s \<le> unat bs"
    using assms(6) by (simp add: wire_block_size_def ts size_defs)
  have n: "unat (of_nat (length (transaction_list b)) :: u64) = Suc (length ts)"
    using assms(6) unat_of_nat_small [of "Suc (length ts)" bs]
    by (simp add: wire_block_size_def ts size_defs)
  have "of_be_bytes (take 8 (drop (48 + pos s) mem)) = (of_nat (length (transaction_list b)) :: u64)"
    and sits: "sits mem (56 + pos s) (concat (map wire_transaction ts) @ take 8216 (wire_transaction t))"
    using assms(5)
    by (auto simp: wire_block_cut [OF wf ts] sits_append len intro!: of_be_bytes_sits)
  moreover have "undefined_at (deserialize_transactions bo mem bs (Suc (length ts)) []) r"
    if "no_oom r" "pos r = 56 + pos s" for r
    by (rule deserialize_transactions_undefined [where t = t])
      (use that sits assms in \<open>auto simp: wf_block_def length_accepted_def size_defs
        wire_block_size_def\<close>)
  moreover have "undefined_at (seq ll_create (\<lambda>txs.
       seq (deserialize_transactions bo mem bs (Suc (length ts)) txs) f)) r"
    if "no_oom r" "pos r = 56 + pos s" for r and f :: "transaction_t list \<Rightarrow> (reader, block_t) prog"
    by (intro undefined_at_ll_createI undefined_at_seq1 that(1) calculation(3))
      (use that(2) in \<open>simp_all add: alloc_step_pos\<close>)
  ultimately show ?thesis
    unfolding deserialize_block_def
    using assms(1) \<open>56 + pos s \<le> unat bs\<close>
    by (simp del: deserialize_transactions.simps add: size_defs n)
qed

lemma blockchain_deserialize_undefined:
  assumes "no_oom s" and wf: "wf_blockchain c"
    and bs: "block_list c = bl @ [b]" and ts: "transaction_list b = ts @ [t]"
    and fit: "signatures_fit (block_list c)"
    and "sits mem 0 (take (wire_chain_size c - MAX_SSH_SIGNATURE_LENGTH) (wire_chain c))"
    and "wire_chain_size c - MAX_SSH_SIGNATURE_LENGTH + unat (sig_length (sender_signature t)) \<le> unat n"
    and "length mem < wire_chain_size c"
  shows "undefined_at (blockchain_deserialize bo now True (Some mem) n) (s :: 'z env_scheme)"
proof -
  let ?d = "num_leading_zero_bytes_required_in_block_hash c"
  let ?l = "of_nat (length (block_list c)) :: u64"
  have wfs: "\<forall>b \<in> set bl. wf_block b" "wf_block b"
    using wf by (simp_all add: wf_blockchain_def bs)
  have acc: "\<forall>b \<in> set (block_list c). \<forall>t \<in> set (transaction_list b). length_accepted 0 t"
    using fit by (force simp: signatures_fit_def length_accepted_def size_defs dest: bspec)
  have size: "wire_chain_size c = 16 + sum_list (map wire_block_size bl) + wire_block_size b"
    and b: "MAX_SSH_SIGNATURE_LENGTH \<le> wire_block_size b"
    by (simp_all add: wire_chain_size_def bs wire_block_size_def ts size_defs)
  have cut: "take (wire_chain_size c - MAX_SSH_SIGNATURE_LENGTH) (wire_chain c) =
      be_bytes ?d @ be_bytes ?l @ concat (map wire_block bl) @ wire_block_cut b"
    using b length_concat_wire_block [OF wfs(1)]
    by (simp add: wire_chain_def bs size wire_block_cut_def)
  have sits: "sits mem 0 (be_bytes ?d @ be_bytes ?l)" "sits mem 16 (concat (map wire_block bl))"
    "sits mem (16 + sum_list (map wire_block_size bl)) (wire_block_cut b)"
    using assms(6) unfolding cut by (simp_all add: sits_append length_concat_wire_block wfs)
  have "16 \<le> length mem"
    using sits_length [OF sits(1)] by (simp add: be_bytes_u64)
  have eqs: "of_be_bytes (take 8 mem) = ?d" "of_be_bytes (take 8 (drop 8 mem)) = ?l"
    using of_be_bytes_sits [of mem 0 ?d 8] of_be_bytes_sits [of mem 8 ?l 8] sits(1)
    by (simp_all add: sits_append)
  have l: "unat ?l = Suc (length bl)"
    using unat_of_nat_small [of "Suc (length bl)" n] assms(7) b length_le_wire_block_sizes [of bl]
    by (simp add: bs size)
  have blocks: "undefined_at (deserialize_blocks bo now mem n (Suc (length bl))
      \<lparr>block_list = [], num_leading_zero_bytes_required_in_block_hash = ?d\<rparr>) r" (is "undefined_at ?m r")
    if r: "no_oom r" "pos r = 16" for r
  proof -
    have split: "?m = seq (deserialize_blocks bo now mem n (length bl)
        \<lparr>block_list = [], num_leading_zero_bytes_required_in_block_hash = ?d\<rparr>)
        (deserialize_blocks bo now mem n 1)"
      using deserialize_blocks_add [of bo now mem n "length bl" 1] by simp
    have first: "wp (deserialize_blocks bo now mem n (length bl)
          \<lparr>block_list = [], num_leading_zero_bytes_required_in_block_hash = ?d\<rparr>)
        (\<lambda>v u. pos u = 16 + sum_list (map wire_block_size bl) \<and> no_oom u) (\<lambda>_ _. False) r"
      by (rule wp_mono [OF wp_no_oom [OF wp_deserialize_blocks [where slack = 0]]])
        (use r acc wfs sits(2) assms(7) b in \<open>auto simp: bs size\<close>)
    have second: "undefined_at (deserialize_blocks bo now mem n 1 v) u"
      if "pos u = 16 + sum_list (map wire_block_size bl)" "no_oom u" for u v
    proof -
      have "undefined_at (deserialize_block bo now mem n) u"
        by (rule deserialize_block_undefined [OF that(2) wfs(2) ts])
          (use that acc sits(3) assms(7,8) b in \<open>auto simp: bs size\<close>)
      then show ?thesis by (simp add: undefined_at_seq1)
    qed
    show ?thesis
      unfolding split by (intro undefined_at_seqI) (rule wp_mono [OF first], rule second, auto)
  qed
  have "undefined_at (seq (blockchain_create True ?d) (\<lambda>c.
      seq (need n 8) (\<lambda>_. seq (read_u64 bo mem) (\<lambda>l. deserialize_blocks bo now mem n (unat l) c))))
    \<lparr>mallocs = mallocs s, pos = 8\<rparr>"
    by (rule undefined_at_seqI, rule wp_blockchain_create)
      (use assms(1,7) b in \<open>auto simp del: deserialize_blocks.simps
        simp: alloc_step_pos eqs l size intro!: blocks
        dest: alloc_step_no_oom [of "\<lparr>mallocs = mallocs s, pos = 8\<rparr>"]\<close>)
  then show ?thesis
    using assms(7) b \<open>16 \<le> length mem\<close>
    by (simp add: blockchain_deserialize_def undefined_at_with_cursor eqs size)
qed

section \<open>Files\<close>

text \<open>The files of the program by name. The record \<open>stdio\<close> holds what the C library may refuse:
  to open a file for writing or reading, or to transfer more than so many bytes.\<close>

record files = env +
  contents :: "string \<Rightarrow> u8 list option"

record stdio =
  fopen_wb :: "string \<Rightarrow> bool"
  fopen_rb :: "string \<Rightarrow> bool"
  fwrite_limit :: nat
  fread_limit :: nat

definition blockchain_write_to_file ::
  "byte_order \<Rightarrow> stdio \<Rightarrow> blockchain_t option \<Rightarrow> string option \<Rightarrow> ('z files_scheme, unit) prog" where
  "blockchain_write_to_file bo io chain outfile =
     (case (chain, outfile) of
        (Some c, Some name) \<Rightarrow>
          seq (blockchain_serialize bo (Some c) True True) (\<lambda>(buffer, buffer_size).
          if \<not> fopen_wb io name then fail FAILURE_FILE_IO
          else
            (let bytes_written = min (fwrite_limit io) (unat buffer_size) in
             seq (modify (\<lambda>s. s\<lparr>contents := (contents s)(name := Some (take bytes_written buffer))\<rparr>))
               (\<lambda>_. require (bytes_written = unat buffer_size) FAILURE_FILE_IO)))
      | _ \<Rightarrow> fail FAILURE_INVALID_INPUT)"

definition blockchain_read_from_file ::
  "byte_order \<Rightarrow> u64 \<Rightarrow> stdio \<Rightarrow> bool \<Rightarrow> string option \<Rightarrow> ('z files_scheme, blockchain_t) prog" where
  "blockchain_read_from_file bo now io out infile =
     (case infile of
        None \<Rightarrow> fail FAILURE_INVALID_INPUT
      | Some name \<Rightarrow>
          if \<not> out then fail FAILURE_INVALID_INPUT
          else
            seq get (\<lambda>s. case (fopen_rb io name, contents s name) of
                (True, Some bytes) \<Rightarrow>
                  (let buffer_size = of_nat (length bytes) :: u64 in
                   seq alloc (\<lambda>_.
                   let read_size = min (fread_limit io) (unat buffer_size) in
                   if read_size \<noteq> unat buffer_size then fail FAILURE_FILE_IO
                   else blockchain_deserialize bo now True (Some bytes) buffer_size))
              | _ \<Rightarrow> fail FAILURE_FILE_IO))"

lemma blockchain_deserialize_state:
  "\<exists>ms. snd (blockchain_deserialize bo now True (Some mem) bs s) = s\<lparr>mallocs := ms\<rparr>"
  by (auto simp: blockchain_deserialize_def with_cursor_def split: prod.split)

lemma wp_state:
  "wp m Q E s \<Longrightarrow> P (snd (m s)) \<Longrightarrow> wp m (\<lambda>v t. Q v t \<and> P t) (\<lambda>c t. E c t \<and> P t) s"
  by (auto simp: wp_def split: prod.splits outcome.splits)

lemma unat_wire_chain_size:
  "wf_blockchain c \<Longrightarrow> wire_chain_size c < 2 ^ 64 \<Longrightarrow>
    unat (of_nat (length (wire_chain c)) :: u64) = wire_chain_size c"
  by (simp add: length_wire_chain unsigned_of_nat take_bit_eq_mod)

lemma wp_blockchain_write_to_file:
  assumes "wf_blockchain c" and "wire_chain_size c < 2 ^ 64"
  shows "wp (blockchain_write_to_file bo io (Some c) (Some name))
    (\<lambda>_ t. contents t = (contents s)(name \<mapsto> wire_chain c) \<and> (no_oom s \<longrightarrow> no_oom t))
    (\<lambda>e _. e = FAILURE_COULD_NOT_MALLOC \<and> \<not> no_oom s \<or> e = FAILURE_FILE_IO \<and>
       \<not> (fopen_wb io name \<and> wire_chain_size c \<le> fwrite_limit io)) s"
proof -
  have *: "wp (blockchain_serialize bo (Some c) True True)
    (\<lambda>(buffer, buffer_size) t. buffer = wire_chain c \<and> unat buffer_size = wire_chain_size c \<and>
       alloc_step s t)
    (\<lambda>e t. e = FAILURE_COULD_NOT_MALLOC \<and> \<not> no_oom s) s"
    by (rule wp_mono [OF wp_blockchain_serialize])
      (use unat_wire_chain_size [OF assms] in \<open>auto simp del: of_nat_add\<close>)
  show ?thesis
    unfolding blockchain_write_to_file_def
    by (simp del: wp_seq, rule wp_seqI, rule wp_mono [OF *])
      (auto simp: Let_def length_wire_chain assms(1) min_def alloc_step_def no_oom_def
        dest: in_set_dropD)
qed

text \<open>It never fails to return, and of the memory takes only what it allocates.\<close>

lemma takes_serialize_transactions [takes]: "takes_mallocs (serialize_transactions bo buffer ts)"
  by (induction ts arbitrary: buffer) (simp_all add: takes)

lemma takes_serialize_blocks [takes]: "takes_mallocs (serialize_blocks bo buffer bs)"
  by (induction bs arbitrary: buffer) (simp_all add: ll_length_def takes)

lemma takes_contents [takes]: "takes_mallocs (modify (\<lambda>s. s\<lparr>contents := f s\<rparr>))"
  by (auto simp: takes_mallocs_def prog_basic intro: exI [of _ 0])

lemma takes_blockchain_write_to_file:
  "takes_mallocs (blockchain_write_to_file bo io chain outfile)"
  unfolding blockchain_write_to_file_def blockchain_serialize_def ll_length_def Let_def
  by (auto split: option.split prod.split intro!: takes)

lemma blockchain_write_to_file_returns:
  "wp (blockchain_write_to_file bo io chain outfile) (\<lambda>_ _. True) (\<lambda>_ _. True) s"
  unfolding blockchain_write_to_file_def Let_def
  by (auto split: option.split intro!: wp_mono [OF wp_blockchain_serialize])

lemma wp_blockchain_read_from_file:
  assumes "wf_blockchain c" and "signatures_fit (block_list c)" and "wire_chain_size c < 2 ^ 64"
    and "contents s name = Some (wire_chain c)"
  shows "wp (blockchain_read_from_file bo now io True (Some name))
    (\<lambda>c' t. c' = c \<and> contents t = contents s)
    (\<lambda>e _. e = FAILURE_COULD_NOT_MALLOC \<and> \<not> no_oom s \<or> e = FAILURE_FILE_IO \<and>
       \<not> (fopen_rb io name \<and> wire_chain_size c \<le> fread_limit io)) s"
proof -
  define n :: u64 where "n = of_nat (length (wire_chain c))"
  have size: "unat n = wire_chain_size c"
    unfolding n_def by (rule unat_wire_chain_size [OF assms(1,3)])
  have acc: "\<forall>b \<in> set (block_list c). \<forall>t \<in> set (transaction_list b). length_accepted 0 t"
    using assms(2) by (force simp: signatures_fit_def length_accepted_def size_defs dest: bspec)
  have deserialize: "wp (blockchain_deserialize bo now True (Some (wire_chain c)) n)
      (\<lambda>c' u. c' = c \<and> contents u = contents t)
      (\<lambda>e _. e = FAILURE_COULD_NOT_MALLOC \<and> \<not> no_oom t) t" for t :: "'a files_scheme"
  proof (rule wp_mono [OF wp_state [where P = "\<lambda>u. contents u = contents t"]])
    show "wp (blockchain_deserialize bo now True (Some (wire_chain c)) n)
      (\<lambda>c' _. c' = c) (\<lambda>e _. e = FAILURE_COULD_NOT_MALLOC \<and> \<not> no_oom t) t"
      by (rule wp_blockchain_deserialize [OF assms(1) acc]) (simp_all add: size sits_0)
    show "contents (snd (blockchain_deserialize bo now True (Some (wire_chain c)) n t)) = contents t"
      using blockchain_deserialize_state [of bo now "wire_chain c" n t] by auto
  qed auto
  have frame: "contents t = contents s \<and> (no_oom s \<longrightarrow> no_oom t)" if "alloc_step s t" for t
    using that alloc_step_no_oom [OF that] by (auto simp: alloc_step_def)
  let ?E = "\<lambda>e _. e = FAILURE_COULD_NOT_MALLOC \<and> \<not> no_oom s \<or> e = FAILURE_FILE_IO \<and>
       \<not> (fopen_rb io name \<and> wire_chain_size c \<le> fread_limit io)"
  have "wp (if min (fread_limit io) (unat n) \<noteq> unat n then fail FAILURE_FILE_IO
      else blockchain_deserialize bo now True (Some (wire_chain c)) n)
    (\<lambda>c' t. c' = c \<and> contents t = contents s) ?E t" if t: "alloc_step s t" for t
  proof (cases "wire_chain_size c \<le> fread_limit io")
    case True
    have "wp (blockchain_deserialize bo now True (Some (wire_chain c)) n)
      (\<lambda>c' t. c' = c \<and> contents t = contents s) ?E t"
      by (rule wp_mono [OF deserialize]) (use frame [OF t] in auto)
    with True show ?thesis by (simp add: size min_def)
  next
    case False
    then show ?thesis by (simp add: size min_def)
  qed
  then have read: "wp (seq alloc (\<lambda>_. if min (fread_limit io) (unat n) \<noteq> unat n
      then fail FAILURE_FILE_IO else blockchain_deserialize bo now True (Some (wire_chain c)) n))
    (\<lambda>c' t. c' = c \<and> contents t = contents s) ?E s"
    by (intro wp_seqI wp_allocI) auto
  show ?thesis
  proof (cases "fopen_rb io name")
    case True
    with read show ?thesis
      unfolding blockchain_read_from_file_def
      by (simp del: wp_seq add: wp_seq [of get] assms(4) Let_def n_def [symmetric])
  next
    case False
    then show ?thesis by (simp add: blockchain_read_from_file_def)
  qed
qed

section \<open>Properties\<close>

text \<open>C10. What one node serializes another reads back: for a well-formed chain whose signatures
  state lengths that fit, on hosts of any byte orders, blockchain_serialize makes a buffer of
  16 bytes, 56 bytes for each block and 8728 bytes for each transaction, and
  blockchain_deserialize of that buffer, whatever follows it in memory, returns the same chain.
  Each of them can only fail by running out of memory.\<close>

theorem blockchain_round_trip:
  assumes "wf_blockchain c" and "signatures_fit (block_list c)" and "wire_chain_size c < 2 ^ 64"
  shows "wp (blockchain_serialize bo (Some c) True True)
    (\<lambda>(buffer, buffer_size) t. length buffer = wire_chain_size c \<and>
       unat buffer_size = length buffer \<and>
       wp (blockchain_deserialize bo' now True (Some (buffer @ rest)) buffer_size)
         (\<lambda>c' _. c' = c) (\<lambda>e _. e = FAILURE_COULD_NOT_MALLOC \<and> \<not> no_oom s) t)
    (\<lambda>e _. e = FAILURE_COULD_NOT_MALLOC \<and> \<not> no_oom s) s"
proof (rule wp_mono [OF wp_blockchain_serialize])
  fix v :: "u8 list \<times> u64" and t
  assume v: "v = (wire_chain c, of_nat (length (wire_chain c))) \<and> alloc_step s t"
  have size: "unat (of_nat (length (wire_chain c)) :: u64) = wire_chain_size c"
    using assms(3) by (simp add: length_wire_chain [OF assms(1)] unsigned_of_nat take_bit_eq_mod)
  have acc: "\<forall>b \<in> set (block_list c). \<forall>t \<in> set (transaction_list b). length_accepted 0 t"
    using assms(2) by (force simp: signatures_fit_def length_accepted_def size_defs dest: bspec)
  have "wp (blockchain_deserialize bo' now True (Some (wire_chain c @ rest))
        (of_nat (length (wire_chain c))))
      (\<lambda>c' _. c' = c) (\<lambda>e _. e = FAILURE_COULD_NOT_MALLOC \<and> \<not> no_oom t) t"
    by (rule wp_blockchain_deserialize [OF assms(1) acc]) (simp_all add: size)
  then have "wp (blockchain_deserialize bo' now True (Some (wire_chain c @ rest))
        (of_nat (length (wire_chain c))))
      (\<lambda>c' _. c' = c) (\<lambda>e _. e = FAILURE_COULD_NOT_MALLOC \<and> \<not> no_oom s) t"
    by (rule wp_mono) (use v in \<open>auto dest: alloc_step_no_oom\<close>)
  then show "(case v of (buffer, buffer_size) \<Rightarrow> \<lambda>t. length buffer = wire_chain_size c \<and>
       unat buffer_size = length buffer \<and>
       wp (blockchain_deserialize bo' now True (Some (buffer @ rest)) buffer_size)
         (\<lambda>c' _. c' = c) (\<lambda>e _. e = FAILURE_COULD_NOT_MALLOC \<and> \<not> no_oom s) t) t"
    using v size by (simp add: length_wire_chain [OF assms(1)])
qed auto

lemma toy_chain_size: "wire_chain_size (toy_chain [toy_mint]) = 8856"
  by (simp add: wire_chain_size_def wire_block_size_def)

theorem blockchain_round_trip_witness:
  "wp (blockchain_serialize Little_Endian (Some (toy_chain [toy_mint])) True True)
    (\<lambda>(buffer, buffer_size) t. length buffer = 8856 \<and>
       wp (blockchain_deserialize Big_Endian 7 True (Some (buffer @ [1, 2, 3])) buffer_size)
         (\<lambda>c' _. c' = toy_chain [toy_mint]) (\<lambda>_ _. False) t)
    (\<lambda>_ _. False) \<lparr>mallocs = [True, True, True]\<rparr>"
  by (rule wp_mono [OF blockchain_round_trip [of "toy_chain [toy_mint]" Little_Endian Big_Endian 7
          "[1, 2, 3]"]])
    (use toy_chain_facts in \<open>auto simp: toy_chain_size no_oom_def elim: wp_mono\<close>)

text \<open>C11. blockchain_deserialize inverts blockchain_serialize: whenever it returns a chain, on
  any input, the chain is well-formed and the input begins with exactly the bytes that
  blockchain_serialize writes for it, so no two encodings read as the same chain.\<close>

theorem blockchain_deserialize_canonical:
  assumes "blockchain_deserialize bo now True (Some mem) buffer_size s = (Ok c, t)"
  shows "wf_blockchain c \<and> take (wire_chain_size c) mem = wire_chain c \<and>
    wp (blockchain_serialize bo' (Some c) True True)
      (\<lambda>(buffer, _) _. take (length buffer) mem = buffer)
      (\<lambda>e _. e = FAILURE_COULD_NOT_MALLOC \<and> \<not> no_oom u) u"
proof -
  from wp_unless_D [OF blockchain_deserialize_reads assms]
  have wf: "wf_blockchain c" and "sits mem 0 (wire_chain c)" by auto
  then have "take (length (wire_chain c)) mem = wire_chain c" by (simp add: sits_0)
  then show ?thesis
    using wf by (auto simp: length_wire_chain intro: wp_mono [OF wp_blockchain_serialize])
qed

definition tiny_chain :: blockchain_t where
  "tiny_chain = \<lparr>block_list = [], num_leading_zero_bytes_required_in_block_hash = 2\<rparr>"

lemma tiny_chain_read:
  "\<exists>t. blockchain_deserialize Little_Endian 0 True
     (Some ([0, 0, 0, 0, 0, 0, 0, 2] @ replicate 8 0 @ [99])) 16 \<lparr>mallocs = []\<rparr> = (Ok tiny_chain, t)"
proof -
  have wire: "wire_chain tiny_chain = [0, 0, 0, 0, 0, 0, 0, 2] @ replicate 8 0"
    by (simp add: wire_chain_def tiny_chain_def be_bytes_u64 numeral_eq_Suc)
  have "wp (blockchain_deserialize Little_Endian 0 True (Some (wire_chain tiny_chain @ [99])) 16)
      (\<lambda>c _. c = tiny_chain) (\<lambda>_ _. False) \<lparr>mallocs = []\<rparr>"
    by (rule wp_mono [OF wp_blockchain_deserialize [where slack = 0]])
      (auto simp: wf_blockchain_def tiny_chain_def wire_chain_size_def)
  then show ?thesis by (auto simp: wp_Ok_iff wire)
qed

theorem blockchain_deserialize_canonical_witness:
  "wire_chain tiny_chain = take 16 ([0, 0, 0, 0, 0, 0, 0, 2] @ replicate 8 0 @ [99])"
proof -
  obtain t where "blockchain_deserialize Little_Endian 0 True
      (Some ([0, 0, 0, 0, 0, 0, 0, 2] @ replicate 8 0 @ [99])) 16 \<lparr>mallocs = []\<rparr> =
    (Ok tiny_chain, t)"
    using tiny_chain_read by blast
  from blockchain_deserialize_canonical [OF this, THEN conjunct2, THEN conjunct1] show ?thesis
    by (simp add: wire_chain_size_def tiny_chain_def)
qed

text \<open>C33. Reading a peer's bytes is memory safe up to one signature array: if at least 512 bytes of
  the object follow the buffer_size bytes the caller states, blockchain_deserialize has no
  undefined behaviour and returns, on every input; its errors are FAILURE_BUFFER_TOO_SMALL,
  FAILURE_SIGNATURE_TOO_LONG and running out of memory, and a chain it returns takes at most 512
  bytes more than stated.\<close>

theorem blockchain_deserialize_safe:
  assumes "unat buffer_size + MAX_SSH_SIGNATURE_LENGTH \<le> length mem"
  shows "wp (blockchain_deserialize bo now True (Some mem) buffer_size)
    (\<lambda>c _. wire_chain_size c \<le> unat buffer_size + MAX_SSH_SIGNATURE_LENGTH)
    (\<lambda>e _. e \<in> {FAILURE_BUFFER_TOO_SMALL, FAILURE_SIGNATURE_TOO_LONG} \<or>
       e = FAILURE_COULD_NOT_MALLOC \<and> \<not> no_oom s) s"
proof -
  have "\<not> short_buffer mem buffer_size"
    using assms by (simp add: short_buffer_def)
  from wp_unless_imp_wp [OF blockchain_deserialize_reads this] show ?thesis
    by (rule wp_mono) auto
qed

theorem blockchain_deserialize_safe_witness:
  "wp (blockchain_deserialize Little_Endian 0 True (Some (replicate 600 7)) 40)
    (\<lambda>c _. wire_chain_size c \<le> 552)
    (\<lambda>e _. e = FAILURE_BUFFER_TOO_SMALL \<or> e = FAILURE_SIGNATURE_TOO_LONG) \<lparr>mallocs = []\<rparr>"
  by (rule wp_mono [OF blockchain_deserialize_safe [of 40 "replicate 600 7"]])
    (auto simp: size_defs)

text \<open>The bound of 512 bytes is reached, because the check before the signature array is read
  asks for the stated length of the signature only: cut at most 512 - length bytes off the
  serialization of a chain that ends with a transaction whose signature has that length, and
  blockchain_deserialize reads past the end of the buffer.\<close>

theorem cut_signature_is_overread:
  assumes "wf_blockchain c" and "signatures_fit (block_list c)" and "wire_chain_size c < 2 ^ 64"
    and "block_list c \<noteq> []" and "transaction_list (last (block_list c)) \<noteq> []"
    and "0 < missing" and "missing + unat (sig_length (sender_signature
      (last (transaction_list (last (block_list c)))))) \<le> MAX_SSH_SIGNATURE_LENGTH"
    and "no_oom s"
  shows "fst (blockchain_deserialize bo now True
      (Some (take (wire_chain_size c - missing) (wire_chain c))) (of_nat (wire_chain_size c - missing)) s) =
    Undefined"
proof -
  obtain bl b where bl: "block_list c = bl @ [b]"
    using assms(4) by (metis rev_exhaust)
  obtain ts t where ts: "transaction_list b = ts @ [t]"
    using assms(5) bl by (metis last_snoc rev_exhaust)
  have size: "MAX_SSH_SIGNATURE_LENGTH \<le> wire_chain_size c"
    by (simp add: wire_chain_size_def bl wire_block_size_def ts size_defs)
  define n :: u64 where "n = of_nat (wire_chain_size c - missing)"
  have n: "unat n = wire_chain_size c - missing"
    unfolding n_def using assms(3) by (simp add: unsigned_of_nat take_bit_eq_mod del: of_nat_diff)
  have "sits (take (wire_chain_size c - missing) (wire_chain c)) 0
      (take (wire_chain_size c - MAX_SSH_SIGNATURE_LENGTH) (wire_chain c))"
    using assms(7) by (simp add: sits_0 length_wire_chain [OF assms(1)] min_def)
  then show ?thesis
    unfolding n_def [symmetric] using assms size
    by (intro blockchain_deserialize_undefined [OF assms(8,1) bl ts assms(2),
          unfolded undefined_at_def])
      (auto simp: n bl ts length_wire_chain)
qed

theorem cut_signature_is_overread_witness:
  "fst (blockchain_deserialize Little_Endian 0 True
      (Some (take 8355 (wire_chain (toy_chain [toy_mint])))) 8355 \<lparr>mallocs = []\<rparr>) = Undefined"
  using cut_signature_is_overread [OF toy_chain_facts(2,4), where s = "\<lparr>mallocs = []\<rparr>" and missing = 501
      and bo = Little_Endian and now = 0]
  by (simp add: toy_chain_size size_defs)

text \<open>C38. A transaction may state a signature longer than the 512 bytes it carries: up to 4096 is
  accepted when enough bytes follow. The chain is then read as sent, and checking that
  signature reads past the end of the transaction whenever OpenSSL reads the sender's key.\<close>

theorem oversized_signature_accepted:
  assumes "wf_blockchain c"
    and "\<forall>b \<in> set (block_list c). \<forall>t \<in> set (transaction_list b).
      unat (sig_length (sender_signature t)) \<le> MAX_SSH_KEY_LENGTH"
    and "length rest = MAX_SSH_KEY_LENGTH - MAX_SSH_SIGNATURE_LENGTH"
    and "wire_chain_size c + length rest < 2 ^ 64"
  shows "wp (blockchain_deserialize bo now True (Some (wire_chain c @ rest))
      (of_nat (length (wire_chain c @ rest))))
    (\<lambda>c' _. c' = c) (\<lambda>e _. e = FAILURE_COULD_NOT_MALLOC \<and> \<not> no_oom s) s \<and>
   (\<forall>b \<in> set (block_list c). \<forall>t \<in> set (transaction_list b).
     MAX_SSH_SIGNATURE_LENGTH < unat (sig_length (sender_signature t)) \<and> bio_new ssl \<and>
     md_ctx_new ssl \<and> verify_init ssl \<and> verify_update ssl \<and>
     read_public_key ssl (sender_public_key t) \<noteq> None \<longrightarrow>
     fst (transaction_verify_signature ssl bo True (Some t) u) = Undefined)"
proof (intro conjI ballI impI)
  define n :: u64 where "n = of_nat (length (wire_chain c @ rest))"
  have n: "unat n = wire_chain_size c + length rest"
    unfolding n_def using assms(4)
    by (simp add: length_wire_chain [OF assms(1)] unsigned_of_nat take_bit_eq_mod del: of_nat_add)
  show "wp (blockchain_deserialize bo now True (Some (wire_chain c @ rest))
      (of_nat (length (wire_chain c @ rest))))
    (\<lambda>c' _. c' = c) (\<lambda>e _. e = FAILURE_COULD_NOT_MALLOC \<and> \<not> no_oom s) s"
    unfolding n_def [symmetric]
    by (rule wp_blockchain_deserialize [OF assms(1), where slack = "length rest"])
      (use assms(2) in \<open>auto simp: n assms(3) length_accepted_def size_defs\<close>)
next
  fix b t
  assume "b \<in> set (block_list c)" and "t \<in> set (transaction_list b)"
    and t: "MAX_SSH_SIGNATURE_LENGTH < unat (sig_length (sender_signature t)) \<and> bio_new ssl \<and>
      md_ctx_new ssl \<and> verify_init ssl \<and> verify_update ssl \<and>
      read_public_key ssl (sender_public_key t) \<noteq> None"
  then have "unat (sig_length (sender_signature t)) \<le> 4096"
    using assms(2) by (auto simp: size_defs)
  then have "unat (ucast (sig_length (sender_signature t)) :: u32) =
      unat (sig_length (sender_signature t))"
    by (simp add: unsigned_ucast_eq take_bit_eq_mod)
  with t show "fst (transaction_verify_signature ssl bo True (Some t) u) = Undefined"
    by (auto simp: transaction_verify_signature_def Let_def undef_def)
qed

definition oversized_mint :: transaction_t where
  "oversized_mint = toy_mint\<lparr>sender_signature := \<lparr>sig_length = 513, sig_bytes = replicate 512 0\<rparr>\<rparr>"

theorem oversized_signature_accepted_witness:
  "wp (blockchain_deserialize Little_Endian 0 True
      (Some (wire_chain (toy_chain [oversized_mint]) @ replicate 3584 0)) 12440)
    (\<lambda>c _. c = toy_chain [oversized_mint]) (\<lambda>_ _. False) \<lparr>mallocs = []\<rparr> \<and>
   fst (transaction_verify_signature (toy_ssl 4) Little_Endian True (Some oversized_mint) ()) = Undefined"
proof -
  let ?c = "toy_chain [oversized_mint]"
  have mint: "wf_transaction oversized_mint"
    using wf_toy_mint by (simp add: wf_transaction_def oversized_mint_def size_defs)
  have wf: "wf_blockchain ?c"
    by (simp add: wf_blockchain_def wf_toy_genesis wf_toy_block mint)
  have size: "wire_chain_size ?c = 8856"
    by (simp add: wire_chain_size_def wire_block_size_def)
  have len: "sig_length (sender_signature oversized_mint) = 513"
    by (simp add: oversized_mint_def)
  note both = oversized_signature_accepted [OF wf, of "replicate 3584 0" Little_Endian 0
      "\<lparr>mallocs = []\<rparr>" "toy_ssl 4" "()"]
  have "wp (blockchain_deserialize Little_Endian 0 True (Some (wire_chain ?c @ replicate 3584 0)) 12440)
      (\<lambda>c' _. c' = ?c) (\<lambda>e _. e = FAILURE_COULD_NOT_MALLOC \<and> \<not> no_oom \<lparr>mallocs = []\<rparr>) \<lparr>mallocs = []\<rparr>"
    using both [THEN conjunct1] by (simp add: size len size_defs length_wire_chain [OF wf])
  moreover have "fst (transaction_verify_signature (toy_ssl 4) Little_Endian True
      (Some oversized_mint) ()) = Undefined"
    using both [THEN conjunct2] by (simp add: size len size_defs toy_ssl_def)
  ultimately show ?thesis by (auto elim: wp_mono)
qed

text \<open>A chain written to a file is read back: when the file can be opened and is transferred as
  a whole, blockchain_read_from_file after blockchain_write_to_file returns the chain; a short
  write or read is reported as FAILURE_FILE_IO.\<close>

theorem chain_file_round_trip:
  assumes "wf_blockchain c" and "signatures_fit (block_list c)" and "wire_chain_size c < 2 ^ 64"
  shows "wp (seq (blockchain_write_to_file bo io (Some c) (Some name)) (\<lambda>_.
      blockchain_read_from_file bo' now io True (Some name)))
    (\<lambda>c' t. c' = c \<and> contents t = (contents s)(name \<mapsto> wire_chain c))
    (\<lambda>e _. e = FAILURE_COULD_NOT_MALLOC \<and> \<not> no_oom s \<or> e = FAILURE_FILE_IO \<and>
       \<not> (fopen_wb io name \<and> fopen_rb io name \<and> wire_chain_size c \<le> fwrite_limit io \<and>
          wire_chain_size c \<le> fread_limit io)) s"
  by (rule wp_seqI, rule wp_mono [OF wp_blockchain_write_to_file [OF assms(1,3)]],
      rule wp_mono [OF wp_blockchain_read_from_file [OF assms]]) auto

theorem chain_file_round_trip_witness:
  "wp (seq (blockchain_write_to_file Little_Endian \<lparr>fopen_wb = \<lambda>_. True, fopen_rb = \<lambda>_. True,
        fwrite_limit = 9000, fread_limit = 9000\<rparr> (Some (toy_chain [toy_mint])) (Some ''chain''))
      (\<lambda>_. blockchain_read_from_file Big_Endian 3 \<lparr>fopen_wb = \<lambda>_. True, fopen_rb = \<lambda>_. True,
        fwrite_limit = 9000, fread_limit = 9000\<rparr> True (Some ''chain'')))
    (\<lambda>c _. c = toy_chain [toy_mint]) (\<lambda>_ _. False) \<lparr>mallocs = [], contents = Map.empty\<rparr>"
  by (rule wp_mono [OF chain_file_round_trip [OF toy_chain_facts(2,4)]])
    (auto simp: toy_chain_size)

end
