(* ===== verification/Peer_Discovery.thy ===== *)
theory Peer_Discovery
  imports List_Refinement Cursor
begin

text \<open>
  src/peer_discovery.c: the peers a node knows, how they are compared, and the wire format of a
  peer list. A \<open>time_t\<close> is kept as its 64 bits. As in the chain codec, a list is the sequence of
  its data; List_Refinement justifies this for the functions used here, which only create a
  list, append to it, take its length and walk over it.
\<close>

section \<open>Data\<close>

record sockaddr_in6 =
  sin6_family :: u16
  sin6_port :: u16
  sin6_flowinfo :: u32
  sin6_addr :: "u8 list"
  sin6_scope_id :: u32

record peer_info_t =
  listen_addr :: sockaddr_in6
  last_connected :: u64

definition IN6_ADDR_BYTES :: nat where
  "IN6_ADDR_BYTES = 16"

definition SOCKADDR_IN6_BYTES :: nat where
  "SOCKADDR_IN6_BYTES = 28"

definition wf_peer :: "peer_info_t \<Rightarrow> bool" where
  "wf_peer p \<longleftrightarrow> length (sin6_addr (listen_addr p)) = IN6_ADDR_BYTES"

text \<open>The 28 bytes of the struct in memory.\<close>

definition sockaddr_image :: "byte_order \<Rightarrow> sockaddr_in6 \<Rightarrow> u8 list" where
  "sockaddr_image bo a = mem_of_word bo (sin6_family a) @ mem_of_word bo (sin6_port a) @
     mem_of_word bo (sin6_flowinfo a) @ sin6_addr a @ mem_of_word bo (sin6_scope_id a)"

text \<open>What a pointer to a peer points to: an object that is alive, or one that was freed.\<close>

datatype 'a pointee = Live 'a | Freed

text \<open>Arguments are pointers, \<open>None\<close> the null pointer; the result is \<open>None\<close> where a freed object
  is read.\<close>

definition compare_peer_info_t ::
  "byte_order \<Rightarrow> peer_info_t pointee option \<Rightarrow> peer_info_t pointee option \<Rightarrow> int option" where
  "compare_peer_info_t bo peer1 peer2 =
     (case (peer1, peer2) of
        (Some (Live p1), Some (Live p2)) \<Rightarrow>
          Some (compare_bytes
            (take SOCKADDR_IN6_BYTES (sockaddr_image bo (listen_addr p1)))
            (take SOCKADDR_IN6_BYTES (sockaddr_image bo (listen_addr p2))))
      | (Some _, Some _) \<Rightarrow> None
      | _ \<Rightarrow> Some 0)"

section \<open>The wire format\<close>

definition wire_peer :: "peer_info_t \<Rightarrow> u8 list" where
  "wire_peer p = be_bytes (sin6_family (listen_addr p)) @ be_bytes (sin6_port (listen_addr p)) @
     be_bytes (sin6_flowinfo (listen_addr p)) @ sin6_addr (listen_addr p) @
     be_bytes (sin6_scope_id (listen_addr p)) @ be_bytes (last_connected p)"

definition wire_peers :: "peer_info_t list \<Rightarrow> u8 list" where
  "wire_peers ps = be_bytes (of_nat (length ps) :: u64) @ concat (map wire_peer ps)"

section \<open>Serialization\<close>

fun serialize_peers ::
  "byte_order \<Rightarrow> u8 list \<Rightarrow> peer_info_t list \<Rightarrow> ('z env_scheme, u8 list) prog" where
  "serialize_peers bo buffer [] = ret buffer"
| "serialize_peers bo buffer (p # ps) =
     seq alloc (\<lambda>_.
     serialize_peers bo
       (buffer @ store_u16 bo (sin6_family (listen_addr p)) @
        store_u16 bo (sin6_port (listen_addr p)) @ store_u32 bo (sin6_flowinfo (listen_addr p)) @
        take IN6_ADDR_BYTES (sin6_addr (listen_addr p)) @
        store_u32 bo (sin6_scope_id (listen_addr p)) @ store_u64 bo (last_connected p)) ps)"

definition peer_info_list_serialize ::
  "byte_order \<Rightarrow> peer_info_t list option \<Rightarrow> bool \<Rightarrow> bool \<Rightarrow> ('z env_scheme, u8 list \<times> u64) prog" where
  "peer_info_list_serialize bo peer_info_list buffer buffer_size =
     (case peer_info_list of
        None \<Rightarrow> fail FAILURE_INVALID_INPUT
      | Some ps \<Rightarrow>
          if \<not> buffer \<or> \<not> buffer_size then fail FAILURE_INVALID_INPUT
          else
            seq (ll_length ps) (\<lambda>num_peers.
            seq alloc (\<lambda>_.
            seq (serialize_peers bo (store_u64 bo num_peers) ps) (\<lambda>serialization_buffer.
            ret (serialization_buffer, of_nat (length serialization_buffer))))))"

section \<open>Deserialization\<close>

definition deserialize_peer :: "byte_order \<Rightarrow> u8 list \<Rightarrow> u64 \<Rightarrow> (reader, peer_info_t) prog" where
  "deserialize_peer bo mem buffer_size =
     seq (need buffer_size 2) (\<lambda>_.
     seq (read_u16 bo mem) (\<lambda>family.
     seq (need buffer_size 2) (\<lambda>_.
     seq (read_u16 bo mem) (\<lambda>port.
     seq (need buffer_size 4) (\<lambda>_.
     seq (read_u32 bo mem) (\<lambda>flowinfo.
     seq (need buffer_size IN6_ADDR_BYTES) (\<lambda>_.
     seq (read_bytes mem IN6_ADDR_BYTES) (\<lambda>addr.
     seq (need buffer_size 4) (\<lambda>_.
     seq (read_u32 bo mem) (\<lambda>scope_id.
     seq (need buffer_size 8) (\<lambda>_.
     seq (read_u64 bo mem) (\<lambda>connected.
     seq alloc (\<lambda>_.
     ret \<lparr>listen_addr = \<lparr>sin6_family = family, sin6_port = port, sin6_flowinfo = flowinfo,
            sin6_addr = addr, sin6_scope_id = scope_id\<rparr>, last_connected = connected\<rparr>)))))))))))))"

primrec deserialize_peers ::
  "byte_order \<Rightarrow> u8 list \<Rightarrow> u64 \<Rightarrow> nat \<Rightarrow> peer_info_t list \<Rightarrow> (reader, peer_info_t list) prog" where
  "deserialize_peers bo mem buffer_size 0 ps = ret ps"
| "deserialize_peers bo mem buffer_size (Suc n) ps =
     seq (deserialize_peer bo mem buffer_size) (\<lambda>p.
     seq (ll_append ps p) (\<lambda>ps.
     deserialize_peers bo mem buffer_size n ps))"

definition peer_info_list_deserialize ::
  "byte_order \<Rightarrow> bool \<Rightarrow> u8 list option \<Rightarrow> u64 \<Rightarrow> ('z env_scheme, peer_info_t list) prog" where
  "peer_info_list_deserialize bo out buffer buffer_size =
     (case buffer of
        None \<Rightarrow> fail FAILURE_INVALID_INPUT
      | Some mem \<Rightarrow>
          if \<not> out then fail FAILURE_INVALID_INPUT
          else with_cursor (
            seq (need buffer_size 8) (\<lambda>_.
            seq (read_u64 bo mem) (\<lambda>num_peers.
            seq ll_create (\<lambda>ps.
            deserialize_peers bo mem buffer_size (unat num_peers) ps)))))"

section \<open>Comparison\<close>

lemma length_sockaddr_image:
  "wf_peer p \<Longrightarrow> length (sockaddr_image bo (listen_addr p)) = SOCKADDR_IN6_BYTES"
  by (simp add: wf_peer_def sockaddr_image_def length_bytes IN6_ADDR_BYTES_def SOCKADDR_IN6_BYTES_def)

lemma sockaddr_image_inject:
  assumes "length (sin6_addr a) = length (sin6_addr b)"
  shows "sockaddr_image bo a = sockaddr_image bo b \<longleftrightarrow> a = b"
  using assms
  by (cases a; cases b) (auto simp: sockaddr_image_def length_bytes mem_of_word_inject)

lemma compare_live:
  assumes "wf_peer p" and "wf_peer q"
  shows "\<exists>c. compare_peer_info_t bo (Some (Live p)) (Some (Live q)) = Some c \<and>
    (c = 0 \<longleftrightarrow> listen_addr p = listen_addr q)"
  using assms length_sockaddr_image [of p bo] length_sockaddr_image [of q bo]
  by (auto simp: compare_peer_info_t_def compare_bytes_eq_0_iff sockaddr_image_inject wf_peer_def)

section \<open>Serialization writes the format\<close>

lemma length_wire_peer: "wf_peer p \<Longrightarrow> length (wire_peer p) = 36"
  by (simp add: wire_peer_def wf_peer_def length_bytes IN6_ADDR_BYTES_def)

lemma length_concat_wire_peer:
  "\<forall>p \<in> set ps. wf_peer p \<Longrightarrow> length (concat (map wire_peer ps)) = 36 * length ps"
  by (induction ps) (simp_all add: length_wire_peer)

lemma length_wire_peers:
  "\<forall>p \<in> set ps. wf_peer p \<Longrightarrow> length (wire_peers ps) = 8 + 36 * length ps"
  by (simp add: wire_peers_def length_bytes length_concat_wire_peer)

lemma wp_serialize_peers:
  assumes "\<forall>p \<in> set ps. wf_peer p"
  shows "wp (serialize_peers bo buffer ps)
     (\<lambda>v t. v = buffer @ concat (map wire_peer ps) \<and> alloc_step s t)
     (\<lambda>e t. e = FAILURE_COULD_NOT_MALLOC \<and> \<not> no_oom s \<and> alloc_step s t) s"
  using assms
proof (induction ps arbitrary: buffer s)
  case Nil
  then show ?case by simp
next
  case (Cons p ps)
  have "take IN6_ADDR_BYTES (sin6_addr (listen_addr p)) = sin6_addr (listen_addr p)"
    using Cons.prems by (simp add: wf_peer_def)
  then show ?case
    by (simp, intro wp_allocI, intro wp_mono [OF Cons.IH])
      (use Cons.prems in \<open>auto simp: wire_peer_def [of p] intro: alloc_step_trans
        dest: alloc_step_no_oom\<close>)
qed

lemma wp_peer_info_list_serialize:
  assumes "\<forall>p \<in> set ps. wf_peer p"
  shows "wp (peer_info_list_serialize bo (Some ps) True True)
     (\<lambda>v t. v = (wire_peers ps, of_nat (length (wire_peers ps))) \<and> alloc_step s t)
     (\<lambda>e t. e = FAILURE_COULD_NOT_MALLOC \<and> \<not> no_oom s \<and> alloc_step s t) s"
  by (simp add: peer_info_list_serialize_def, rule wp_allocI, rule wp_seqI,
      rule wp_mono [OF wp_serialize_peers [OF assms]])
    (auto simp: wire_peers_def intro: alloc_step_trans dest: alloc_step_no_oom)

section \<open>Deserialization reads it back\<close>

lemma unat_of_nat_bounded: "n \<le> unat (bs :: u64) \<Longrightarrow> unat (of_nat n :: u64) = n"
  by (metis le_less_trans of_nat_inverse unsigned_less)

abbreviation no_memory :: "reader \<Rightarrow> return_code_t \<Rightarrow> reader \<Rightarrow> bool" where
  "no_memory s e t \<equiv> e = FAILURE_COULD_NOT_MALLOC \<and> \<not> no_oom s"

lemma alloc_step_pos_no_oom: "alloc_step (s\<lparr>pos := k\<rparr>) t \<Longrightarrow> no_oom s \<Longrightarrow> no_oom t"
  by (drule alloc_step_no_oom) simp_all

lemma wp_deserialize_peer:
  assumes "wf_peer p" and "sits mem (pos s) (wire_peer p)" and "pos s + 36 \<le> unat bs"
  shows "wp (deserialize_peer bo mem bs)
    (\<lambda>v u. v = p \<and> pos u = pos s + 36 \<and> (no_oom s \<longrightarrow> no_oom u)) (no_memory s) s"
proof -
  have len: "length (sin6_addr (listen_addr p)) = 16"
    using assms(1) by (simp add: wf_peer_def IN6_ADDR_BYTES_def)
  have "pos s + 36 \<le> length mem"
    using sits_length [OF assms(2)] length_wire_peer [OF assms(1)] by force
  moreover have "of_be_bytes (take 2 (drop (pos s) mem)) = sin6_family (listen_addr p)"
    and "of_be_bytes (take 2 (drop (pos s + 2) mem)) = sin6_port (listen_addr p)"
    and "of_be_bytes (take 4 (drop (4 + pos s) mem)) = sin6_flowinfo (listen_addr p)"
    and "take 16 (drop (8 + pos s) mem) = sin6_addr (listen_addr p)"
    and "of_be_bytes (take 4 (drop (24 + pos s) mem)) = sin6_scope_id (listen_addr p)"
    and "of_be_bytes (take 8 (drop (28 + pos s) mem)) = last_connected p"
    using assms(2)
    by (auto simp: wire_peer_def sits_append len sits_take_eq ac_simps
        simp del: add_2_eq_Suc add_2_eq_Suc' intro!: of_be_bytes_sits)
  ultimately show ?thesis
    unfolding deserialize_peer_def
    using assms(3)
    by (auto simp: IN6_ADDR_BYTES_def alloc_step_pos simp del: add_2_eq_Suc add_2_eq_Suc'
        intro!: wp_allocI dest: alloc_step_pos_no_oom)
qed

lemma wp_deserialize_peers:
  assumes "\<forall>p \<in> set ps. wf_peer p" and "sits mem (pos s) (concat (map wire_peer ps))"
    and "pos s + 36 * length ps \<le> unat bs"
  shows "wp (deserialize_peers bo mem bs (length ps) qs)
    (\<lambda>v u. v = qs @ ps \<and> (no_oom s \<longrightarrow> no_oom u)) (no_memory s) s"
  using assms
proof (induction ps arbitrary: qs s)
  case Nil
  then show ?case by simp
next
  case (Cons p ps)
  have p: "wf_peer p" "sits mem (pos s) (wire_peer p)"
    "sits mem (pos s + 36) (concat (map wire_peer ps))"
    using Cons.prems by (simp_all add: sits_append length_wire_peer)
  have rest: "wp (seq (ll_append qs p) (deserialize_peers bo mem bs (length ps)))
      (\<lambda>v u. v = qs @ p # ps \<and> (no_oom s \<longrightarrow> no_oom u)) (no_memory s) u"
    if u: "pos u = pos s + 36" "no_oom s \<longrightarrow> no_oom u" for u
  proof (intro wp_seqI wp_ll_appendI)
    fix w assume w: "alloc_step u w"
    show "wp (deserialize_peers bo mem bs (length ps) (qs @ [p]))
      (\<lambda>v u. v = qs @ p # ps \<and> (no_oom s \<longrightarrow> no_oom u)) (no_memory s) w"
      by (rule wp_mono [OF Cons.IH])
        (use Cons.prems p u alloc_step_pos [OF w] alloc_step_no_oom [OF w] in auto)
  qed (use u in auto)
  show ?case
    by (simp del: wp_seq, intro wp_seqI wp_mono [OF wp_deserialize_peer [OF p(1,2)]])
      (use Cons.prems(3) rest in auto)
qed

lemma wp_peer_info_list_deserialize:
  assumes "\<forall>p \<in> set ps. wf_peer p" and "sits mem 0 (wire_peers ps)"
    and "length (wire_peers ps) \<le> unat bs"
  shows "wp (peer_info_list_deserialize bo True (Some mem) bs)
    (\<lambda>v t. v = ps) (\<lambda>e t. e = FAILURE_COULD_NOT_MALLOC \<and> \<not> no_oom s) (s :: 'z env_scheme)"
proof -
  have len: "8 + 36 * length ps \<le> unat bs"
    using assms(3) by (simp add: length_wire_peers [OF assms(1)])
  then have n: "unat (of_nat (length ps) :: u64) = length ps"
    by (intro unat_of_nat_bounded [of _ bs]) simp
  have "8 \<le> length mem"
    using sits_length [OF assms(2)] length_wire_peers [OF assms(1)]
    by (cases "wire_peers ps") auto
  moreover have "of_be_bytes (take 8 mem) = (of_nat (length ps) :: u64)"
    using of_be_bytes_sits [of mem 0 "of_nat (length ps) :: u64" 8] assms(2)
    by (simp add: wire_peers_def sits_append)
  moreover have "wp (deserialize_peers bo mem bs (length ps) []) (\<lambda>v u. v = ps)
      (\<lambda>e u. e = FAILURE_COULD_NOT_MALLOC \<and> \<not> no_oom s) u"
    if "alloc_step \<lparr>mallocs = mallocs s, pos = 8\<rparr> u" for u
    by (rule wp_mono [OF wp_deserialize_peers [OF assms(1)]])
      (use that len assms(2) alloc_step_no_oom [OF that] in
        \<open>auto simp: alloc_step_pos wire_peers_def sits_append length_bytes\<close>)
  ultimately show ?thesis
    unfolding peer_info_list_deserialize_def
    using len by (auto simp: n intro!: wp_ll_createI)
qed

section \<open>Deserialization leaves the connection alone\<close>

lemma takes_deserialize_peers [takes]: "takes_mallocs (deserialize_peers bo mem bs n ps)"
proof (induction n arbitrary: ps)
  case 0
  then show ?case by (simp add: takes)
next
  case (Suc n)
  then show ?case
    unfolding deserialize_peers.simps deserialize_peer_def ll_append_def by (intro takes)
qed

lemma peer_info_list_deserialize_frame:
  "alloc_step s (snd (peer_info_list_deserialize bo True (Some mem) bs s))"
  unfolding peer_info_list_deserialize_def ll_create_def
  by (simp, intro takes_with_cursor takes)

section \<open>Whatever a bootstrap server sends\<close>

text \<open>\<open>peers_read mem bs s u xs\<close>: the bytes from the cursor of \<open>s\<close> to that of \<open>u\<close> are \<open>xs\<close>, and
  the cursor has not gone further than the stated size.\<close>

definition peers_read :: "u8 list \<Rightarrow> u64 \<Rightarrow> reader \<Rightarrow> reader \<Rightarrow> u8 list \<Rightarrow> bool" where
  "peers_read mem bs s u xs \<longleftrightarrow> sits mem (pos s) xs \<and> pos u = pos s + length xs \<and>
     (pos s \<le> unat bs \<longrightarrow> pos u \<le> unat bs) \<and> (no_oom s \<longrightarrow> no_oom u)"

lemma peers_read_append:
  "peers_read mem bs s t xs \<Longrightarrow> peers_read mem bs t u ys \<Longrightarrow> peers_read mem bs s u (xs @ ys)"
  by (auto simp: peers_read_def sits_append)

lemma peers_read_alloc: "peers_read mem bs s t xs \<Longrightarrow> alloc_step t u \<Longrightarrow> peers_read mem bs s u xs"
  by (auto simp: peers_read_def alloc_step_pos dest: alloc_step_no_oom)

lemma peers_read_no_oom: "peers_read mem bs s t xs \<Longrightarrow> no_oom s \<Longrightarrow> no_oom t"
  by (simp add: peers_read_def)

abbreviation peer_error :: "reader \<Rightarrow> return_code_t \<Rightarrow> reader \<Rightarrow> bool" where
  "peer_error s e t \<equiv> e = FAILURE_BUFFER_TOO_SMALL \<or> no_memory s e t"

lemma deserialize_peer_reads:
  "wp_unless (length mem < unat bs) (deserialize_peer bo mem bs)
    (\<lambda>p u. wf_peer p \<and> peers_read mem bs s u (wire_peer p)) (peer_error s) s"
  unfolding deserialize_peer_def
  by (intro wp_unless_seqI wp_unless_allocI)
    (auto simp: IN6_ADDR_BYTES_def wf_peer_def wire_peer_def peers_read_def sits_append length_bytes
      alloc_step_pos sits_take sits_be_bytes ac_simps dest: alloc_step_pos_no_oom intro!: wp_unless_allocI)

lemma alloc_step_reader:
  "alloc_step \<lparr>mallocs = mallocs (s :: 'z env_scheme), pos = k\<rparr> t \<Longrightarrow>
    pos t = k \<and> (no_oom s \<longrightarrow> no_oom t)"
  using alloc_step_no_oom [of "\<lparr>mallocs = mallocs s, pos = k\<rparr>" t] by (auto simp: alloc_step_pos)

lemma deserialize_peers_reads:
  "wp_unless (length mem < unat bs) (deserialize_peers bo mem bs n qs)
    (\<lambda>v u. \<exists>ps. v = qs @ ps \<and> length ps = n \<and> (\<forall>p \<in> set ps. wf_peer p) \<and>
       peers_read mem bs s u (concat (map wire_peer ps))) (peer_error s) s"
proof (induction n arbitrary: qs s)
  case 0
  then show ?case by (auto simp: peers_read_def)
next
  case (Suc n)
  let ?Q = "\<lambda>v u. \<exists>ps. v = qs @ ps \<and> length ps = Suc n \<and> (\<forall>p \<in> set ps. wf_peer p) \<and>
       peers_read mem bs s u (concat (map wire_peer ps))"
  have "wp_unless (length mem < unat bs) (deserialize_peers bo mem bs n (qs @ [p])) ?Q
      (peer_error s) w"
    if p: "wf_peer p" and w: "peers_read mem bs s w (wire_peer p)" for p w
  proof (rule wp_unless_mono [OF Suc.IH], goal_cases)
    case (1 v x)
    then obtain ps where "v = qs @ p # ps" "length ps = n" "\<forall>p \<in> set ps. wf_peer p"
      "peers_read mem bs w x (concat (map wire_peer ps))" by auto
    then show ?case
      using p peers_read_append [OF w] by (intro exI [of _ "p # ps"]) auto
  next
    case (2 e x)
    then show ?case using w by (auto simp: peers_read_def)
  qed
  then show ?case
    unfolding deserialize_peers.simps
    by (intro wp_unless_seqI, intro wp_unless_mono [OF deserialize_peer_reads])
      (auto intro!: wp_imp_wp_unless [OF wp_ll_appendI] intro: peers_read_alloc
        dest: peers_read_no_oom)
qed

lemma peer_info_list_deserialize_reads:
  "wp_unless (length mem < unat bs) (peer_info_list_deserialize bo True (Some mem) bs)
    (\<lambda>ps t. (\<forall>p \<in> set ps. wf_peer p) \<and> sits mem 0 (wire_peers ps) \<and>
       8 + 36 * length ps \<le> unat bs \<and> unat (of_be_bytes (take 8 mem) :: u64) = length ps)
    (\<lambda>e t. e = FAILURE_BUFFER_TOO_SMALL \<or> e = FAILURE_COULD_NOT_MALLOC \<and> \<not> no_oom s)
    (s :: 'z env_scheme)"
proof -
  let ?n = "of_be_bytes (take 8 mem) :: u64"
  have "wp_unless (length mem < unat bs) (deserialize_peers bo mem bs (unat ?n) [])
    (\<lambda>ps t. (\<forall>p \<in> set ps. wf_peer p) \<and> sits mem 0 (wire_peers ps) \<and>
       8 + 36 * length ps \<le> unat bs \<and> unat ?n = length ps)
    (\<lambda>e t. e = FAILURE_BUFFER_TOO_SMALL \<or> e = FAILURE_COULD_NOT_MALLOC \<and> \<not> no_oom s) r"
    if r: "pos r = 8" "8 \<le> unat bs" "8 \<le> length mem" "no_oom s \<longrightarrow> no_oom r" for r
  proof (rule wp_unless_mono [OF deserialize_peers_reads], goal_cases)
    case (1 ps u)
    then have ps: "length ps = unat ?n" "\<forall>p \<in> set ps. wf_peer p"
      "peers_read mem bs r u (concat (map wire_peer ps))" by auto
    from ps(1) have "(of_nat (length ps) :: u64) = ?n" by simp
    then show ?case
      using ps r sits_be_bytes [of 8 0 mem, where ?'a = 64]
      by (auto simp: wire_peers_def sits_append peers_read_def length_concat_wire_peer)
  qed (use r in auto)
  then show ?thesis
    by (auto simp: peer_info_list_deserialize_def
        intro!: wp_imp_wp_unless [OF wp_ll_createI] dest: alloc_step_reader)
qed

section \<open>Properties\<close>

text \<open>A peer list is read back as it was sent: for well-formed peers, on hosts of any byte
  orders, peer_info_list_serialize makes a buffer of 8 bytes and 36 for each peer, and
  peer_info_list_deserialize of it, whatever follows it in memory, returns the same peers in the
  same order. Each of them can only fail by running out of memory.\<close>

theorem peer_list_round_trip:
  assumes "\<forall>p \<in> set ps. wf_peer p" and "8 + 36 * length ps < 2 ^ 64"
  shows "wp (peer_info_list_serialize bo (Some ps) True True)
    (\<lambda>(buffer, buffer_size) t. length buffer = 8 + 36 * length ps \<and>
       unat buffer_size = length buffer \<and>
       wp (peer_info_list_deserialize bo' True (Some (buffer @ rest)) buffer_size)
         (\<lambda>ps' _. ps' = ps) (\<lambda>e _. e = FAILURE_COULD_NOT_MALLOC \<and> \<not> no_oom s) t)
    (\<lambda>e _. e = FAILURE_COULD_NOT_MALLOC \<and> \<not> no_oom s) (s :: 'z env_scheme)"
proof (rule wp_mono [OF wp_peer_info_list_serialize [OF assms(1)]], goal_cases)
  case (1 v t)
  have size: "unat (of_nat (length (wire_peers ps)) :: u64) = length (wire_peers ps)"
    using assms(2) unfolding length_wire_peers [OF assms(1)]
    by (simp only: unsigned_of_nat take_bit_eq_mod) simp
  have "wp (peer_info_list_deserialize bo' True (Some (wire_peers ps @ rest))
        (of_nat (length (wire_peers ps))))
      (\<lambda>ps' _. ps' = ps) (\<lambda>e _. e = FAILURE_COULD_NOT_MALLOC \<and> \<not> no_oom s) t"
    by (rule wp_mono [OF wp_peer_info_list_deserialize [OF assms(1)]])
      (use 1 size in \<open>auto dest: alloc_step_no_oom\<close>)
  then show ?case
    using 1 size by (simp add: length_wire_peers [OF assms(1)])
qed auto

definition peer_a :: peer_info_t where
  "peer_a = \<lparr>listen_addr = \<lparr>sin6_family = 10, sin6_port = 23556, sin6_flowinfo = 0,
     sin6_addr = replicate 15 0 @ [1], sin6_scope_id = 0\<rparr>, last_connected = 1000\<rparr>"

definition peer_b :: peer_info_t where
  "peer_b = \<lparr>listen_addr = \<lparr>sin6_family = 10, sin6_port = 23557, sin6_flowinfo = 1,
     sin6_addr = replicate 16 254, sin6_scope_id = 3\<rparr>, last_connected = 900\<rparr>"

lemma wf_peer_samples [simp]: "wf_peer peer_a" "wf_peer peer_b"
  by (simp_all add: wf_peer_def peer_a_def peer_b_def IN6_ADDR_BYTES_def)

theorem peer_list_round_trip_witness:
  "wp (peer_info_list_serialize Little_Endian (Some [peer_a, peer_b]) True True)
    (\<lambda>(buffer, buffer_size) t. length buffer = 80 \<and>
       wp (peer_info_list_deserialize Big_Endian True (Some (buffer @ [9])) buffer_size)
         (\<lambda>ps' _. ps' = [peer_a, peer_b]) (\<lambda>_ _. False) t)
    (\<lambda>_ _. False) \<lparr>mallocs = [True, True]\<rparr>"
  by (rule wp_mono [OF peer_list_round_trip [of "[peer_a, peer_b]" Little_Endian Big_Endian "[9]"]])
    (auto simp: no_oom_def elim: wp_mono)

text \<open>C34. Reading a peer list is memory safe and exact on every input: peer_info_list_deserialize
  never reads past the buffer_size bytes it is given and always returns; when it returns a list,
  the peers are well-formed, as many as the first 8 bytes of the buffer state, and the buffer
  begins with exactly the bytes peer_info_list_serialize writes for them; its errors are
  FAILURE_BUFFER_TOO_SMALL and running out of memory.\<close>

theorem peer_list_deserialize_exact:
  assumes "unat buffer_size \<le> length mem"
  shows "wp (peer_info_list_deserialize bo True (Some mem) buffer_size)
    (\<lambda>ps _. (\<forall>p \<in> set ps. wf_peer p) \<and> 8 + 36 * length ps \<le> unat buffer_size \<and>
       unat (of_be_bytes (take 8 mem) :: u64) = length ps \<and>
       wp (peer_info_list_serialize bo' (Some ps) True True)
         (\<lambda>(buffer, _) _. take (length buffer) mem = buffer)
         (\<lambda>e _. e = FAILURE_COULD_NOT_MALLOC) u)
    (\<lambda>e _. e = FAILURE_BUFFER_TOO_SMALL \<or> e = FAILURE_COULD_NOT_MALLOC \<and> \<not> no_oom s)
    (s :: 'z env_scheme)"
proof (rule wp_mono [OF wp_unless_imp_wp [OF peer_info_list_deserialize_reads]], goal_cases)
  case (2 ps t)
  then have "take (length (wire_peers ps)) mem = wire_peers ps" by (simp add: sits_0)
  then show ?case
    using 2 by (auto intro!: wp_mono [OF wp_peer_info_list_serialize])
qed (use assms in auto)

theorem peer_list_deserialize_exact_witness:
  "wp (peer_info_list_deserialize Big_Endian True (Some (replicate 44 0)) 44)
    (\<lambda>ps _. length ps = 0) (\<lambda>e _. e = FAILURE_BUFFER_TOO_SMALL) \<lparr>mallocs = [True]\<rparr>"
  by (rule wp_mono [OF peer_list_deserialize_exact [of 44 "replicate 44 0" Big_Endian Big_Endian
          "\<lparr>mallocs = []\<rparr> :: env"]])
    (auto simp: no_oom_def of_be_bytes_def numeral_eq_Suc)

end
