(* ===== verification/Consensus.thy ===== *)
theory Consensus
  imports Node Chain_Codec Peer_Discovery
begin

text \<open>
  src/consensus_peer_server_thread.c and src/consensus_peer_client_thread.c: two nodes exchange
  their chains and each switches to the other's if it is valid, strictly longer and of the same
  difficulty. What the threads of a node share is the \<open>synchronized_blockchain_t\<close>: the pointer
  to the current chain, which is an address of a chain object, and the version, which counts
  the switches. A chain object that has been destroyed is no longer in \<open>chains\<close>.
\<close>

section \<open>State\<close>

record ledger = env +
  chains :: "addr \<Rightarrow> blockchain_t option"
  current :: addr
  sync_version :: u64
  next_chain :: addr

definition load_chain :: "addr \<Rightarrow> ('z ledger_scheme, blockchain_t) prog" where
  "load_chain p s = (case chains s p of None \<Rightarrow> (Undefined, s) | Some c \<Rightarrow> (Ok c, s))"

text \<open>\<open>args->sync->blockchain\<close>, and the chain it points to.\<close>

definition our_chain :: "('z ledger_scheme, blockchain_t) prog" where
  "our_chain = seq get (\<lambda>s. load_chain (current s))"

definition store_chain :: "blockchain_t \<Rightarrow> ('z ledger_scheme, unit) prog" where
  "store_chain c = modify (\<lambda>s. s\<lparr>chains := (chains s)(next_chain s \<mapsto> c), current := next_chain s,
     sync_version := sync_version s + 1, next_chain := Suc (next_chain s)\<rparr>)"

section \<open>The locked part of an exchange\<close>

text \<open>The mutex keeps the pointer from being switched, but the miner appends to the chain it points
  to without the mutex. So the locked part is two steps: the blocks of our chain are counted, and
  the pointer is switched or not. The result of the second is \<open>switched_to_peer_chain\<close>.\<close>

definition count_ours :: "('z ledger_scheme, addr \<times> u64) prog" where
  "count_ours =
     seq get (\<lambda>s.
     seq our_chain (\<lambda>our_blockchain.
     seq (ll_length (block_list our_blockchain)) (\<lambda>our_blockchain_length.
     ret (current s, our_blockchain_length))))"

definition switch_if_longer :: "blockchain_t \<Rightarrow> addr \<times> u64 \<Rightarrow> ('z ledger_scheme, bool) prog" where
  "switch_if_longer peer_blockchain = (\<lambda>(our_pointer, our_blockchain_length).
     seq (ll_length (block_list peer_blockchain)) (\<lambda>peer_blockchain_length.
     seq (load_chain our_pointer) (\<lambda>our_blockchain.
     let same_number_leading_zeros =
       num_leading_zero_bytes_required_in_block_hash our_blockchain =
       num_leading_zero_bytes_required_in_block_hash peer_blockchain in
     if our_blockchain_length < peer_blockchain_length \<and> same_number_leading_zeros then
       seq (store_chain peer_blockchain) (\<lambda>_. ret True)
     else ret False)))"

definition consider_chain :: "blockchain_t \<Rightarrow> ('z ledger_scheme, bool) prog" where
  "consider_chain peer_blockchain = seq count_ours (switch_if_longer peer_blockchain)"

section \<open>The two sides of an exchange\<close>

text \<open>Receiving the peer's chain: the command, the chain in it, and the verdict on the chain.\<close>

definition receive_blockchain ::
  "'k openssl \<Rightarrow> byte_order \<Rightarrow> u64 \<Rightarrow>
    (net, command_send_blockchain_t \<times> blockchain_t \<times> bool) prog" where
  "receive_blockchain ssl bo now =
     seq (receive_message False bo COMMAND_SEND_BLOCKCHAIN
       (\<lambda>buffer n. command_send_blockchain_deserialize bo True buffer n)) (\<lambda>cmd.
     seq (blockchain_deserialize bo now True (Some (data_bytes cmd)) (data_len cmd)) (\<lambda>peer_blockchain.
     seq (blockchain_verify ssl bo (Some peer_blockchain) True False) (\<lambda>(peer_blockchain_is_valid, _).
     ret (cmd, peer_blockchain, peer_blockchain_is_valid))))"

definition send_command :: "byte_order \<Rightarrow> command_send_blockchain_t \<Rightarrow> (net, unit) prog" where
  "send_command bo cmd =
     seq (command_send_blockchain_serialize bo (Some cmd) True True) (\<lambda>(_, send_buf, send_buf_len).
     send_all (Some send_buf) (unat send_buf_len))"

text \<open>\<open>lock\<close> and \<open>unlock\<close> are the results of the calls on the mutex. The reply reuses the header
  that was received.\<close>

definition handle_one_consensus_request ::
  "'k openssl \<Rightarrow> byte_order \<Rightarrow> u64 \<Rightarrow> return_code_t option \<Rightarrow> return_code_t option \<Rightarrow>
    (ledger node, unit) prog" where
  "handle_one_consensus_request ssl bo now lock unlock =
     seq (on_conn (receive_blockchain ssl bo now)) (\<lambda>(cmd, peer_blockchain, peer_blockchain_is_valid).
     seq (pthread lock) (\<lambda>_.
     seq (if peer_blockchain_is_valid then on_shared (consider_chain peer_blockchain) else ret False) (\<lambda>_.
     seq (on_shared our_chain) (\<lambda>our_blockchain.
     seq (on_conn (blockchain_serialize bo (Some our_blockchain) True True)) (\<lambda>(bytes, len).
     seq (pthread unlock) (\<lambda>_.
     on_conn (send_command bo (cmd\<lparr>data_len := len, data_bytes := bytes\<rparr>))))))))"

text \<open>\<open>connected\<close>: whether socket and connect succeed.\<close>

definition run_consensus_peer_client_once ::
  "'k openssl \<Rightarrow> byte_order \<Rightarrow> u64 \<Rightarrow> bool \<Rightarrow> return_code_t option \<Rightarrow> return_code_t option \<Rightarrow>
    return_code_t option \<Rightarrow> return_code_t option \<Rightarrow> (ledger node, unit) prog" where
  "run_consensus_peer_client_once ssl bo now connected lock1 unlock1 lock2 unlock2 =
     seq (require connected FAILURE_NETWORK_FUNCTION) (\<lambda>_.
     seq (pthread lock1) (\<lambda>_.
     seq (on_shared our_chain) (\<lambda>our_blockchain.
     seq (on_conn (blockchain_serialize bo (Some our_blockchain) True True)) (\<lambda>(bytes, len).
     seq (pthread unlock1) (\<lambda>_.
     seq (on_conn (send_command bo (unsent_message COMMAND_SEND_BLOCKCHAIN bytes len))) (\<lambda>_.
     seq (on_conn (receive_blockchain ssl bo now)) (\<lambda>(_, peer_blockchain, peer_blockchain_is_valid).
     if peer_blockchain_is_valid then
       seq (pthread lock2) (\<lambda>_.
       seq (on_shared (consider_chain peer_blockchain)) (\<lambda>_.
       pthread unlock2))
     else ret ())))))))"

section \<open>Accepted chains are valid\<close>

lemma wp_unless_memcmp [simp]:
  "wp_unless U (memcmp xs ys n) Q E s \<longleftrightarrow>
     (if n \<le> length xs \<and> n \<le> length ys then Q (compare_bytes (take n xs) (take n ys)) s else U)"
  by (cases "n \<le> length xs \<and> n \<le> length ys") (auto simp: memcmp_def)

lemma wp_unless_verify_signatures:
  "wp_unless True (verify_signatures ssl bo ts)
    (\<lambda>v t. t = s \<and> (v \<longrightarrow> (\<forall>t \<in> set ts. signature_outcome ssl bo t = Ok True))) (\<lambda>e t. t = s) s"
proof (induction ts)
  case Nil
  then show ?case by simp
next
  case (Cons t ts)
  have "wp_unless True (transaction_verify_signature ssl bo True (Some t))
      (\<lambda>v u. u = s \<and> (v \<longrightarrow> signature_outcome ssl bo t = Ok True)) (\<lambda>e u. u = s) s"
    by (auto simp: wp_unless_def verify_signature_outcome split: outcome.split)
  then show ?case
    unfolding verify_signatures.simps
    by (intro wp_unless_seqI, elim wp_unless_mono)
      (use Cons.IH in \<open>auto elim: wp_unless_mono\<close>)
qed

lemma wp_unless_verify_blocks:
  assumes "hashing_ok ssl" and "\<forall>b \<in> set bs. wf_block b"
  shows "wp_unless True (verify_blocks ssl bo want n (hash_of ssl bo a) bs)
    (\<lambda>(v, _) t. t = s \<and> (v \<longrightarrow> successively (block_ok ssl bo n) (a # bs))) (\<lambda>e t. t = s) s"
  using assms(2)
proof (induction bs arbitrary: a)
  case Nil
  then show ?case by simp
next
  case (Cons b bs)
  have len: "length (hash_of ssl bo x) = 32" for x
    using length_hash_of [OF assms(1)] by (simp add: SHA256_DIGEST_LENGTH_def)
  have md: "md_ctx_new ssl" using assms(1) by (simp add: hashing_ok_def)
  have prev: "length (previous_block_hash b) = 32" "\<forall>t \<in> set (transaction_list b). wf_transaction t"
    using Cons.prems by (simp_all add: wf_block_def SHA256_DIGEST_LENGTH_def)
  have zero: "take (unat n) zero_hash = replicate (unat n) 0" if "unat n \<le> 32"
    using that by (simp add: zero_hash_def SHA256_DIGEST_LENGTH_def min_def)
  show ?case
  proof (cases "transaction_list b")
    case Nil
    then show ?thesis
      using md len prev by (simp add: Let_def SHA256_DIGEST_LENGTH_def)
  next
    case tx: (Cons m ts)
    have keys: "length (sender_public_key m) = MAX_SSH_KEY_LENGTH"
      "length (recipient_public_key m) = MAX_SSH_KEY_LENGTH"
      using prev(2) tx by (simp_all add: wf_transaction_def wf_key_def)
    have rest: "wp_unless True (verify_blocks ssl bo want n (hash_of ssl bo b) bs)
        (\<lambda>(v, _) t. t = s \<and> (v \<longrightarrow> successively (block_ok ssl bo n) (b # bs))) (\<lambda>e t. t = s) s"
      using Cons by simp
    have sigs: "wp_unless True (verify_signatures ssl bo (m # ts)) (\<lambda>ok t. wp_unless True
          (if \<not> ok then ret (False, r)
           else verify_blocks ssl bo want n (hash_of ssl bo b) bs)
          (\<lambda>(v, _) t. t = s \<and> (v \<longrightarrow> block_ok ssl bo n a b \<and>
            successively (block_ok ssl bo n) (b # bs)))
          (\<lambda>e t. t = s) t) (\<lambda>e t. t = s) s"
      if "take (unat n) (hash_of ssl bo b) = replicate (unat n) 0"
        "previous_block_hash b = hash_of ssl bo a" "amount m = AMOUNT_GENERATED_DURING_MINTING"
        "sender_public_key m = recipient_public_key m" for r
      by (rule wp_unless_mono [OF wp_unless_verify_signatures])
        (use that tx in \<open>auto intro!: wp_unless_mono [OF rest] simp: block_ok_def minting_ok_def\<close>)
    show ?thesis
      using md len prev keys zero tx
      by (auto simp del: verify_signatures.simps wp_unless_if simp: Let_def hash_of_def [symmetric]
          SHA256_DIGEST_LENGTH_def compare_bytes_eq_0_iff intro!: sigs)
  qed
qed

lemma wp_unless_blockchain_verify:
  assumes "hashing_ok ssl" and "wf_blockchain c"
  shows "wp_unless True (blockchain_verify ssl bo (Some c) True want)
    (\<lambda>(v, _) t. t = s \<and> (v \<longrightarrow> valid_chain ssl bo
       (num_leading_zero_bytes_required_in_block_hash c) (block_list c))) (\<lambda>e t. t = s) s"
proof (cases "block_list c")
  case Nil
  then show ?thesis by (simp add: blockchain_verify_def)
next
  case (Cons g bs)
  have md: "md_ctx_new ssl" using assms(1) by (simp add: hashing_ok_def)
  have g: "length (previous_block_hash g) = 32" and bs: "\<forall>b \<in> set bs. wf_block b"
    using assms(2) Cons by (auto simp: wf_blockchain_def wf_block_def SHA256_DIGEST_LENGTH_def)
  have z: "length zero_hash = 32" by (simp add: zero_hash_def SHA256_DIGEST_LENGTH_def)
  note rest = wp_unless_verify_blocks [OF assms(1) bs, of bo want
      "num_leading_zero_bytes_required_in_block_hash c" g s]
  show ?thesis
    using md g z
    by (auto simp: blockchain_verify_def Cons Let_def SHA256_DIGEST_LENGTH_def hash_of_def [symmetric]
        compare_bytes_eq_0_iff valid_chain_def genesis_ok_def intro!: wp_unless_mono [OF rest])
qed

section \<open>Chains a node accepts\<close>

text \<open>A chain this node accepts: its arrays have their sizes and it is valid.\<close>

definition acceptable :: "'k openssl \<Rightarrow> byte_order \<Rightarrow> u64 \<Rightarrow> blockchain_t \<Rightarrow> bool" where
  "acceptable ssl bo n c \<longleftrightarrow> wf_blockchain c \<and>
     num_leading_zero_bytes_required_in_block_hash c = n \<and> valid_chain ssl bo n (block_list c) \<and>
     length (block_list c) < 2 ^ 64"

lemma wire_chain_size_bound:
  assumes "wire_chain_size c \<le> unat (bs :: u64) + MAX_SSH_SIGNATURE_LENGTH"
  shows "length (block_list c) < 2 ^ 64"
proof -
  have "56 * length bl \<le> sum_list (map wire_block_size bl)" for bl
    by (induction bl) (auto simp: wire_block_size_def)
  from this [of "block_list c"] assms unsigned_less [of bs, where ?'a = nat] show ?thesis
    by (simp add: wire_chain_size_def size_defs)
qed

lemma receive_blockchain_verdict:
  assumes "hashing_ok ssl"
  shows "whenever (receive_blockchain ssl bo now)
    (\<lambda>(_, c, v) _. v \<longrightarrow> acceptable ssl bo (num_leading_zero_bytes_required_in_block_hash c) c)
    (\<lambda>_ _. True) s"
proof -
  have verify: "whenever (seq (blockchain_verify ssl bo (Some c) True False) (\<lambda>(v, _). ret (cmd, c, v)))
      (\<lambda>(_, c, v) _. v \<longrightarrow> acceptable ssl bo (num_leading_zero_bytes_required_in_block_hash c) c)
      (\<lambda>_ _. True) t" if "wf_blockchain c" "length (block_list c) < 2 ^ 64" for cmd c and t :: net
    by (rule whenever_seqI, rule whenever_mono [OF wp_unless_whenever [OF wp_unless_blockchain_verify [OF assms that(1)]]])
      (use that in \<open>auto simp: acceptable_def\<close>)
  have read: "whenever (seq (blockchain_deserialize bo now True (Some mem) n) (\<lambda>c.
        seq (blockchain_verify ssl bo (Some c) True False) (\<lambda>(v, _). ret (cmd, c, v))))
      (\<lambda>(_, c, v) _. v \<longrightarrow> acceptable ssl bo (num_leading_zero_bytes_required_in_block_hash c) c)
      (\<lambda>_ _. True) t" for cmd mem n and t :: net
    by (rule whenever_seqI, rule whenever_mono [OF wp_unless_whenever [OF blockchain_deserialize_reads]])
      (auto intro!: verify wire_chain_size_bound simp del: whenever_seq)
  show ?thesis
    unfolding receive_blockchain_def
    by (rule whenever_seqI, rule whenever_mono [OF whenever_True], rule read, simp)
qed

section \<open>The contract of an exchange\<close>

text \<open>\<open>ledger_ok ssl bo n s\<close>: the current chain is alive, well-formed, valid and of difficulty
  \<open>n\<close>, and new chain objects get fresh addresses.\<close>

definition ledger_ok :: "'k openssl \<Rightarrow> byte_order \<Rightarrow> u64 \<Rightarrow> 'z ledger_scheme \<Rightarrow> bool" where
  "ledger_ok ssl bo n s \<longleftrightarrow> (\<exists>c. chains s (current s) = Some c \<and> acceptable ssl bo n c) \<and>
     (\<forall>a \<ge> next_chain s. chains s a = None)"

definition chain_of :: "'z ledger_scheme \<Rightarrow> block_t list" where
  "chain_of s = block_list (the (chains s (current s)))"

text \<open>What an exchange does to the ledger: it leaves it alone, or switches to a longer valid chain
  of the same difficulty in a new object and counts the switch.\<close>

definition exchange_step :: "'k openssl \<Rightarrow> byte_order \<Rightarrow> u64 \<Rightarrow> ledger \<Rightarrow> ledger \<Rightarrow> bool" where
  "exchange_step ssl bo n s t \<longleftrightarrow> t = s \<or>
     (\<exists>c. acceptable ssl bo n c \<and> length (chain_of s) < length (block_list c) \<and>
        t = s\<lparr>chains := (chains s)(next_chain s \<mapsto> c), current := next_chain s,
          sync_version := sync_version s + 1, next_chain := Suc (next_chain s)\<rparr>)"

lemma exchange_step_keeps:
  assumes "exchange_step ssl bo n s t" and "ledger_ok ssl bo n s"
  shows "ledger_ok ssl bo n t" and "length (chain_of s) \<le> length (chain_of t)"
    and "chain_of t \<noteq> chain_of s \<Longrightarrow> length (chain_of s) < length (chain_of t)"
  using assms by (auto simp: exchange_step_def ledger_ok_def chain_of_def)

lemma of_nat_less_imp_less:
  "(of_nat a :: u64) < of_nat b \<Longrightarrow> a < 2 ^ 64 \<Longrightarrow> a < b"
proof (rule ccontr)
  assume less: "(of_nat a :: u64) < of_nat b" and a: "a < 2 ^ 64" and "\<not> a < b"
  then have "unat (of_nat a :: u64) = a" "unat (of_nat b :: u64) = b"
    by (simp_all add: unsigned_of_nat take_bit_eq_mod)
  with less \<open>\<not> a < b\<close> show False by (simp add: word_less_nat_alt)
qed

lemma consider_chain_step:
  assumes "ledger_ok ssl bo n s"
    and "acceptable ssl bo (num_leading_zero_bytes_required_in_block_hash c) c"
  shows "whenever (consider_chain c) (\<lambda>_. exchange_step ssl bo n s) (\<lambda>_ _. False) s"
proof -
  obtain d where d: "chains s (current s) = Some d" "acceptable ssl bo n d"
    using assms(1) by (auto simp: ledger_ok_def)
  have "length (block_list d) < length (block_list c)"
    if "(of_nat (length (block_list d)) :: u64) < of_nat (length (block_list c))"
    by (rule of_nat_less_imp_less [OF that]) (use d(2) in \<open>simp add: acceptable_def\<close>)
  then show ?thesis
    using d assms(2)
    by (auto simp: consider_chain_def count_ours_def switch_if_longer_def our_chain_def load_chain_def whenever_def seq_def prog_basic
        ll_length_def store_chain_def exchange_step_def acceptable_def chain_of_def Let_def)
qed

lemma our_chain_whenever [simp]:
  "ledger_ok ssl bo n s \<Longrightarrow>
    whenever our_chain Q E s \<longleftrightarrow> Q (the (chains s (current s))) s"
  by (auto simp: our_chain_def load_chain_def whenever_def seq_def prog_basic ledger_ok_def)

text \<open>
  What the other threads rely on: from a good ledger, whatever the peer sends and whatever fails,
  an exchange that returns has made one step.
\<close>

locale exchange =
  fixes ssl :: "'k openssl" and bo :: byte_order and run :: "'p \<Rightarrow> (ledger node, unit) prog"
  assumes run_step: "hashing_ok ssl \<Longrightarrow> ledger_ok ssl bo n (shared s) \<Longrightarrow>
    whenever (run p) (\<lambda>_ t. exchange_step ssl bo n (shared s) (shared t))
      (\<lambda>_ t. exchange_step ssl bo n (shared s) (shared t)) s"
begin

lemma run_keeps:
  assumes "hashing_ok ssl" and "ledger_ok ssl bo n (shared s)"
    and "fst (run p s) \<notin> {Undefined, Diverges}"
  shows "ledger_ok ssl bo n (shared (snd (run p s))) \<and>
    length (chain_of (shared s)) \<le> length (chain_of (shared (snd (run p s))))"
proof -
  from run_step [OF assms(1,2), of p] assms(3)
  have "exchange_step ssl bo n (shared s) (shared (snd (run p s)))"
    by (auto simp: whenever_def split: prod.splits outcome.splits)
  with exchange_step_keeps [OF this assms(2)] show ?thesis by blast
qed

lemma accept_loop_keeps:
  assumes "hashing_ok ssl" and "ledger_ok ssl bo n x"
    and "accept_loop print run c events x = (Ok r, y)"
  shows "ledger_ok ssl bo n y \<and> length (chain_of x) \<le> length (chain_of y)"
  by (rule accept_loop_invariant [where handle = run and print = print and c = c and events = events
        and x = x and r = r and P = "\<lambda>y. ledger_ok ssl bo n y \<and> length (chain_of x) \<le> length (chain_of y)"])
    (use assms run_keeps in \<open>fastforce+\<close>)

end

section \<open>Both sides keep the contract\<close>

lemma exchange_step_refl [simp]: "exchange_step ssl bo n s s"
  by (simp add: exchange_step_def)

lemma whenever_conn_frame:
  "(\<And>v c. Q v (n\<lparr>conn := c\<rparr>)) \<Longrightarrow> (\<And>e c. E e (n\<lparr>conn := c\<rparr>)) \<Longrightarrow> whenever (on_conn m) Q E n"
  by simp

text \<open>The end of a request: only the connection changes.\<close>

lemma server_reply_frame:
  fixes n :: "ledger node"
  assumes "ledger_ok ssl bo d (shared n)"
  shows "whenever (seq (on_shared our_chain) (\<lambda>our_blockchain.
     seq (on_conn (blockchain_serialize bo (Some our_blockchain) True True)) (\<lambda>(bytes, len).
     seq (pthread unlock) (\<lambda>_.
     on_conn (send_command bo (cmd\<lparr>data_len := len, data_bytes := bytes\<rparr>))))))
    (\<lambda>_ t. shared t = shared n) (\<lambda>_ t. shared t = shared n) n"
  using assms
  by (simp del: whenever_on_conn, intro whenever_conn_frame)
    (auto simp del: whenever_on_conn intro!: whenever_conn_frame split: prod.split option.split)

lemma whenever_on_conn_result:
  assumes "whenever m (\<lambda>v _. P v) (\<lambda>_ _. True) (conn n)"
    and "\<And>v c. P v \<Longrightarrow> Q v (n\<lparr>conn := c\<rparr>)" and "\<And>e c. E e (n\<lparr>conn := c\<rparr>)"
  shows "whenever (on_conn m) Q E n"
  by (simp, rule whenever_mono [OF assms(1)]) (use assms(2,3) in auto)

definition verdict_ok ::
  "'k openssl \<Rightarrow> byte_order \<Rightarrow> command_send_blockchain_t \<times> blockchain_t \<times> bool \<Rightarrow> bool" where
  "verdict_ok ssl bo v \<longleftrightarrow> (case v of (_, c, valid) \<Rightarrow>
     valid \<longrightarrow> acceptable ssl bo (num_leading_zero_bytes_required_in_block_hash c) c)"

lemma receive_blockchain_verdict_ok:
  "hashing_ok ssl \<Longrightarrow>
    whenever (receive_blockchain ssl bo now) (\<lambda>v _. verdict_ok ssl bo v) (\<lambda>_ _. True) s"
  by (rule whenever_mono [OF receive_blockchain_verdict]) (auto simp: verdict_ok_def)

lemma handle_one_consensus_request_step:
  fixes n :: "ledger node"
  assumes "hashing_ok ssl" and ok: "ledger_ok ssl bo d (shared n)"
  shows "whenever (handle_one_consensus_request ssl bo now lock unlock)
    (\<lambda>_ t. exchange_step ssl bo d (shared n) (shared t))
    (\<lambda>_ t. exchange_step ssl bo d (shared n) (shared t)) n"
  unfolding handle_one_consensus_request_def
proof (rule whenever_seqI, rule whenever_on_conn_result [OF receive_blockchain_verdict_ok [OF assms(1)]],
    goal_cases)
  case (1 v c)
  obtain cmd peer valid where v: "v = (cmd, peer, valid)" by (cases v)
  let ?n = "n\<lparr>conn := c\<rparr>"
  have switch: "whenever (if valid then on_shared (consider_chain peer) else ret False)
      (\<lambda>_ t. exchange_step ssl bo d (shared n) (shared t)) (\<lambda>_ _. False) ?n"
    using 1 v ok by (auto simp: verdict_ok_def intro!: whenever_mono [OF consider_chain_step])
  have rest: "whenever (seq (on_shared our_chain) (\<lambda>our_blockchain.
       seq (on_conn (blockchain_serialize bo (Some our_blockchain) True True)) (\<lambda>(bytes, len).
       seq (pthread unlock) (\<lambda>_.
       on_conn (send_command bo (cmd\<lparr>data_len := len, data_bytes := bytes\<rparr>))))))
      (\<lambda>_ t. exchange_step ssl bo d (shared n) (shared t))
      (\<lambda>_ t. exchange_step ssl bo d (shared n) (shared t)) m"
    if "exchange_step ssl bo d (shared n) (shared m)" for m
    by (rule whenever_mono [OF server_reply_frame])
      (use that exchange_step_keeps(1) [OF that ok] in auto)
  show ?case
  proof (cases lock)
    case None
    show ?thesis
      unfolding v prod.case None pthread_simps seq_ret
      by (rule whenever_seqI, rule whenever_mono [OF switch], erule rest) simp
  next
    case (Some e)
    then show ?thesis by (simp add: v)
  qed
qed simp

lemma client_send_frame:
  fixes n :: "ledger node"
  assumes "ledger_ok ssl bo d (shared n)"
  shows "whenever (seq (on_shared our_chain) (\<lambda>our_blockchain.
     seq (on_conn (blockchain_serialize bo (Some our_blockchain) True True)) (\<lambda>(bytes, len).
     seq (pthread unlock) (\<lambda>_.
     on_conn (send_command bo (unsent_message COMMAND_SEND_BLOCKCHAIN bytes len))))))
    (\<lambda>_ t. shared t = shared n) (\<lambda>_ t. shared t = shared n) n"
  using assms
  by (simp del: whenever_on_conn, intro whenever_conn_frame)
    (auto simp del: whenever_on_conn intro!: whenever_conn_frame split: prod.split option.split)

lemma seq_split_assoc:
  "seq (seq m (\<lambda>(x, y). f x y)) g = seq m (\<lambda>(x, y). seq (f x y) g)"
  by (simp add: seq_assoc split_def)

lemma run_consensus_peer_client_once_step:
  fixes n :: "ledger node"
  assumes "hashing_ok ssl" and ok: "ledger_ok ssl bo d (shared n)"
  shows "whenever (run_consensus_peer_client_once ssl bo now connected lock1 unlock1 lock2 unlock2)
    (\<lambda>_ t. exchange_step ssl bo d (shared n) (shared t))
    (\<lambda>_ t. exchange_step ssl bo d (shared n) (shared t)) n"
proof (cases "connected \<and> lock1 = None")
  case False
  then show ?thesis by (auto simp: run_consensus_peer_client_once_def require_def split: option.split)
next
  case True
  let ?send = "seq (on_shared our_chain) (\<lambda>our_blockchain.
     seq (on_conn (blockchain_serialize bo (Some our_blockchain) True True)) (\<lambda>(bytes, len).
     seq (pthread unlock1) (\<lambda>_.
     on_conn (send_command bo (unsent_message COMMAND_SEND_BLOCKCHAIN bytes len)))))
     :: (ledger node, unit) prog"
  let ?receive = "seq (on_conn (receive_blockchain ssl bo now)) (\<lambda>(_, peer_blockchain, valid).
     if valid then
       seq (pthread lock2) (\<lambda>_.
       seq (on_shared (consider_chain peer_blockchain)) (\<lambda>_.
       pthread unlock2))
     else ret ()) :: (ledger node, unit) prog"
  have run: "run_consensus_peer_client_once ssl bo now connected lock1 unlock1 lock2 unlock2 =
      seq ?send (\<lambda>_. ?receive)"
    using True by (simp add: run_consensus_peer_client_once_def seq_assoc seq_split_assoc split_def)
  have "whenever ?receive (\<lambda>_ t. exchange_step ssl bo d (shared n) (shared t))
    (\<lambda>_ t. exchange_step ssl bo d (shared n) (shared t)) m" if "shared m = shared n" for m
  proof (rule whenever_seqI, rule whenever_on_conn_result [OF receive_blockchain_verdict_ok [OF assms(1)]],
      goal_cases)
    case (1 v c)
    obtain cmd peer valid where v: "v = (cmd, peer, valid)" by (cases v)
    have switch: "whenever (on_shared (consider_chain peer))
        (\<lambda>_ t. exchange_step ssl bo d (shared n) (shared t)) (\<lambda>_ _. False) (m\<lparr>conn := c\<rparr>)" if valid
      using 1 v ok that \<open>shared m = shared n\<close>
      by (auto simp: verdict_ok_def intro!: whenever_mono [OF consider_chain_step])
    have "whenever (seq (on_shared (consider_chain peer)) (\<lambda>_. pthread unlock2))
        (\<lambda>_ t. exchange_step ssl bo d (shared n) (shared t))
        (\<lambda>_ t. exchange_step ssl bo d (shared n) (shared t)) (m\<lparr>conn := c\<rparr>)" if valid
      by (rule whenever_seqI, rule whenever_mono [OF switch [OF that]]) (simp_all split: option.split)
    then show ?case
      unfolding v prod.case by (cases lock2) (auto simp: that simp del: whenever_seq)
  qed (simp add: that)
  then show ?thesis
    unfolding run by (intro whenever_seqI whenever_mono [OF client_send_frame [OF ok]]) auto
qed

section \<open>The threads\<close>

text \<open>The parameters of a request are the clock and the results of the calls on the mutex.\<close>

definition run_consensus_peer_server ::
  "'k openssl \<Rightarrow> byte_order \<Rightarrow> bool \<Rightarrow> bool \<Rightarrow> bool \<Rightarrow> bool \<Rightarrow>
    ((u64 \<times> return_code_t option \<times> return_code_t option) poll_event \<times> bool) list \<Rightarrow>
    (ledger thread, return_code_t) prog" where
  "run_consensus_peer_server ssl bo print_progress listening should_stop allocated events =
     server_thread print_progress
       (\<lambda>(now, lock, unlock). handle_one_consensus_request ssl bo now lock unlock)
       listening should_stop allocated events"

text \<open>The copy of the peer list, which comes out reversed; when calloc fails the function returns
  at once with the code it has, which is SUCCESS, and \<open>None\<close> stands for that.\<close>

fun copy_peers :: "'q list \<Rightarrow> 'q list \<Rightarrow> ('z env_scheme, 'q list option) prog" where
  "copy_peers [] peers_copy = ret (Some peers_copy)"
| "copy_peers (p # ps) peers_copy =
     seq malloc (\<lambda>ok.
     if \<not> ok then ret None
     else seq (ll_prepend peers_copy p) (\<lambda>peers_copy. copy_peers ps peers_copy))"

text \<open>The loop over the copy. \<open>attempt_at p\<close> is the connection made to the peer \<open>p\<close>, the parameters
  of the exchange, and whether \<open>should_stop\<close> is set after it.\<close>

fun client_loop ::
  "('p \<Rightarrow> (ledger node, unit) prog) \<Rightarrow> ('q \<Rightarrow> net \<times> 'p \<times> bool) \<Rightarrow> bool \<Rightarrow> 'q list \<Rightarrow> (ledger, unit) prog" where
  "client_loop once attempt_at should_stop [] = ret ()"
| "client_loop once attempt_at should_stop (p # ps) =
     (if should_stop then ret ()
      else (\<lambda>l. case attempt_at p of (c, param, stop) \<Rightarrow>
        (case once param \<lparr>conn = c, shared = l\<rparr> of
           (Undefined, n) \<Rightarrow> (Undefined, shared n)
         | (Diverges, n) \<Rightarrow> (Diverges, shared n)
         | (_, n) \<Rightarrow> client_loop once attempt_at stop ps (shared n))))"

definition run_consensus_peer_client ::
  "'k openssl \<Rightarrow> byte_order \<Rightarrow> return_code_t option \<Rightarrow> return_code_t option \<Rightarrow> bool \<Rightarrow>
    (peer_info_t \<Rightarrow> net \<times> (u64 \<times> bool \<times> return_code_t option \<times> return_code_t option \<times>
      return_code_t option \<times> return_code_t option) \<times> bool) \<Rightarrow>
    peer_info_t list \<Rightarrow> (ledger thread, return_code_t) prog" where
  "run_consensus_peer_client ssl bo lock unlock should_stop attempt_at peers =
     seq (in_work (seq (attempt (
       seq ll_create (\<lambda>peers_copy.
       seq (pthread lock) (\<lambda>_.
       seq (copy_peers peers peers_copy) (\<lambda>copied.
       case copied of
         None \<Rightarrow> ret ()
       | Some peers_copy \<Rightarrow>
           seq (pthread unlock) (\<lambda>_.
           client_loop (\<lambda>(now, connected, lock1, unlock1, lock2, unlock2).
             run_consensus_peer_client_once ssl bo now connected lock1 unlock1 lock2 unlock2)
             attempt_at should_stop peers_copy)))))) (\<lambda>r.
       ret (case r of Inl c \<Rightarrow> c | Inr _ \<Rightarrow> SUCCESS))))
     (end_thread malloc)"

interpretation server_exchange: exchange ssl bo
  "\<lambda>(now, lock, unlock). handle_one_consensus_request ssl bo now lock unlock" for ssl bo
  by unfold_locales (auto intro: handle_one_consensus_request_step)

interpretation client_exchange: exchange ssl bo
  "\<lambda>(now, connected, lock1, unlock1, lock2, unlock2).
     run_consensus_peer_client_once ssl bo now connected lock1 unlock1 lock2 unlock2" for ssl bo
  by unfold_locales (auto intro: run_consensus_peer_client_once_step)

context exchange
begin

lemma client_loop_keeps:
  assumes "hashing_ok ssl" and "ledger_ok ssl bo n l"
    and "client_loop run attempt_at stop ps l = (Ok v, l')"
  shows "ledger_ok ssl bo n l' \<and> length (chain_of l) \<le> length (chain_of l')"
  using assms(2,3)
proof (induction ps arbitrary: stop l)
  case Nil
  then show ?case by (simp add: ret_def)
next
  case (Cons p ps)
  show ?case
  proof (cases stop)
    case True
    then show ?thesis using Cons.prems by (simp add: ret_def)
  next
    case False
    obtain c param stop' where at: "attempt_at p = (c, param, stop')" by (cases "attempt_at p")
    let ?n = "\<lparr>conn = c, shared = l\<rparr>"
    obtain out m where r: "run param ?n = (out, m)" by (cases "run param ?n")
    have ok: "ledger_ok ssl bo n (shared ?n)" using Cons.prems(1) by simp
    have "out \<notin> {Undefined, Diverges}" "client_loop run attempt_at stop' ps (shared m) = (Ok v, l')"
      using Cons.prems(2) False at r by (auto split: outcome.splits)
    with run_keeps [OF assms(1) ok, of param] r Cons.IH [of "shared m" stop'] show ?thesis by auto
  qed
qed

end

lemma client_loop_not_Fail: "client_loop once attempt_at stop ps l \<noteq> (Fail e, l')"
proof (induction ps arbitrary: stop l)
  case Nil
  then show ?case by (simp add: ret_def)
next
  case (Cons p ps)
  obtain c param stop' where at: "attempt_at p = (c, param, stop')" by (cases "attempt_at p")
  obtain out m where r: "once param \<lparr>conn = c, shared = l\<rparr> = (out, m)"
    by (cases "once param \<lparr>conn = c, shared = l\<rparr>")
  show ?case using Cons.IH [of stop' "shared m"] at r by (cases out) (simp_all add: ret_def)
qed

lemma ledger_ok_alloc_step:
  "alloc_step l l' \<Longrightarrow> (ledger_ok ssl bo n l' \<longleftrightarrow> ledger_ok ssl bo n l) \<and> chain_of l' = chain_of l"
  for l :: "'z ledger_scheme"
  by (auto simp: alloc_step_def ledger_ok_def chain_of_def)

lemma takes_whenever:
  assumes "\<And>s. whenever m (\<lambda>_ t. alloc_step s t) (\<lambda>_ t. alloc_step s t) s"
    and "\<And>v s. whenever (f v) (\<lambda>_ t. alloc_step s t) (\<lambda>_ t. alloc_step s t) s"
  shows "whenever (seq m f) (\<lambda>_ t. alloc_step s t) (\<lambda>_ t. alloc_step s t) s"
  by (rule whenever_seqI, rule whenever_mono [OF assms(1)])
    (rule whenever_mono [OF assms(2)], auto intro: alloc_step_trans)

lemma whenever_malloc: "whenever malloc (\<lambda>_ t. alloc_step s t) E s"
  by (rule wp_unless_whenever, rule wp_imp_wp_unless, rule wp_mallocI) simp

lemma whenever_alloc: "whenever alloc (\<lambda>_ t. alloc_step s t) (\<lambda>_ t. alloc_step s t) s"
  by (rule wp_unless_whenever, rule wp_imp_wp_unless, rule wp_allocI) simp_all

lemma whenever_copy_peers:
  "whenever (copy_peers ps qs) (\<lambda>_ t. alloc_step s t) (\<lambda>_ t. alloc_step s t) s"
proof (induction ps arbitrary: qs s)
  case Nil
  then show ?case by simp
next
  case (Cons p ps)
  show ?case
    unfolding copy_peers.simps ll_prepend_def
    by (intro takes_whenever whenever_malloc) (auto intro!: takes_whenever whenever_alloc Cons.IH simp del: whenever_seq)
qed

text \<open>What every thread keeps of the ledger \<open>l\<close>.\<close>

abbreviation kept_from :: "'k openssl \<Rightarrow> byte_order \<Rightarrow> u64 \<Rightarrow> ledger \<Rightarrow> ledger \<Rightarrow> bool" where
  "kept_from ssl bo n l l' \<equiv>
     ledger_ok ssl bo n l' \<and> length (chain_of l) \<le> length (chain_of l')"

lemma run_consensus_peer_client_keeps:
  assumes "hashing_ok ssl" and "ledger_ok ssl bo n (work t)"
  shows "whenever (run_consensus_peer_client ssl bo lock unlock stop attempt_at peers)
    (\<lambda>_ u. kept_from ssl bo n (work t) (work u)) (\<lambda>_ _. False) t"
proof -
  define l where "l = work t"
  note l_ok = assms(2) [folded l_def]
  let ?once = "\<lambda>(now, connected, lock1, unlock1, lock2, unlock2).
     run_consensus_peer_client_once ssl bo now connected lock1 unlock1 lock2 unlock2"
  have kept: "kept_from ssl bo n l u" if "alloc_step l u" for u
    using ledger_ok_alloc_step [OF that, of ssl bo n] l_ok by auto
  have kept': "kept_from ssl bo n l u" if "alloc_step t u" "kept_from ssl bo n l t" for t u
    using ledger_ok_alloc_step [OF that(1), of ssl bo n] that(2) by auto
  have loop: "whenever (client_loop ?once attempt_at stop ps) (\<lambda>_. kept_from ssl bo n l)
      (\<lambda>_. kept_from ssl bo n l) u" if "alloc_step l u" for ps u
    using client_exchange.client_loop_keeps [OF assms(1), of bo n u] ledger_ok_alloc_step [OF that, of ssl bo n] l_ok
      client_loop_not_Fail [of ?once attempt_at stop ps u]
    by (auto simp: whenever_def split: prod.split outcome.split)
  have body: "whenever (seq ll_create (\<lambda>peers_copy.
       seq (pthread lock) (\<lambda>_.
       seq (copy_peers peers peers_copy) (\<lambda>copied.
       case copied of
         None \<Rightarrow> ret ()
       | Some peers_copy \<Rightarrow>
           seq (pthread unlock) (\<lambda>_. client_loop ?once attempt_at stop peers_copy)))))
      (\<lambda>_. kept_from ssl bo n l) (\<lambda>_. kept_from ssl bo n l) l"
  proof (rule whenever_seqI, unfold ll_create_def, rule whenever_seqI,
      rule whenever_mono [OF whenever_alloc], goal_cases)
    case (1 v t)
    show ?case
      unfolding whenever_ret
    proof (cases lock)
      case None
      show "whenever (seq (pthread lock) (\<lambda>_. seq (copy_peers peers []) (\<lambda>copied.
         case copied of None \<Rightarrow> ret () | Some peers_copy \<Rightarrow>
           seq (pthread unlock) (\<lambda>_. client_loop ?once attempt_at stop peers_copy))))
        (\<lambda>_. kept_from ssl bo n l) (\<lambda>_. kept_from ssl bo n l) t"
        unfolding None pthread_simps seq_ret
      proof (rule whenever_seqI, rule whenever_mono [OF whenever_copy_peers], goal_cases)
        case copied: (1 w u)
        have "alloc_step l u" using 1 copied by (rule alloc_step_trans)
        then show ?case
          using kept loop by (cases w; cases unlock) (auto simp del: whenever_seq)
      qed (use 1 kept alloc_step_trans in blast)
    qed (use 1 kept in simp)
  qed (rule kept)
  show ?thesis
    unfolding run_consensus_peer_client_def
    by (rule whenever_seqI, unfold whenever_in_work, fold l_def, rule whenever_seqI, rule whenever_attemptI,
        rule whenever_mono [OF body]; unfold whenever_ret; rule whenever_end_thread,
        rule whenever_mono [OF whenever_malloc [where E = "\<lambda>_ _. False"]])
      (auto dest: kept' simp: announced_def)
qed

lemma announces_consensus_peer_server:
  "announces_exit (run_consensus_peer_server ssl bo print_progress listening should_stop allocated events)"
  unfolding run_consensus_peer_server_def by (rule announces_server_thread)

lemma announces_consensus_peer_client:
  "announces_exit (run_consensus_peer_client ssl bo lock unlock should_stop attempt_at peers)"
  unfolding run_consensus_peer_client_def
  by (rule announces_exitI, rule whenever_seqI, rule whenever_attemptI, rule whenever_all) simp_all

text \<open>A ledger whose chain is the one of theory \<open>Blockchain\<close>.\<close>

definition toy_ledger :: "blockchain_t \<Rightarrow> ledger" where
  "toy_ledger c = \<lparr>mallocs = [], chains = [0 \<mapsto> c], current = 0, sync_version = 0, next_chain = 1\<rparr>"

lemma toy_ledger_ok: "ledger_ok (toy_ssl 4) bo 3 (toy_ledger (toy_chain [toy_mint]))"
  using toy_chain_facts(2) toy_chain_facts(7) [of bo]
  by (simp add: ledger_ok_def toy_ledger_def acceptable_def)

section \<open>Properties\<close>

text \<open>C7. Whatever the peers send, whenever their connections fail and memory runs out, a
  server thread that returns after any sequence of poll events, and a client thread that returns
  after any list of peers, leave the node with a chain that is alive, well-formed, valid, of
  the same difficulty and not shorter than before. (A peer can keep a thread from returning:
  see recv_all_cases and huge_command_len_overflows.)\<close>

theorem consensus_threads_keep_valid:
  assumes "hashing_ok ssl" and "ledger_ok ssl bo n (work t)"
  shows "whenever (run_consensus_peer_server ssl bo print_progress listening should_stop allocated events)
      (\<lambda>_ u. kept_from ssl bo n (work t) (work u)) (\<lambda>_ _. False) t \<and>
    whenever (run_consensus_peer_client ssl bo lock unlock should_stop attempt_at peers)
      (\<lambda>_ u. kept_from ssl bo n (work t) (work u)) (\<lambda>_ _. False) t"
proof
  let ?l = "work t"
  have "whenever (accept_loop print_progress
      (\<lambda>(now, lock, unlock). handle_one_consensus_request ssl bo now lock unlock) SUCCESS events)
    (\<lambda>_. kept_from ssl bo n ?l) (\<lambda>_ _. False) ?l"
    using server_exchange.accept_loop_keeps [OF assms] accept_loop_not_Fail
    by (fastforce simp: whenever_def split: prod.split outcome.split)
  then show "whenever (run_consensus_peer_server ssl bo print_progress listening should_stop allocated events)
      (\<lambda>_ u. kept_from ssl bo n ?l (work u)) (\<lambda>_ _. False) t"
    using assms(2)
    by (auto simp: run_consensus_peer_server_def server_thread_def announced_def intro!: whenever_end_thread
        elim!: whenever_mono)
qed (rule run_consensus_peer_client_keeps [OF assms])

theorem consensus_threads_keep_valid_witness:
  "whenever (run_consensus_peer_server (toy_ssl 4) Little_Endian True True False True
       [(Poll_Timeout, False), (Accepted True (toy_net [Received [1, 2], Recv_Error] []) (7, None, None), True)])
     (\<lambda>_ u. kept_from (toy_ssl 4) Little_Endian 3 (toy_ledger (toy_chain [toy_mint])) (work u)) (\<lambda>_ _. False)
     \<lparr>exit_ready = False, exit_signals = 0, work = toy_ledger (toy_chain [toy_mint])\<rparr> \<and>
   whenever (run_consensus_peer_client (toy_ssl 4) Little_Endian None None False
       (\<lambda>p. (toy_net [Recv_Error] [], (7, True, None, None, None, None), False)) [peer_a, peer_b])
     (\<lambda>_ u. kept_from (toy_ssl 4) Little_Endian 3 (toy_ledger (toy_chain [toy_mint])) (work u)) (\<lambda>_ _. False)
     \<lparr>exit_ready = False, exit_signals = 0, work = toy_ledger (toy_chain [toy_mint])\<rparr>"
  using consensus_threads_keep_valid [OF toy_chain_facts(1),
      where t = "\<lparr>exit_ready = False, exit_signals = 0, work = toy_ledger (toy_chain [toy_mint])\<rparr>"] toy_ledger_ok
  by simp

end
