(* ===== verification/Mining.thy ===== *)
theory Mining
  imports Blockchain
begin

text \<open>
  The mining functions of src/blockchain.c, \<open>blockchain_mine_block\<close> and
  \<open>synchronized_blockchain_mine_block\<close>, with the progress they print. The state holds the block
  the caller's pointer refers to, whose proof of work every iteration overwrites, and the text
  printed so far. The atomic variables another thread may change are oracles: functions from an
  iteration, named by its proof, to the value read there.
\<close>

section \<open>State\<close>

record mining =
  mining_block :: block_t
  printed :: string

definition print :: "string \<Rightarrow> (mining, unit) prog" where
  "print str = modify (\<lambda>s. s\<lparr>printed := printed s @ str\<rparr>)"

section \<open>Progress\<close>

text \<open>The digits of \<open>printf\<close> with \<open>%01x\<close> of a nybble and with \<open>%02x\<close> of a byte.\<close>

definition hex_digit :: "u8 \<Rightarrow> char" where
  "hex_digit n = ''0123456789abcdef'' ! unat n"

definition hex_byte :: "u8 \<Rightarrow> string" where
  "hex_byte d = [hex_digit (drop_bit 4 d), hex_digit (and d 15)]"

fun leading_zero_nybbles :: "sha_256_t \<Rightarrow> nat" where
  "leading_zero_nybbles [] = 0"
| "leading_zero_nybbles (d # ds) =
     (if drop_bit 4 d \<noteq> 0 then 0
      else if d \<noteq> 0 then 1
      else 2 + leading_zero_nybbles ds)"

definition nybble_at :: "sha_256_t \<Rightarrow> nat \<Rightarrow> u8" where
  "nybble_at digest idx =
     (if idx mod 2 = 0 then drop_bit 4 (digest ! (idx div 2)) else and (digest ! (idx div 2)) 15)"

definition shown_nybble :: "nat \<Rightarrow> sha_256_t \<Rightarrow> nat \<Rightarrow> u8" where
  "shown_nybble best digest idx =
     (let nybble = nybble_at digest idx in
      if idx = best \<and> nybble = 0 then nybble + 1 else nybble)"

definition mining_prefix :: string where
  "mining_prefix = CHR 0x0D # ''Mining LeoCoin block: ''"

definition progress_digits :: "nat \<Rightarrow> sha_256_t \<Rightarrow> string" where
  "progress_digits best digest = replicate best (CHR ''0'') @
     map (\<lambda>idx. hex_digit (shown_nybble best digest idx)) [best ..< 2 * SHA256_DIGEST_LENGTH]"

definition ansi_color :: "string \<Rightarrow> string" where
  "ansi_color code = CHR 0x1B # CHR ''['' # code @ ''m''"

definition final_line :: "string \<Rightarrow> sha_256_t \<Rightarrow> string" where
  "final_line colour digest = mining_prefix @ ansi_color colour @ concat (map hex_byte digest) @
     ansi_color ''0'' @ [CHR 0x0A]"

definition PRINT_FREQUENCY :: nat where
  "PRINT_FREQUENCY = 20000"

definition report_progress :: "u64 \<Rightarrow> nat \<Rightarrow> sha_256_t \<Rightarrow> (mining, nat) prog" where
  "report_progress new_proof best digest =
     (let num_zeroes = leading_zero_nybbles digest;
          better = best < num_zeroes;
          best' = (if better then num_zeroes else best) in
      seq (if unat new_proof mod PRINT_FREQUENCY = 0 \<or> better
           then print (mining_prefix @ progress_digits best' digest) else ret ()) (\<lambda>_.
      ret best'))"

section \<open>The mining loops\<close>

text \<open>One iteration after the checks at its start; the loop variables are the proof, the best
  number of leading zeroes and the last hash.\<close>

definition try_proof ::
  "'k openssl \<Rightarrow> byte_order \<Rightarrow> blockchain_t \<Rightarrow> bool \<Rightarrow> u64 \<times> nat \<times> sha_256_t \<Rightarrow>
    (mining, (u64 \<times> nat \<times> sha_256_t) + unit) prog" where
  "try_proof ssl bo c print_progress = (\<lambda>(new_proof, best, digest).
     seq (modify (\<lambda>s. s\<lparr>mining_block := (mining_block s)\<lparr>proof_of_work := new_proof\<rparr>\<rparr>)) (\<lambda>_.
     seq get (\<lambda>s.
     seq (block_hash ssl bo (Some (mining_block s)) True) (\<lambda>digest.
     seq (if print_progress then report_progress new_proof best digest else ret best) (\<lambda>best.
     seq (blockchain_is_valid_block_hash (Some c) digest True) (\<lambda>is_valid_block_hash.
     if is_valid_block_hash then
       seq (if print_progress then print (final_line ''32'' digest) else ret ()) (\<lambda>_.
       ret (Inr ()))
     else ret (Inl (new_proof + 1, best, digest))))))))"

text \<open>The loops of the two functions differ in the checks at the start of an iteration only,
  here \<open>interrupt\<close>.\<close>

definition mining_body ::
  "'k openssl \<Rightarrow> byte_order \<Rightarrow> blockchain_t \<Rightarrow> bool \<Rightarrow> (u64 \<Rightarrow> sha_256_t \<Rightarrow> (mining, unit) prog) \<Rightarrow>
    u64 \<times> nat \<times> sha_256_t \<Rightarrow> (mining, (u64 \<times> nat \<times> sha_256_t) + unit) prog" where
  "mining_body ssl bo c print_progress interrupt = (\<lambda>(new_proof, best, digest).
     if new_proof < - 1 then
       seq (interrupt new_proof digest) (\<lambda>_.
       try_proof ssl bo c print_progress (new_proof, best, digest))
     else fail FAILURE_COULD_NOT_FIND_VALID_PROOF_OF_WORK)"

definition stop_check :: "(u64 \<Rightarrow> bool) \<Rightarrow> u64 \<Rightarrow> (mining, unit) prog" where
  "stop_check should_stop new_proof =
     (if should_stop new_proof then fail FAILURE_STOPPED_EARLY else ret ())"

definition version_check ::
  "bool \<Rightarrow> (u64 \<Rightarrow> u64) \<Rightarrow> (u64 \<Rightarrow> u64) \<Rightarrow> u64 \<Rightarrow> sha_256_t \<Rightarrow> (mining, unit) prog" where
  "version_check print_progress mined_version sync_version new_proof digest =
     (if mined_version new_proof \<noteq> sync_version new_proof then
        seq (if print_progress then print (final_line ''94'' digest) else ret ()) (\<lambda>_.
        fail FAILURE_LONGER_BLOCKCHAIN_DETECTED)
      else ret ())"

definition blockchain_mine_block ::
  "'k openssl \<Rightarrow> byte_order \<Rightarrow> blockchain_t option \<Rightarrow> bool \<Rightarrow> bool \<Rightarrow> (u64 \<Rightarrow> bool) option \<Rightarrow>
    (mining, unit) prog" where
  "blockchain_mine_block ssl bo chain block print_progress should_stop =
     (case (chain, should_stop) of
        (Some c, Some stop) \<Rightarrow>
          if \<not> block then fail FAILURE_INVALID_INPUT
          else loop (mining_body ssl bo c print_progress (\<lambda>p _. stop_check stop p))
            (0, 0, zero_hash)
      | _ \<Rightarrow> fail FAILURE_INVALID_INPUT)"

text \<open>The locks around the read of the blockchain pointer are outcomes of the pthread calls;
  \<open>sync_version\<close> is what is read from \<open>sync->version\<close> in each iteration.\<close>

definition synchronized_blockchain_mine_block ::
  "'k openssl \<Rightarrow> byte_order \<Rightarrow> bool \<times> bool \<Rightarrow> synchronized_blockchain_t option \<Rightarrow> bool \<Rightarrow> bool \<Rightarrow>
    (u64 \<Rightarrow> bool) option \<Rightarrow> (u64 \<Rightarrow> u64) option \<Rightarrow> (u64 \<Rightarrow> u64) \<Rightarrow> (mining, unit) prog" where
  "synchronized_blockchain_mine_block ssl bo locks sync block print_progress should_stop
      sync_version_currently_mined sync_version =
     (case (sync, should_stop, sync_version_currently_mined) of
        (Some sy, Some stop, Some mined) \<Rightarrow>
          if \<not> block then fail FAILURE_INVALID_INPUT
          else
            seq (require (fst locks) FAILURE_PTHREAD_FUNCTION) (\<lambda>_.
            seq (require (snd locks) FAILURE_PTHREAD_FUNCTION) (\<lambda>_.
            loop (mining_body ssl bo (blockchain sy) print_progress
                (\<lambda>p digest. seq (stop_check stop p) (\<lambda>_.
                   version_check print_progress mined sync_version p digest)))
              (0, 0, zero_hash)))
      | _ \<Rightarrow> fail FAILURE_INVALID_INPUT)"

section \<open>What the loops compute\<close>

text \<open>\<open>p\<close> is a proof of work for \<open>b\<close> of difficulty \<open>n\<close>.\<close>

definition good_proof :: "'k openssl \<Rightarrow> byte_order \<Rightarrow> u64 \<Rightarrow> block_t \<Rightarrow> u64 \<Rightarrow> bool" where
  "good_proof ssl bo n b p \<longleftrightarrow>
     take (unat n) (hash_of ssl bo (b\<lparr>proof_of_work := p\<rparr>)) = replicate (unat n) 0"

text \<open>\<open>halts p = Some c\<close>: the checks at the start of the iteration with proof \<open>p\<close> end the
  function with the code \<open>c\<close>. They leave the block alone.\<close>

definition interrupts ::
  "(u64 \<Rightarrow> sha_256_t \<Rightarrow> (mining, unit) prog) \<Rightarrow> (u64 \<Rightarrow> return_code_t option) \<Rightarrow> bool" where
  "interrupts interrupt halts \<longleftrightarrow> (\<forall>p digest s.
     wp (interrupt p digest)
       (\<lambda>_ t. halts p = None \<and> mining_block t = mining_block s)
       (\<lambda>e t. halts p = Some e \<and> mining_block t = mining_block s) s)"

lemma wp_print [simp]: "wp (print str) Q E s = Q () (s\<lparr>printed := printed s @ str\<rparr>)"
  by (simp add: print_def)

lemma wp_report_progress:
  assumes "\<And>best u. mining_block u = mining_block s \<Longrightarrow> Q best u"
  shows "wp (report_progress p best digest) Q E s"
  using assms by (simp add: report_progress_def Let_def)

lemma wp_is_valid_block_hash [simp]:
  assumes "unat (num_leading_zero_bytes_required_in_block_hash c) \<le> length digest"
  shows "wp (blockchain_is_valid_block_hash (Some c) digest True) Q E s =
    Q (take (unat (num_leading_zero_bytes_required_in_block_hash c)) digest =
      replicate (unat (num_leading_zero_bytes_required_in_block_hash c)) 0) s"
  by (simp add: blockchain_is_valid_block_hash_eq [OF assms])

lemma wp_try_proof:
  assumes "hashing_ok ssl"
    and n: "n = num_leading_zero_bytes_required_in_block_hash c"
    and "unat n \<le> SHA256_DIGEST_LENGTH"
  shows "wp (try_proof ssl bo c pp (p, best, digest))
    (\<lambda>v t. mining_block t = (mining_block s)\<lparr>proof_of_work := p\<rparr> \<and>
      (case v of Inl (q, _) \<Rightarrow> q = p + 1 \<and> \<not> good_proof ssl bo n (mining_block s) p
       | Inr _ \<Rightarrow> good_proof ssl bo n (mining_block s) p)) E s"
proof -
  let ?h = "hash_of ssl bo ((mining_block s)\<lparr>proof_of_work := p\<rparr>)"
  have "unat n \<le> length ?h"
    using assms(3) by (simp add: length_hash_of [OF assms(1)])
  moreover have "\<And>b. length (sha256 ssl (block_bytes bo b)) = SHA256_DIGEST_LENGTH" and "md_ctx_new ssl"
    using assms(1) by (simp_all add: hashing_ok_def)
  ultimately show ?thesis
    using n by (auto simp: try_proof_def hash_of_def [symmetric] good_proof_def
        intro!: wp_report_progress)
qed

lemma wp_mining_loop:
  assumes ok: "hashing_ok ssl"
    and n: "n = num_leading_zero_bytes_required_in_block_hash c" "unat n \<le> SHA256_DIGEST_LENGTH"
    and inter: "interrupts interrupt halts"
  shows "wp (loop (mining_body ssl bo c pp interrupt) (0, 0, digest))
    (\<lambda>_ t. \<exists>p < - 1. mining_block t = (mining_block s)\<lparr>proof_of_work := p\<rparr> \<and>
       good_proof ssl bo n (mining_block s) p \<and> halts p = None \<and>
       (\<forall>q < p. halts q = None \<and> \<not> good_proof ssl bo n (mining_block s) q))
    (\<lambda>e t. (\<exists>p < - 1. halts p = Some e \<and>
         (\<forall>q < p. halts q = None \<and> \<not> good_proof ssl bo n (mining_block s) q)) \<or>
       e = FAILURE_COULD_NOT_FIND_VALID_PROOF_OF_WORK \<and>
         (\<forall>q < - 1. halts q = None \<and> \<not> good_proof ssl bo n (mining_block s) q)) s"
proof -
  let ?good = "good_proof ssl bo n (mining_block s)"
  let ?r = "measure (\<lambda>((p :: u64, _ :: nat \<times> sha_256_t), _ :: mining). 2 ^ 64 - unat p)"
  define I where "I = (\<lambda>(p :: u64, best :: nat, digest :: sha_256_t) (t :: mining).
    (\<exists>q. mining_block t = (mining_block s)\<lparr>proof_of_work := q\<rparr>) \<and>
    (\<forall>q < p. halts q = None \<and> \<not> ?good q))"
  have good: "good_proof ssl bo n (b\<lparr>proof_of_work := q\<rparr>) p = good_proof ssl bo n b p" for b p q
    by (simp add: good_proof_def)
  have nxt: "p < p + 1" and below: "q < p + 1 \<longleftrightarrow> q < p \<or> q = p" if "p < - 1" for p q :: u64
  proof -
    from that have "unat (p + 1) = unat p + 1"
      using unatSuc [of p] by (simp add: add.commute add_eq_0_iff less_le)
    then show "p < p + 1" and "q < p + 1 \<longleftrightarrow> q < p \<or> q = p"
      by (auto simp: word_less_nat_alt word_unat_eq_iff)
  qed
  define found where "found = (\<lambda>(_ :: unit) (t :: mining). \<exists>p < - 1.
    mining_block t = (mining_block s)\<lparr>proof_of_work := p\<rparr> \<and> ?good p \<and> halts p = None \<and>
    (\<forall>q < p. halts q = None \<and> \<not> ?good q))"
  define failed where "failed = (\<lambda>e (_ :: mining).
    (\<exists>p < - 1. halts p = Some e \<and> (\<forall>q < p. halts q = None \<and> \<not> ?good q)) \<or>
    e = FAILURE_COULD_NOT_FIND_VALID_PROOF_OF_WORK \<and> (\<forall>q < - 1. halts q = None \<and> \<not> ?good q))"
  have "wp (loop (mining_body ssl bo c pp interrupt) (0, 0, digest)) found failed s"
  proof (rule wp_loop [where I = I and r = ?r])
    show "I (0, 0, digest) s"
      by (auto simp: I_def intro: exI [of _ "proof_of_work (mining_block s)"])
  next
    fix x :: "u64 \<times> nat \<times> sha_256_t" and t
    assume I: "I x t"
    obtain p best d where x: "x = (p, best, d)" by (cases x)
    obtain q where q: "mining_block t = (mining_block s)\<lparr>proof_of_work := q\<rparr>"
      and before: "\<forall>q < p. halts q = None \<and> \<not> ?good q"
      using I by (auto simp: I_def x)
    define step where "step v u = (case v of Inl y \<Rightarrow> I y u \<and> ((y, u), (x, t)) \<in> ?r
      | Inr z \<Rightarrow> found z u)" for v u
    have "wp (mining_body ssl bo c pp interrupt x) step failed t"
    proof (cases "p < - 1")
      case False
      then have "p = - 1" using word_order.not_eq_extremum [of p] by blast
      with before show ?thesis by (simp add: mining_body_def x failed_def)
    next
      case True
      have less: "2 ^ 64 - unat (p + 1) < 2 ^ 64 - unat p"
        using nxt [OF True] unsigned_less [of "p + 1", where ?'a = nat]
        by (simp add: word_less_nat_alt)
      have tried: "wp (try_proof ssl bo c pp (p, best, d)) step failed w"
        if "halts p = None" "mining_block w = mining_block t" for w
        by (rule wp_mono [OF wp_try_proof [OF ok n, where E = "\<lambda>_ _. False"]])
          (use that q before True less below [OF True] in
            \<open>auto simp: x I_def good step_def found_def split: sum.splits prod.splits\<close>)
      have "wp (interrupt p d) (\<lambda>_ w. halts p = None \<and> mining_block w = mining_block t)
          (\<lambda>e w. halts p = Some e \<and> mining_block w = mining_block t) t"
        using inter by (simp add: interrupts_def)
      then have "wp (interrupt p d) (\<lambda>_. wp (try_proof ssl bo c pp (p, best, d)) step failed)
          failed t"
        by (rule wp_mono) (use tried before True in \<open>auto simp: failed_def\<close>)
      with True show ?thesis by (simp add: mining_body_def x)
    qed
    then show "wp (mining_body ssl bo c pp interrupt x)
      (\<lambda>v u. case v of Inl y \<Rightarrow> I y u \<and> ((y, u), (x, t)) \<in> ?r | Inr z \<Rightarrow> found z u) failed t"
      by (simp add: step_def [abs_def])
  qed simp
  then show ?thesis by (simp add: found_def failed_def)
qed

lemma interrupts_stop: "interrupts (\<lambda>p _. stop_check stop p)
    (\<lambda>p. if stop p then Some FAILURE_STOPPED_EARLY else None)"
  by (simp add: interrupts_def stop_check_def)

lemma interrupts_stop_or_version:
  "interrupts (\<lambda>p digest. seq (stop_check stop p) (\<lambda>_. version_check pp mined current p digest))
    (\<lambda>p. if stop p then Some FAILURE_STOPPED_EARLY
      else if mined p \<noteq> current p then Some FAILURE_LONGER_BLOCKCHAIN_DETECTED else None)"
  by (simp add: interrupts_def stop_check_def version_check_def)

lemma if_Some_eq [simp]:
  "(if b then Some x else r) = None \<longleftrightarrow> \<not> b \<and> r = None"
  "(if b then Some x else None) = Some y \<longleftrightarrow> b \<and> y = x"
  by auto

section \<open>A mined block is accepted\<close>

lemma good_proof_block_ok:
  assumes "good_proof ssl bo n b p" and "previous_block_hash b = hash_of ssl bo a"
    and "minting_ok (transaction_list b)"
    and "\<forall>t \<in> set (transaction_list b). signature_outcome ssl bo t = Ok True"
  shows "block_ok ssl bo n a (b\<lparr>proof_of_work := p\<rparr>)"
  using assms by (simp add: block_ok_def good_proof_def)

lemma valid_chain_verifies:
  assumes "hashing_ok ssl" and "wf_blockchain c" and "signatures_fit (block_list c)"
    and "unat (num_leading_zero_bytes_required_in_block_hash c) \<le> SHA256_DIGEST_LENGTH"
    and "valid_chain ssl bo (num_leading_zero_bytes_required_in_block_hash c) (block_list c)"
  shows "blockchain_verify ssl bo (Some c) True want s = (Ok (True, None), s)"
proof -
  have "wp (blockchain_verify ssl bo (Some c) True want)
      (\<lambda>v t. v = (True, None) \<and> t = s) (\<lambda>_ _. False) s"
    by (rule wp_mono [OF wp_blockchain_verify [OF assms(1-3) refl assms(4)]])
      (use assms(5) in auto)
  then show ?thesis by (auto simp: wp_Ok_iff)
qed

section \<open>The number of leading zeroes\<close>

lemma drop_bit_4_and_15: "drop_bit 4 d = 0 \<and> and d 15 = 0 \<longleftrightarrow> d = (0 :: u8)"
proof
  assume "drop_bit 4 d = 0 \<and> and d 15 = 0"
  moreover have "and d 15 = take_bit 4 d"
    by (simp add: take_bit_eq_mask mask_eq_exp_minus_1)
  ultimately show "d = 0"
    using bits_ident [of 4 d] by simp
qed simp

lemma pow_iff_leading_zero_nybbles:
  "n \<le> length digest \<Longrightarrow>
    take n digest = replicate n 0 \<longleftrightarrow> 2 * n \<le> leading_zero_nybbles digest"
proof (induction digest arbitrary: n)
  case Nil
  then show ?case by simp
next
  case (Cons d ds)
  then show ?case by (cases n) auto
qed

lemma nybble_at_Cons: "nybble_at (d # ds) (Suc (Suc idx)) = nybble_at ds idx"
  by (simp add: nybble_at_def)

lemma nybble_at_0: "nybble_at (d # ds) 0 = drop_bit 4 d" "nybble_at (d # ds) (Suc 0) = and d 15"
  by (simp_all add: nybble_at_def)

lemma leading_zero_nybbles_digits:
  "leading_zero_nybbles digest \<le> 2 * length digest \<and>
   (\<forall>idx < leading_zero_nybbles digest. nybble_at digest idx = 0) \<and>
   (leading_zero_nybbles digest < 2 * length digest \<longrightarrow>
     nybble_at digest (leading_zero_nybbles digest) \<noteq> 0)"
proof (induction digest)
  case Nil
  then show ?case by simp
next
  case (Cons d ds)
  have "nybble_at (d # ds) idx = 0"
    if "idx < leading_zero_nybbles (d # ds)" for idx
  proof (cases idx rule: nat.exhaust)
    case (Suc k)
    then show ?thesis
      using that Cons drop_bit_4_and_15 [of d]
      by (cases k) (auto simp: nybble_at_Cons nybble_at_0 split: if_splits)
  qed (use that in \<open>simp add: nybble_at_0 split: if_splits\<close>)
  then show ?case
    using Cons drop_bit_4_and_15 [of d] by (auto simp: nybble_at_Cons nybble_at_0)
qed

lemma hex_digit_eq_0: "n < 16 \<Longrightarrow> hex_digit n = CHR ''0'' \<longleftrightarrow> n = 0"
proof -
  assume "n < 16"
  then have "unat n < 16" by (simp add: word_less_nat_alt)
  then have "unat n \<in> set [0..<16]" by simp
  moreover have "unat n = 0 \<longleftrightarrow> n = 0" by (simp add: unat_eq_0)
  ultimately show ?thesis
    by (auto simp: hex_digit_def upt_rec numeral_eq_Suc)
qed

lemma shown_nybble_less: "length digest = SHA256_DIGEST_LENGTH \<Longrightarrow> shown_nybble best digest idx < 16"
proof -
  have "drop_bit 4 d < (16 :: u8)" for d
    using unsigned_less [of d, where ?'a = nat]
    by (simp add: word_less_nat_alt unat_drop_bit_eq drop_bit_nat_def)
  moreover have "and d 15 < (16 :: u8)" for d
  proof -
    have "and d 15 = take_bit 4 d"
      by (simp add: take_bit_eq_mask mask_eq_exp_minus_1)
    then show ?thesis
      using take_bit_nat_less_exp [of 4 "unat d"]
      by (simp add: word_less_nat_alt unsigned_take_bit_eq)
  qed
  ultimately show ?thesis
    by (auto simp: shown_nybble_def nybble_at_def Let_def)
qed

lemma wp_blockchain_mine_block:
  assumes "hashing_ok ssl"
    and n: "n = num_leading_zero_bytes_required_in_block_hash c" "unat n \<le> SHA256_DIGEST_LENGTH"
  shows "wp (blockchain_mine_block ssl bo (Some c) True print_progress (Some stop))
    (\<lambda>_ t. \<exists>p < - 1. mining_block t = (mining_block s)\<lparr>proof_of_work := p\<rparr> \<and>
       good_proof ssl bo n (mining_block s) p \<and> \<not> stop p \<and>
       (\<forall>q < p. \<not> stop q \<and> \<not> good_proof ssl bo n (mining_block s) q))
    (\<lambda>e t. (\<exists>p < - 1. e = FAILURE_STOPPED_EARLY \<and> stop p \<and>
         (\<forall>q < p. \<not> stop q \<and> \<not> good_proof ssl bo n (mining_block s) q)) \<or>
       e = FAILURE_COULD_NOT_FIND_VALID_PROOF_OF_WORK \<and>
         (\<forall>q < - 1. \<not> stop q \<and> \<not> good_proof ssl bo n (mining_block s) q)) s"
  unfolding blockchain_mine_block_def
  by (simp, rule wp_mono [OF wp_mining_loop [OF assms interrupts_stop]]) (force split: if_splits)+

lemma takeWhile_progress_digits:
  assumes "length digest = SHA256_DIGEST_LENGTH" and "k \<le> 64"
  shows "takeWhile (\<lambda>ch. ch = CHR ''0'') (progress_digits k digest) = replicate k (CHR ''0'')"
proof -
  have "hex_digit (shown_nybble k digest k) \<noteq> CHR ''0''"
    using shown_nybble_less [OF assms(1), of k k]
    by (simp add: hex_digit_eq_0) (simp add: shown_nybble_def Let_def)
  then show ?thesis
    using assms(2)
    by (cases "k < 64") (simp_all add: progress_digits_def size_defs takeWhile_append upt_conv_Cons)
qed

section \<open>Properties\<close>

text \<open>C24. blockchain_mine_block finds the least proof of work of the difficulty of the chain and
  leaves it in the block, whose other fields it keeps; it stops early exactly when the flag is
  set in an iteration before that proof, and gives up exactly when no proof below UINT64_MAX is
  good (UINT64_MAX itself is never tried). It always returns.\<close>

theorem blockchain_mine_block_least_proof:
  assumes "hashing_ok ssl"
    and n: "n = num_leading_zero_bytes_required_in_block_hash c" "unat n \<le> SHA256_DIGEST_LENGTH"
  shows "wp (blockchain_mine_block ssl bo (Some c) True print_progress (Some stop))
    (\<lambda>_ t. \<exists>p < - 1. mining_block t = (mining_block s)\<lparr>proof_of_work := p\<rparr> \<and>
       good_proof ssl bo n (mining_block s) p \<and> \<not> stop p \<and>
       (\<forall>q < p. \<not> stop q \<and> \<not> good_proof ssl bo n (mining_block s) q))
    (\<lambda>e t. (\<exists>p < - 1. e = FAILURE_STOPPED_EARLY \<and> stop p \<and>
         (\<forall>q < p. \<not> stop q \<and> \<not> good_proof ssl bo n (mining_block s) q)) \<or>
       e = FAILURE_COULD_NOT_FIND_VALID_PROOF_OF_WORK \<and>
         (\<forall>q < - 1. \<not> stop q \<and> \<not> good_proof ssl bo n (mining_block s) q)) s"
  by (rule wp_blockchain_mine_block [OF assms])

definition toy_difficulty :: "u64 \<Rightarrow> blockchain_t" where
  "toy_difficulty n = \<lparr>block_list = [], num_leading_zero_bytes_required_in_block_hash = n\<rparr>"

definition mining_toy :: mining where
  "mining_toy = \<lparr>mining_block = toy_block [], printed = []\<rparr>"

lemma toy_good_proof:
  "unat n \<le> 32 \<Longrightarrow> good_proof (toy_ssl 4) bo n (toy_block []) p \<longleftrightarrow> unat n \<le> 31"
proof -
  assume "unat n \<le> 32"
  have "wf_block ((toy_block [])\<lparr>proof_of_work := p\<rparr>)"
    by (simp add: wf_block_def toy_block_def size_defs)
  from toy_hash [OF this, of 4 bo] show ?thesis
    using \<open>unat n \<le> 32\<close> by (cases "unat n = 32")
        (auto simp: good_proof_def dest: arg_cong [where f = last])
qed

theorem blockchain_mine_block_least_proof_witness:
  "wp (blockchain_mine_block (toy_ssl 4) Little_Endian (Some (toy_difficulty 3)) True True (Some (\<lambda>p. p = 5)))
     (\<lambda>_ t. mining_block t = (toy_block [])\<lparr>proof_of_work := 0\<rparr>) (\<lambda>_ _. False) mining_toy \<and>
   wp (blockchain_mine_block (toy_ssl 4) Little_Endian (Some (toy_difficulty 32)) True True (Some (\<lambda>p. p = 5)))
     (\<lambda>_ _. False) (\<lambda>e _. e = FAILURE_STOPPED_EARLY) mining_toy"
proof
  have 0: "(\<forall>q. \<not> q < p) \<longleftrightarrow> p = 0" for p :: u64
    by (metis word_gt_0 word_not_simps(1))
  have less: "0 < (5 :: u64)" "5 < (- 1 :: u64)" "0 < (- 1 :: u64)"
    by (simp_all add: word_gt_0)
  show "wp (blockchain_mine_block (toy_ssl 4) Little_Endian (Some (toy_difficulty 3)) True True (Some (\<lambda>p. p = 5)))
     (\<lambda>_ t. mining_block t = (toy_block [])\<lparr>proof_of_work := 0\<rparr>) (\<lambda>_ _. False) mining_toy"
    by (rule wp_mono [OF blockchain_mine_block_least_proof [OF hashing_ok_toy, of 3]])
      (auto simp: toy_difficulty_def mining_toy_def toy_good_proof size_defs 0)
  show "wp (blockchain_mine_block (toy_ssl 4) Little_Endian (Some (toy_difficulty 32)) True True (Some (\<lambda>p. p = 5)))
     (\<lambda>_ _. False) (\<lambda>e _. e = FAILURE_STOPPED_EARLY) mining_toy"
    by (rule wp_mono [OF blockchain_mine_block_least_proof [OF hashing_ok_toy, of 32]])
      (auto simp: toy_difficulty_def mining_toy_def toy_good_proof size_defs
        dest: spec [of _ "5 :: u64"])
qed

text \<open>C25. synchronized_blockchain_mine_block mines on the chain the lock protects in the same way,
  and ends with FAILURE_LONGER_BLOCKCHAIN_DETECTED at the first iteration, before a proof is
  found, that reads different versions of the chain mined and the chain held.\<close>

theorem synchronized_mine_block_least_proof:
  assumes "hashing_ok ssl"
    and n: "n = num_leading_zero_bytes_required_in_block_hash (blockchain sync)"
      "unat n \<le> SHA256_DIGEST_LENGTH"
  shows "wp (synchronized_blockchain_mine_block ssl bo (True, True) (Some sync) True print_progress
      (Some stop) (Some mined) current)
    (\<lambda>_ t. \<exists>p < - 1. mining_block t = (mining_block s)\<lparr>proof_of_work := p\<rparr> \<and>
       good_proof ssl bo n (mining_block s) p \<and> \<not> stop p \<and> mined p = current p \<and>
       (\<forall>q < p. \<not> stop q \<and> mined q = current q \<and> \<not> good_proof ssl bo n (mining_block s) q))
    (\<lambda>e t. (\<exists>p < - 1.
         (stop p \<and> e = FAILURE_STOPPED_EARLY \<or>
          \<not> stop p \<and> mined p \<noteq> current p \<and> e = FAILURE_LONGER_BLOCKCHAIN_DETECTED) \<and>
         (\<forall>q < p. \<not> stop q \<and> mined q = current q \<and> \<not> good_proof ssl bo n (mining_block s) q)) \<or>
       e = FAILURE_COULD_NOT_FIND_VALID_PROOF_OF_WORK \<and>
         (\<forall>q < - 1. \<not> stop q \<and> mined q = current q \<and> \<not> good_proof ssl bo n (mining_block s) q)) s"
  unfolding synchronized_blockchain_mine_block_def
  by (simp, rule wp_mono [OF wp_mining_loop [OF assms interrupts_stop_or_version]])
    (force split: if_splits)+

theorem synchronized_mine_block_least_proof_witness:
  "wp (synchronized_blockchain_mine_block (toy_ssl 4) Little_Endian (True, True)
      (Some \<lparr>blockchain = toy_difficulty 32, version = 0\<rparr>) True False (Some (\<lambda>_. False))
      (Some (\<lambda>_. 0)) (\<lambda>p. if p < 7 then 0 else 1))
    (\<lambda>_ _. False) (\<lambda>e _. e = FAILURE_LONGER_BLOCKCHAIN_DETECTED) mining_toy"
  by (rule wp_mono [OF synchronized_mine_block_least_proof [OF hashing_ok_toy, of 32]])
    (auto simp: toy_difficulty_def mining_toy_def toy_good_proof size_defs
      dest: spec [of _ "7 :: u64"])

text \<open>C9. A block mined on a valid chain is accepted by every node: if the block names the hash of
  the last block, starts with a minting transaction and all its signatures verify, then after
  blockchain_mine_block succeeds and blockchain_add_block appends it, blockchain_verify answers
  that the chain is valid.\<close>

theorem mined_block_is_accepted:
  assumes "hashing_ok ssl"
    and n: "n = num_leading_zero_bytes_required_in_block_hash c" "unat n \<le> SHA256_DIGEST_LENGTH"
    and chain: "block_list c \<noteq> []" "valid_chain ssl bo n (block_list c)" "wf_blockchain c"
      "signatures_fit (block_list c)"
    and block: "b = mining_block s" "wf_block b" "signatures_fit [b]"
      "previous_block_hash b = hash_of ssl bo (last (block_list c))"
      "minting_ok (transaction_list b)"
      "\<forall>t \<in> set (transaction_list b). signature_outcome ssl bo t = Ok True"
    and mine: "blockchain_mine_block ssl bo (Some c) True pp (Some stop) s = (Ok (), t)"
    and add: "blockchain_add_block (Some c) (Some (mining_block t)) u = (Ok c', u')"
  shows "blockchain_verify ssl bo (Some c') True want v = (Ok (True, None), v)"
proof -
  from wp_blockchain_mine_block [OF assms(1-3), THEN wp_Ok_D, OF mine]
  obtain p where p: "mining_block t = b\<lparr>proof_of_work := p\<rparr>" "good_proof ssl bo n b p"
    unfolding block(1) by blast
  have c': "block_list c' = block_list c @ [b\<lparr>proof_of_work := p\<rparr>]"
    "num_leading_zero_bytes_required_in_block_hash c' = n"
    using add n(1) p(1)
    by (auto simp: blockchain_add_block_def ll_append_def seq_eq_Ok_iff)
  have "block_ok ssl bo n (last (block_list c)) (b\<lparr>proof_of_work := p\<rparr>)"
    by (rule good_proof_block_ok) (use block p in auto)
  then have "valid_chain ssl bo n (block_list c')"
    using chain by (simp add: c' valid_chain_append1)
  moreover have "wf_blockchain c'" and "signatures_fit (block_list c')"
    using chain block by (auto simp: c' wf_blockchain_def wf_block_def signatures_fit_def)
  ultimately show ?thesis
    using n(2) by (intro valid_chain_verifies [OF assms(1)]) (simp_all add: c')
qed

definition toy_start :: blockchain_t where
  "toy_start = \<lparr>block_list = [toy_genesis], num_leading_zero_bytes_required_in_block_hash = 3\<rparr>"

lemma toy_mining_succeeds:
  "\<exists>t. blockchain_mine_block (toy_ssl 4) bo (Some toy_start) True False (Some (\<lambda>_. False))
     \<lparr>mining_block = toy_block [toy_mint], printed = []\<rparr> = (Ok (), t)"
proof -
  have "wf_block ((toy_block [toy_mint])\<lparr>proof_of_work := p\<rparr>)" for p
    using wf_toy_block [of "[toy_mint]"] wf_toy_mint by (simp add: wf_block_def)
  from toy_hash [OF this, of 4 bo]
  have good: "good_proof (toy_ssl 4) bo 3 (toy_block [toy_mint]) p" for p
    by (simp add: good_proof_def)
  have "wp (blockchain_mine_block (toy_ssl 4) bo (Some toy_start) True False (Some (\<lambda>_. False)))
      (\<lambda>_ _. True) (\<lambda>_ _. False) \<lparr>mining_block = toy_block [toy_mint], printed = []\<rparr>"
    by (rule wp_mono [OF wp_blockchain_mine_block [OF hashing_ok_toy, of 3]])
      (auto simp: good toy_start_def size_defs word_gt_0 dest: spec [of _ "0 :: u64"])
  then show ?thesis by (auto simp: wp_Ok_iff)
qed

theorem mined_block_is_accepted_witness:
  "\<exists>t c'. blockchain_mine_block (toy_ssl 4) Little_Endian (Some toy_start) True False (Some (\<lambda>_. False))
      \<lparr>mining_block = toy_block [toy_mint], printed = []\<rparr> = (Ok (), t) \<and>
    blockchain_add_block (Some toy_start) (Some (mining_block t)) \<lparr>mallocs = []\<rparr> =
      (Ok c', \<lparr>mallocs = []\<rparr>) \<and>
    blockchain_verify (toy_ssl 4) Little_Endian (Some c') True True () = (Ok (True, None), ())"
proof -
  obtain t where t: "blockchain_mine_block (toy_ssl 4) Little_Endian (Some toy_start) True False
      (Some (\<lambda>_. False)) \<lparr>mining_block = toy_block [toy_mint], printed = []\<rparr> = (Ok (), t)"
    using toy_mining_succeeds by blast
  let ?c = "toy_start\<lparr>block_list := [toy_genesis, mining_block t]\<rparr>"
  have add: "blockchain_add_block (Some toy_start) (Some (mining_block t)) \<lparr>mallocs = []\<rparr> =
      (Ok ?c, \<lparr>mallocs = []\<rparr>)"
    by (simp add: blockchain_add_block_def ll_append_def toy_start_def seq_Ok)
  have "blockchain_verify (toy_ssl 4) Little_Endian (Some ?c) True True () = (Ok (True, None), ())"
    by (rule mined_block_is_accepted [OF hashing_ok_toy _ _ _ _ _ _ refl _ _ _ _ _ t add,
          where n = 3])
      (use toy_block_ok [of "[toy_mint]" Little_Endian] toy_chain_facts(9) [of Little_Endian] wf_toy_block [of "[toy_mint]"]
       in \<open>auto simp: toy_start_def size_defs wf_blockchain_def wf_toy_genesis wf_toy_mint
         signatures_fit_def block_ok_def\<close>)
  with t add show ?thesis by blast
qed

text \<open>The number of leading zeroes that mining reports is the number of leading zero digits of
  the hash, and a difficulty of n bytes is met exactly when it is at least 2 n. A line of
  progress shows the text "Mining LeoCoin block:" and 64 digits; it shows the best number of
  leading zeroes so far and no zero right after them, and the best number never decreases.\<close>

theorem mining_progress_correct:
  assumes "length digest = SHA256_DIGEST_LENGTH"
  shows "(\<forall>n \<le> SHA256_DIGEST_LENGTH. take n digest = replicate n 0 \<longleftrightarrow>
      2 * n \<le> leading_zero_nybbles digest) \<and>
    (\<exists>digits. report_progress p best digest s =
      (Ok (max best (leading_zero_nybbles digest)),
       (if unat p mod PRINT_FREQUENCY = 0 \<or> best < leading_zero_nybbles digest
        then s\<lparr>printed := printed s @ mining_prefix @ digits\<rparr> else s)) \<and>
      (best \<le> 64 \<longrightarrow> length digits = 64 \<and>
        takeWhile (\<lambda>ch. ch = CHR ''0'') digits =
          replicate (max best (leading_zero_nybbles digest)) (CHR ''0'')))"
proof (intro conjI exI)
  show "\<forall>n \<le> SHA256_DIGEST_LENGTH. take n digest = replicate n 0 \<longleftrightarrow>
      2 * n \<le> leading_zero_nybbles digest"
    using assms by (simp add: pow_iff_leading_zero_nybbles)
  let ?best = "max best (leading_zero_nybbles digest)"
  show "report_progress p best digest s =
      (Ok ?best, (if unat p mod PRINT_FREQUENCY = 0 \<or> best < leading_zero_nybbles digest
        then s\<lparr>printed := printed s @ mining_prefix @ progress_digits ?best digest\<rparr> else s))"
    by (auto simp: report_progress_def Let_def print_def seq_def prog_basic max_def)
  show "best \<le> 64 \<longrightarrow> length (progress_digits ?best digest) = 64 \<and>
      takeWhile (\<lambda>ch. ch = CHR ''0'') (progress_digits ?best digest) = replicate ?best (CHR ''0'')"
  proof
    assume "best \<le> 64"
    then have le: "?best \<le> 64"
      using leading_zero_nybbles_digits [of digest] assms by (simp add: size_defs)
    then have "takeWhile (\<lambda>ch. ch = CHR ''0'') (progress_digits ?best digest) =
        replicate ?best (CHR ''0'')"
      by (rule takeWhile_progress_digits [OF assms])
    with le show "length (progress_digits ?best digest) = 64 \<and>
        takeWhile (\<lambda>ch. ch = CHR ''0'') (progress_digits ?best digest) = replicate ?best (CHR ''0'')"
      by (simp add: progress_digits_def size_defs)
  qed
qed

theorem mining_progress_correct_witness:
  "leading_zero_nybbles (replicate 3 0 @ [15] @ replicate 28 7) = 7 \<and>
   fst (report_progress 1 0 (replicate 3 0 @ [15] @ replicate 28 7) mining_toy) = Ok 7"
proof -
  have "leading_zero_nybbles (replicate 3 0 @ [15] @ replicate 28 7) = 7"
    by (simp add: numeral_3_eq_3)
  then show ?thesis
    using mining_progress_correct [of "replicate 3 0 @ [15] @ replicate 28 7" 1 0 mining_toy]
    by (auto simp: size_defs)
qed

end
