(* ===== verification/Exchange.thy ===== *)
theory Exchange
  imports Consensus Mining
begin

text \<open>
  Two honest nodes exchange their chains: the client of one is connected to the server of the
  other, what each sends is what the other receives, and both end with the longest chain.
\<close>

section \<open>Chains that can be sent\<close>

text \<open>A chain the nodes accept, with signatures that fit their arrays (as those that
  \<open>transaction_create\<close> makes for keys of up to 4096 bits do), a difficulty within the digest, and
  a size that any machine can hold.\<close>

definition deliverable :: "'k openssl \<Rightarrow> byte_order \<Rightarrow> u64 \<Rightarrow> blockchain_t \<Rightarrow> bool" where
  "deliverable ssl bo n c \<longleftrightarrow> acceptable ssl bo n c \<and> signatures_fit (block_list c) \<and>
     unat n \<le> SHA256_DIGEST_LENGTH \<and> wire_chain_size c < 2 ^ 62"

abbreviation chain_message :: "blockchain_t \<Rightarrow> command_data_t" where
  "chain_message c \<equiv> message COMMAND_SEND_BLOCKCHAIN (wire_chain c)"

lemma deliverable_length:
  "deliverable ssl bo n c \<Longrightarrow> length (wire_chain c) < 2 ^ 62"
  by (simp add: deliverable_def acceptable_def length_wire_chain)

text \<open>What a node that holds \<open>c\<close> holds after it has been offered \<open>d\<close>, and its ledger.\<close>

definition longer :: "blockchain_t \<Rightarrow> blockchain_t \<Rightarrow> blockchain_t" where
  "longer c d = (if length (block_list c) < length (block_list d) then d else c)"

definition offered :: "ledger \<Rightarrow> blockchain_t \<Rightarrow> ledger" where
  "offered l d =
     (if length (chain_of l) < length (block_list d)
      then l\<lparr>chains := (chains l)(next_chain l \<mapsto> d), current := next_chain l,
        sync_version := sync_version l + 1, next_chain := Suc (next_chain l)\<rparr>
      else l)"

definition holds :: "ledger \<Rightarrow> blockchain_t \<Rightarrow> bool" where
  "holds l c \<longleftrightarrow> chains l (current l) = Some c"

lemma holds_chain_of: "holds l c \<Longrightarrow> chain_of l = block_list c"
  by (simp add: holds_def chain_of_def)

lemma holds_offered: "holds l c \<Longrightarrow> holds (offered l d) (longer c d)"
  by (auto simp: holds_def offered_def longer_def chain_of_def)

lemma wp_our_chain: "holds l c \<Longrightarrow> wp our_chain Q E l = Q c l"
  by (simp add: our_chain_def load_chain_def holds_def wp_def seq_def prog_basic)

lemma wp_load_current: "holds l c \<Longrightarrow> wp (load_chain (current l)) Q E l = Q c l"
  by (simp add: load_chain_def holds_def wp_def)

lemma wp_consider_chain:
  assumes "holds l c" and "deliverable ssl bo n c" and "deliverable ssl bo n d"
    and "Q (length (block_list c) < length (block_list d)) (offered l d)"
  shows "wp (consider_chain d) Q E l"
proof -
  have n: "num_leading_zero_bytes_required_in_block_hash c = num_leading_zero_bytes_required_in_block_hash d"
    "length (block_list c) < 2 ^ 64" "length (block_list d) < 2 ^ 64"
    using assms(2,3) by (auto simp: deliverable_def acceptable_def)
  then have "(of_nat (length (block_list c)) :: u64) < of_nat (length (block_list d)) \<longleftrightarrow>
      length (block_list c) < length (block_list d)"
    by (simp add: word_less_nat_alt unsigned_of_nat take_bit_eq_mod)
  then show ?thesis
    using assms(1,4) n(1)
    by (auto simp: consider_chain_def count_ours_def switch_if_longer_def ll_length_def store_chain_def offered_def Let_def
        wp_our_chain wp_load_current holds_chain_of)
qed

section \<open>Sending and receiving\<close>

text \<open>The bytes of the chain may be followed by others, which the receiver does not look at.\<close>

lemma wp_receive_blockchain_and_extra:
  assumes "hashing_ok ssl" and c: "deliverable ssl bo n c" and b: "length (wire_chain c @ extra) < 2 ^ 62"
    and s: "arriving s = wire_data (message COMMAND_SEND_BLOCKCHAIN (wire_chain c @ extra)) @ later" "no_oom s"
  shows "wp (receive_blockchain ssl bo now)
    (\<lambda>v t. v = (message COMMAND_SEND_BLOCKCHAIN (wire_chain c @ extra), c, True) \<and> sent t = sent s \<and>
       sends t = sends s \<and> no_oom t)
    (\<lambda>_ _. False) s"
proof -
  let ?bytes = "wire_chain c @ extra"
  have ok: "wf_blockchain c" "signatures_fit (block_list c)"
    "unat (num_leading_zero_bytes_required_in_block_hash c) \<le> SHA256_DIGEST_LENGTH"
    "valid_chain ssl bo (num_leading_zero_bytes_required_in_block_hash c) (block_list c)"
    using c by (auto simp: deliverable_def acceptable_def)
  have size: "unat (of_nat (length ?bytes) :: u64) = wire_chain_size c + length extra"
    using b by (simp add: length_wire_chain [OF ok(1)] unsigned_of_nat take_bit_eq_mod del: of_nat_add)
  have acc: "\<forall>b \<in> set (block_list c). \<forall>t \<in> set (transaction_list b). length_accepted 0 t"
    using ok(2) by (force simp: signatures_fit_def length_accepted_def size_defs dest: bspec)
  have read: "wp (blockchain_deserialize bo now True (Some ?bytes) (of_nat (length ?bytes)))
      (\<lambda>v u. v = c \<and> alloc_step t u) (\<lambda>_ _. False) t" if "no_oom t" for t :: net
    by (rule wp_mono [OF wp_frame [OF wp_blockchain_deserialize [OF ok(1) acc] blockchain_deserialize_frame]])
      (use that in \<open>auto simp: size simp del: length_append\<close>)
  have verify: "wp (blockchain_verify ssl bo (Some c) True False) Q E t = Q (True, None) t"
    for Q :: "bool \<times> block_t option \<Rightarrow> net \<Rightarrow> bool" and E t
    by (simp add: wp_def valid_chain_verifies [OF assms(1) ok])
  have "data_ok COMMAND_SEND_BLOCKCHAIN (message COMMAND_SEND_BLOCKCHAIN ?bytes)"
    by (rule message_ok [OF b])
  from blockchain_codec.receive_wire [OF this s]
  show ?thesis
    unfolding receive_blockchain_def
  proof (rule_tac wp_seqI, rule_tac wp_mono, assumption, goal_cases)
    case (1 v t)
    then have v: "v = message COMMAND_SEND_BLOCKCHAIN ?bytes" "no_oom t" "sent t = sent s" "sends t = sends s"
      by auto
    show ?case
      unfolding v(1) message_def command_data_t.simps
      by (rule wp_seqI, rule wp_mono [OF read [OF v(2)]])
        (use v in \<open>auto simp: verify alloc_step_def no_oom_def message_def dest: in_set_dropD\<close>)
  qed simp
qed

lemma wp_receive_blockchain:
  assumes "hashing_ok ssl" and "deliverable ssl bo n c"
    and "arriving s = wire_data (chain_message c) @ later" "no_oom s"
  shows "wp (receive_blockchain ssl bo now)
    (\<lambda>v t. v = (chain_message c, c, True) \<and> sent t = sent s \<and> sends t = sends s \<and> no_oom t)
    (\<lambda>_ _. False) s"
  using wp_receive_blockchain_and_extra [OF assms(1,2), of "[]"] deliverable_length [OF assms(2)] assms(3,4)
  by simp

lemma serialize_ignores_length:
  "command_data_serialize code bo (Some (c\<lparr>header := (header c)\<lparr>command_len := k\<rparr>\<rparr>)) True True =
   command_data_serialize code bo (Some c) True True"
  by (simp add: command_data_serialize_def)

lemma send_unsent:
  assumes "cmd = unsent_message COMMAND_SEND_BLOCKCHAIN (wire_chain c) (of_nat (length (wire_chain c)))
    \<or> (\<exists>d. cmd = (chain_message d)\<lparr>data_len := of_nat (length (wire_chain c)), data_bytes := wire_chain c\<rparr>)"
    and "length (wire_chain c) < 2 ^ 62" and "no_oom s" and "None \<notin> set (sends s)"
  shows "wp (send_command bo cmd)
    (\<lambda>_ t. sent t = sent s @ wire_data (chain_message c) \<and> recvs t = recvs s \<and> no_oom t)
    (\<lambda>_ _. False) s"
proof -
  have "send_command bo cmd = seq (command_data_serialize COMMAND_SEND_BLOCKCHAIN bo
        (Some (unsent_message COMMAND_SEND_BLOCKCHAIN (wire_chain c) (of_nat (length (wire_chain c))))) True True)
      (\<lambda>(_, buffer, n). send_all (Some buffer) (unat n))"
    using assms(1)
    by (auto simp: send_command_def command_send_blockchain_serialize_def command_data_serialize_def
        unsent_message_def message_def)
  then show ?thesis
    by (simp only:) (rule wp_mono [OF wp_send_message [OF assms(2)]], use assms(3,4) in auto)
qed

lemma wp_serialize_chain:
  assumes "no_oom s"
  shows "wp (blockchain_serialize bo (Some c) True True)
    (\<lambda>v t. v = (wire_chain c, of_nat (length (wire_chain c))) \<and> no_oom t \<and> sent t = sent s \<and>
       sends t = sends s \<and> recvs t = recvs s) (\<lambda>_ _. False) (s :: net)"
  by (rule wp_mono [OF wp_blockchain_serialize])
    (use assms alloc_step_no_oom in \<open>auto simp: alloc_step_def no_oom_def dest: in_set_dropD\<close>)

section \<open>The two sides\<close>

definition connection_ok :: "net \<Rightarrow> bool" where
  "connection_ok c \<longleftrightarrow> no_oom c \<and> None \<notin> set (sends c)"

lemma wp_handle_one_consensus_request:
  assumes "hashing_ok ssl" and "connection_ok (conn m)"
    and "holds (shared m) b" and "deliverable ssl bo n a" and "deliverable ssl bo n b"
    and "arriving (conn m) = wire_data (chain_message a) @ later"
  shows "wp (handle_one_consensus_request ssl bo now None None)
    (\<lambda>_ t. shared t = offered (shared m) a \<and>
       sent (conn t) = sent (conn m) @ wire_data (chain_message (longer b a))) (\<lambda>_ _. False) m"
  unfolding handle_one_consensus_request_def
proof (rule wp_seqI, unfold wp_on_conn,
    rule wp_mono [OF wp_receive_blockchain [OF assms(1,4,6)]], goal_cases)
  case 1
  then show ?case using assms(2) by (simp add: connection_ok_def)
next
  case (2 v c)
  let ?m = "m\<lparr>conn := c, shared := offered (shared m) a\<rparr>"
  have len: "length (wire_chain (longer b a)) < 2 ^ 62"
    using assms(4,5) deliverable_length by (auto simp: longer_def)
  have c: "no_oom c" "None \<notin> set (sends c)" "sent c = sent (conn m)"
    using 2 assms(2) by (auto simp: connection_ok_def)
  have reply: "wp (seq (on_conn (blockchain_serialize bo (Some (longer b a)) True True)) (\<lambda>(bytes, len).
       seq (pthread None) (\<lambda>_.
       on_conn (send_command bo ((chain_message a)\<lparr>data_len := len, data_bytes := bytes\<rparr>)))))
    (\<lambda>_ t. shared t = offered (shared m) a \<and>
       sent (conn t) = sent (conn m) @ wire_data (chain_message (longer b a))) (\<lambda>_ _. False) ?m"
    by (rule wp_seqI, unfold wp_on_conn, rule wp_mono [OF wp_serialize_chain])
      (use c len in \<open>auto intro!: wp_mono [OF send_unsent [where c = "longer b a"]]\<close>)
  show ?case
    using 2(1) reply
    by (auto simp del: wp_seq intro!: wp_seqI wp_consider_chain [OF assms(3,5,4)]
        simp: wp_our_chain [OF holds_offered [OF assms(3)]])
qed simp

text \<open>The client before and after it waits for the peer.\<close>

definition client_request ::
  "byte_order \<Rightarrow> return_code_t option \<Rightarrow> return_code_t option \<Rightarrow> (ledger node, unit) prog" where
  "client_request bo lock unlock =
     seq (pthread lock) (\<lambda>_.
     seq (on_shared our_chain) (\<lambda>our_blockchain.
     seq (on_conn (blockchain_serialize bo (Some our_blockchain) True True)) (\<lambda>(bytes, len).
     seq (pthread unlock) (\<lambda>_.
     on_conn (send_command bo (unsent_message COMMAND_SEND_BLOCKCHAIN bytes len))))))"

definition client_response ::
  "'k openssl \<Rightarrow> byte_order \<Rightarrow> u64 \<Rightarrow> return_code_t option \<Rightarrow> return_code_t option \<Rightarrow> (ledger node, unit) prog" where
  "client_response ssl bo now lock unlock =
     seq (on_conn (receive_blockchain ssl bo now)) (\<lambda>(_, peer_blockchain, peer_blockchain_is_valid).
     if peer_blockchain_is_valid then
       seq (pthread lock) (\<lambda>_.
       seq (on_shared (consider_chain peer_blockchain)) (\<lambda>_.
       pthread unlock))
     else ret ())"

lemma client_once_split:
  "run_consensus_peer_client_once ssl bo now connected lock1 unlock1 lock2 unlock2 =
     seq (require connected FAILURE_NETWORK_FUNCTION) (\<lambda>_.
     seq (client_request bo lock1 unlock1) (\<lambda>_. client_response ssl bo now lock2 unlock2))"
  by (simp add: run_consensus_peer_client_once_def client_request_def client_response_def
      seq_assoc seq_split_assoc split_def)

lemma wp_client_request:
  assumes "connection_ok (conn m)" and "holds (shared m) a" and "deliverable ssl bo n a"
  shows "wp (client_request bo None None)
    (\<lambda>_ t. shared t = shared m \<and> no_oom (conn t) \<and> recvs (conn t) = recvs (conn m) \<and>
       sent (conn t) = sent (conn m) @ wire_data (chain_message a)) (\<lambda>_ _. False) m"
proof -
  have "wp (seq (on_conn (blockchain_serialize bo (Some a) True True)) (\<lambda>(bytes, len).
       seq (pthread None) (\<lambda>_.
       on_conn (send_command bo (unsent_message COMMAND_SEND_BLOCKCHAIN bytes len)))))
    (\<lambda>_ t. shared t = shared m \<and> no_oom (conn t) \<and> recvs (conn t) = recvs (conn m) \<and>
       sent (conn t) = sent (conn m) @ wire_data (chain_message a)) (\<lambda>_ _. False) m"
    by (rule wp_seqI, unfold wp_on_conn, rule wp_mono [OF wp_serialize_chain])
      (use assms(1) deliverable_length [OF assms(3)] in
        \<open>auto simp: connection_ok_def intro!: wp_mono [OF send_unsent [where c = a]]\<close>)
  then show ?thesis
    by (simp add: client_request_def wp_our_chain [OF assms(2)] del: wp_seq wp_on_conn)
      (rule wp_seqI, simp only: wp_on_shared wp_our_chain [OF assms(2)], simp)
qed

lemma wp_client_response:
  assumes "hashing_ok ssl" and "no_oom (conn m)"
    and "holds (shared m) a" and "deliverable ssl bo n a" and "deliverable ssl bo n b"
    and "arriving (conn m) = wire_data (chain_message b) @ later"
  shows "wp (client_response ssl bo now None None)
    (\<lambda>_ t. shared t = offered (shared m) b \<and> sent (conn t) = sent (conn m)) (\<lambda>_ _. False) m"
  unfolding client_response_def
  by (rule wp_seqI, unfold wp_on_conn,
      rule wp_mono [OF wp_receive_blockchain [OF assms(1,5), where later = later]])
    (use assms(2,6) in \<open>auto intro!: wp_consider_chain [OF assms(3,4,5)]\<close>)

lemma wp_run_consensus_peer_client_once:
  assumes "hashing_ok ssl" and "connection_ok (conn m)"
    and "holds (shared m) a" and "deliverable ssl bo n a" and "deliverable ssl bo n b"
    and "arriving (conn m) = wire_data (chain_message b) @ later"
  shows "wp (run_consensus_peer_client_once ssl bo now True None None None None)
    (\<lambda>_ t. shared t = offered (shared m) b \<and>
       sent (conn t) = sent (conn m) @ wire_data (chain_message a)) (\<lambda>_ _. False) m"
proof -
  have "wp (seq (client_request bo None None) (\<lambda>_. client_response ssl bo now None None))
      (\<lambda>_ t. shared t = offered (shared m) b \<and>
         sent (conn t) = sent (conn m) @ wire_data (chain_message a)) (\<lambda>_ _. False) m"
    by (rule wp_seqI, rule wp_mono [OF wp_client_request [OF assms(2,3,4)]])
      (use assms in \<open>auto intro!: wp_mono [OF wp_client_response [OF assms(1) _ _ assms(4,5)]]\<close>)
  then show ?thesis by (simp add: client_once_split)
qed

section \<open>Properties\<close>

text \<open>C3. Two honest nodes with valid chains of the same difficulty, working connections and
  memory exchange their chains: when each receives what the other sends, both sides return
  SUCCESS, and both then hold a chain of the greater length, the same one when the lengths
  differ; a node that has a longest chain already keeps it and its version.\<close>

theorem exchange_reaches_longest_chain:
  assumes "hashing_ok ssl" and "connection_ok (conn client)" and "connection_ok (conn server)"
    and "holds (shared client) a" and "holds (shared server) b"
    and "deliverable ssl bo n a" and "deliverable ssl bo n b"
    and "arriving (conn server) = wire_data (chain_message a)"
    and "arriving (conn client) = wire_data (chain_message (longer b a))"
  shows "wp (run_consensus_peer_client_once ssl bo now True None None None None)
      (\<lambda>_ t. sent (conn t) = sent (conn client) @ arriving (conn server) \<and>
         shared t = offered (shared client) b \<and> holds (shared t) (longer a b))
      (\<lambda>_ _. False) client \<and>
    wp (handle_one_consensus_request ssl bo now' None None)
      (\<lambda>_ t. sent (conn t) = sent (conn server) @ arriving (conn client) \<and>
         shared t = offered (shared server) a \<and> holds (shared t) (longer b a))
      (\<lambda>_ _. False) server \<and>
    length (block_list (longer a b)) = length (block_list (longer b a)) \<and>
    (longer a b = longer b a \<or> length (block_list a) = length (block_list b))"
proof (intro conjI)
  have same: "offered (shared client) (longer b a) = offered (shared client) b"
    using holds_chain_of [OF assms(4)] by (auto simp: offered_def longer_def)
  have d: "deliverable ssl bo n (longer b a)" using assms(6,7) by (simp add: longer_def)
  show "wp (run_consensus_peer_client_once ssl bo now True None None None None)
      (\<lambda>_ t. sent (conn t) = sent (conn client) @ arriving (conn server) \<and>
         shared t = offered (shared client) b \<and> holds (shared t) (longer a b))
      (\<lambda>_ _. False) client"
    by (rule wp_mono [OF wp_run_consensus_peer_client_once [OF assms(1,2,4,6) d, where later = "[]"]])
      (use assms(8,9) holds_offered [OF assms(4), of b] in \<open>auto simp: same\<close>)
  show "wp (handle_one_consensus_request ssl bo now' None None)
      (\<lambda>_ t. sent (conn t) = sent (conn server) @ arriving (conn client) \<and>
         shared t = offered (shared server) a \<and> holds (shared t) (longer b a))
      (\<lambda>_ _. False) server"
    by (rule wp_mono [OF wp_handle_one_consensus_request [OF assms(1,3,5,6,7), where later = "[]"]])
      (use assms(8,9) holds_offered [OF assms(5), of a] in auto)
qed (auto simp: longer_def)

definition toy_peer :: "blockchain_t \<Rightarrow> u8 list \<Rightarrow> ledger node" where
  "toy_peer c bytes = \<lparr>conn = toy_net [Received (take 20 bytes), Received (drop 20 bytes)] [Some 3],
     shared = toy_ledger c\<rparr>"

lemma toy_deliverable:
  "deliverable (toy_ssl 4) Little_Endian 3 toy_start"
  "deliverable (toy_ssl 4) Little_Endian 3 (toy_chain [toy_mint])"
proof -
  show "deliverable (toy_ssl 4) Little_Endian 3 toy_start"
    using toy_chain_facts(9) [of Little_Endian]
    by (simp add: deliverable_def acceptable_def toy_start_def wf_blockchain_def wf_toy_genesis
        signatures_fit_def size_defs wire_chain_size_def wire_block_size_def)
  show "deliverable (toy_ssl 4) Little_Endian 3 (toy_chain [toy_mint])"
    using toy_chain_facts(2,4) toy_chain_facts(7) [of Little_Endian]
    by (simp add: deliverable_def acceptable_def size_defs toy_chain_size)
qed

theorem exchange_reaches_longest_chain_witness:
  "wp (run_consensus_peer_client_once (toy_ssl 4) Little_Endian 7 True None None None None)
     (\<lambda>_ t. holds (shared t) (toy_chain [toy_mint]) \<and> sync_version (shared t) = 1) (\<lambda>_ _. False)
     (toy_peer toy_start (wire_data (chain_message (toy_chain [toy_mint])))) \<and>
   wp (handle_one_consensus_request (toy_ssl 4) Little_Endian 9 None None)
     (\<lambda>_ t. holds (shared t) (toy_chain [toy_mint]) \<and> sync_version (shared t) = 0) (\<lambda>_ _. False)
     (toy_peer (toy_chain [toy_mint]) (wire_data (chain_message toy_start)))"
proof -
  have l: "longer toy_start (toy_chain [toy_mint]) = toy_chain [toy_mint]"
    "longer (toy_chain [toy_mint]) toy_start = toy_chain [toy_mint]"
    by (simp_all add: longer_def toy_start_def)
  have conn: "connection_ok (conn (toy_peer c bytes))" "holds (shared (toy_peer c bytes)) c"
    "arriving (conn (toy_peer c bytes)) = bytes" for c bytes
    by (simp_all add: connection_ok_def toy_peer_def toy_net_def holds_def toy_ledger_def)
  have v: "sync_version (offered (shared (toy_peer toy_start x)) (toy_chain [toy_mint])) = 1"
    "sync_version (offered (shared (toy_peer (toy_chain [toy_mint]) x)) toy_start) = 0" for x
    by (simp_all add: offered_def toy_peer_def toy_ledger_def chain_of_def toy_start_def)
  let ?short = "toy_peer toy_start (wire_data (chain_message (toy_chain [toy_mint])))"
    and ?long = "toy_peer (toy_chain [toy_mint]) (wire_data (chain_message toy_start))"
  note run = exchange_reaches_longest_chain [OF toy_chain_facts(1) conn(1) conn(1) conn(2) conn(2) toy_deliverable,
      unfolded conn(3) l, OF refl refl, of 7 9]
  show ?thesis
    by (intro conjI; rule wp_mono [OF run [THEN conjunct1]] wp_mono [OF run [THEN conjunct2, THEN conjunct1]])
      (auto simp: v)
qed

end
