(* ===== verification/Mining_Thread.thy ===== *)
theory Mining_Thread
  imports Exchange
begin

text \<open>
  src/mining_thread.c: the miner reads the pointer to the current chain, builds and mines a block
  for the chain it points to, appends it, and starts again; when the version of the chain has
  changed it reads the pointer again and destroys the chain it held. Meanwhile other threads
  switch the pointer. The steps of the thread are those between which another thread can be seen
  to act; an \<open>answers\<close> holds what the calls of one step return.
\<close>

section \<open>State\<close>

text \<open>What the miner does when it reads a destroyed chain, joins a thread handle that was never
  set, writes through the result of a failed malloc, or reads through a null pointer or outside
  an object.\<close>

datatype fault = Use_After_Free | Uninitialised_Join | Unchecked_Malloc | Bad_Access

text \<open>Where the thread is, with the local variables that matter there: the pointer
  \<open>blockchain\<close>; in \<open>Check_Version\<close> also the return code that stands when the loop is left; in
  \<open>Drop\<close> the old pointer and the new; in \<open>Mine\<close> the pointer that
  \<open>synchronized_blockchain_mine_block\<close> read for itself and the variables of its loop.\<close>

datatype miner_pc =
    Start
  | Check_Version addr return_code_t
  | Reload addr
  | Drop addr addr
  | Publish addr
  | Build addr
  | Enter addr block_t
  | Mine addr addr "u64 \<times> nat \<times> sha_256_t" mining
  | Add addr block_t
  | Returned return_code_t
  | Faulty fault

record miner = exit_flag +
  ledger_of :: ledger
  mined_version :: u64
  has_broadcast :: bool
  saved :: "u8 list option"
  pc :: miner_pc

record answers =
  should_stop :: bool
  locked :: bool
  unlocked :: bool
  created_thread :: bool
  transaction_time :: u64
  block_time :: u64
  file_calls :: stdio

record mine_blocks_args_t =
  miner_public_key :: ssh_key_t
  miner_private_key :: ssh_key_t
  print_progress :: bool
  outfile :: "string option"

section \<open>Building the next block\<close>

definition build_block ::
  "'k openssl \<Rightarrow> byte_order \<Rightarrow> mine_blocks_args_t \<Rightarrow> u64 \<Rightarrow> u64 \<Rightarrow> blockchain_t \<Rightarrow>
    ('z env_scheme, block_t) prog" where
  "build_block ssl bo args transaction_now block_now chain =
     seq (blockchain_verify ssl bo (Some chain) True True) (\<lambda>(is_valid_blockchain, first_invalid_block).
     if \<not> is_valid_blockchain then
       (if first_invalid_block = None then undef else fail FAILURE_INVALID_BLOCKCHAIN)
     else
       seq (ll_get_last (block_list chain)) (\<lambda>previous_block.
       seq (block_hash ssl bo (Some previous_block) True) (\<lambda>previous_block_hash.
       seq ll_create (\<lambda>transaction_list.
       seq (transaction_create ssl bo transaction_now True (Some (miner_public_key args))
         (Some (miner_public_key args)) AMOUNT_GENERATED_DURING_MINTING (Some (miner_private_key args)))
         (\<lambda>mint_coin_transaction.
       seq (ll_prepend transaction_list mint_coin_transaction) (\<lambda>transaction_list.
       block_create block_now True (Some transaction_list) 0 previous_block_hash))))))"

section \<open>The steps of the miner\<close>

text \<open>Destroying a chain that has been destroyed reads its block list.\<close>

definition blockchain_destroy :: "addr option \<Rightarrow> ('z ledger_scheme, unit) prog" where
  "blockchain_destroy chain =
     (case chain of
        None \<Rightarrow> fail FAILURE_INVALID_INPUT
      | Some p \<Rightarrow>
          seq (load_chain p) (\<lambda>_. modify (\<lambda>l. l\<lparr>chains := (chains l)(p := None)\<rparr>)))"

lemma blockchain_destroy_eq [simp]:
  "blockchain_destroy (Some p) l =
     (if chains l p = None then (Undefined, l) else (Ok (), l\<lparr>chains := (chains l)(p := None)\<rparr>))"
  by (auto simp: blockchain_destroy_def load_chain_def seq_def prog_basic)

text \<open>What main calls when the miner has returned, while the server thread goes on; \<open>sync\<close> is whether
  the pointer is not null.\<close>

definition synchronized_blockchain_destroy :: "bool \<Rightarrow> ('z ledger_scheme, unit) prog" where
  "synchronized_blockchain_destroy sync =
     (if \<not> sync then fail FAILURE_INVALID_INPUT
      else seq get (\<lambda>l. blockchain_destroy (Some (current l))))"

lemma shutdown_leaves_dangling_chain:
  "ledger_ok ssl bo n l \<Longrightarrow>
    \<exists>t. synchronized_blockchain_destroy True l = (Ok (), t) \<and> fst (consider_chain c t) = Undefined"
  by (auto simp: synchronized_blockchain_destroy_def seq_def prog_basic ledger_ok_def consider_chain_def
      count_ours_def our_chain_def load_chain_def ll_length_def)

text \<open>The end of the function: the code is stored in memory whose allocation is not checked.\<close>

definition finish :: "return_code_t \<Rightarrow> miner \<Rightarrow> miner" where
  "finish return_code w =
     (case malloc (ledger_of w) of
        (Ok True, l) \<Rightarrow> w\<lparr>ledger_of := l, pc := Returned return_code\<rparr>
      | (_, l) \<Rightarrow> w\<lparr>ledger_of := l, pc := Faulty Unchecked_Malloc\<rparr>)"

text \<open>\<open>pthread_join\<close> of the broadcast thread; \<open>joins_garbage\<close> says whether the platform returns
  from it when the handle has never been set.\<close>

definition join_broadcast :: "bool \<Rightarrow> miner \<Rightarrow> (miner \<Rightarrow> miner) \<Rightarrow> miner" where
  "join_broadcast joins_garbage w k =
     (if has_broadcast w \<or> joins_garbage then k w else w\<lparr>pc := Faulty Uninitialised_Join\<rparr>)"

text \<open>The checks at the start of an iteration of the mining loop read the flag and the versions at
  that moment.\<close>

definition mine_iteration ::
  "'k openssl \<Rightarrow> byte_order \<Rightarrow> mine_blocks_args_t \<Rightarrow> answers \<Rightarrow> miner \<Rightarrow> blockchain_t \<Rightarrow>
    u64 \<times> nat \<times> sha_256_t \<Rightarrow> (mining, (u64 \<times> nat \<times> sha_256_t) + unit) prog" where
  "mine_iteration ssl bo args a w c =
     mining_body ssl bo c (print_progress args) (\<lambda>p digest.
       seq (stop_check (\<lambda>_. should_stop a) p) (\<lambda>_.
       version_check (print_progress args) (\<lambda>_. mined_version w) (\<lambda>_. sync_version (ledger_of w)) p digest))"

text \<open>What follows a failure of \<open>synchronized_blockchain_mine_block\<close>: only the code of the first
  is kept when the loop goes on.\<close>

definition after_mining :: "addr \<Rightarrow> return_code_t \<Rightarrow> miner \<Rightarrow> miner" where
  "after_mining p return_code w =
     (if return_code = FAILURE_COULD_NOT_FIND_VALID_PROOF_OF_WORK then w\<lparr>pc := Check_Version p return_code\<rparr>
      else if return_code = FAILURE_LONGER_BLOCKCHAIN_DETECTED \<or> return_code = FAILURE_STOPPED_EARLY
        then w\<lparr>pc := Check_Version p SUCCESS\<rparr>
      else finish return_code w)"

text \<open>A chain of \<open>2 ^ 64 - 1\<close> nodes leaves no memory for the next.\<close>

definition extend_chain :: "blockchain_t \<Rightarrow> block_t \<Rightarrow> ('z env_scheme, blockchain_t) prog" where
  "extend_chain c b =
     (if 2 ^ 64 \<le> Suc (length (block_list c)) then fail FAILURE_COULD_NOT_MALLOC
      else blockchain_add_block (Some c) (Some b))"

text \<open>The chain is written to the file, if there is one; whether that succeeds is ignored. \<open>saved\<close> is
  what the miner has written to it last.\<close>

definition save_chain :: "byte_order \<Rightarrow> stdio \<Rightarrow> string option \<Rightarrow> blockchain_t \<Rightarrow> miner \<Rightarrow> miner" where
  "save_chain bo io file chain w =
     (case file of
        None \<Rightarrow> w
      | Some name \<Rightarrow>
          (case blockchain_write_to_file bo io (Some chain) (Some name)
              \<lparr>mallocs = mallocs (ledger_of w), contents = (\<lambda>_. saved w)\<rparr> of
             (_, t) \<Rightarrow> w\<lparr>ledger_of := (ledger_of w)\<lparr>mallocs := mallocs t\<rparr>, saved := contents t name\<rparr>))"

fun miner_step ::
  "'k openssl \<Rightarrow> byte_order \<Rightarrow> mine_blocks_args_t \<Rightarrow> bool \<Rightarrow> answers \<Rightarrow> miner \<Rightarrow> miner_pc \<Rightarrow> miner" where
  "miner_step ssl bo args joins_garbage a w Start =
     (if locked a \<and> unlocked a then w\<lparr>pc := Check_Version (current (ledger_of w)) SUCCESS\<rparr>
      else finish FAILURE_PTHREAD_FUNCTION w)"
| "miner_step ssl bo args joins_garbage a w (Check_Version p return_code) =
     (if should_stop a then join_broadcast joins_garbage w (\<lambda>w. finish return_code (announced w))
      else if mined_version w \<noteq> sync_version (ledger_of w) then w\<lparr>pc := Reload p\<rparr>
      else w\<lparr>pc := Build p\<rparr>)"
| "miner_step ssl bo args joins_garbage a w (Reload old) =
     (if locked a \<and> unlocked a then w\<lparr>pc := Drop old (current (ledger_of w))\<rparr>
      else finish FAILURE_PTHREAD_FUNCTION w)"
| "miner_step ssl bo args joins_garbage a w (Drop old p) =
     (case blockchain_destroy (Some old) (ledger_of w) of
        (Ok _, l) \<Rightarrow> w\<lparr>ledger_of := l, pc := Publish p\<rparr>
      | (Fail e, l) \<Rightarrow> finish e (w\<lparr>ledger_of := l\<rparr>)
      | (_, l) \<Rightarrow> w\<lparr>ledger_of := l, pc := Faulty Use_After_Free\<rparr>)"
| "miner_step ssl bo args joins_garbage a w (Publish p) =
     (let w = w\<lparr>mined_version := sync_version (ledger_of w)\<rparr> in
      if locked a \<and> unlocked a then w\<lparr>pc := Build p\<rparr> else finish FAILURE_PTHREAD_FUNCTION w)"
| "miner_step ssl bo args joins_garbage a w (Build p) =
     (case chains (ledger_of w) p of
        None \<Rightarrow> w\<lparr>pc := Faulty Use_After_Free\<rparr>
      | Some c \<Rightarrow>
          (case build_block ssl bo args (transaction_time a) (block_time a) c (ledger_of w) of
             (Ok next_block, l) \<Rightarrow> w\<lparr>ledger_of := l, pc := Enter p next_block\<rparr>
           | (Fail e, l) \<Rightarrow> finish e (w\<lparr>ledger_of := l\<rparr>)
           | (_, l) \<Rightarrow> w\<lparr>ledger_of := l, pc := Faulty Bad_Access\<rparr>))"
| "miner_step ssl bo args joins_garbage a w (Enter p next_block) =
     (if locked a \<and> unlocked a then
        w\<lparr>pc := Mine p (current (ledger_of w)) (0, 0, zero_hash)
          \<lparr>mining_block = next_block, printed = []\<rparr>\<rparr>
      else after_mining p FAILURE_PTHREAD_FUNCTION w)"
| "miner_step ssl bo args joins_garbage a w (Mine p q x m) =
     (case chains (ledger_of w) q of
        None \<Rightarrow> w\<lparr>pc := Faulty Use_After_Free\<rparr>
      | Some c \<Rightarrow>
          (case mine_iteration ssl bo args a w c x m of
             (Ok (Inl y), m') \<Rightarrow> w\<lparr>pc := Mine p q y m'\<rparr>
           | (Ok (Inr _), m') \<Rightarrow> w\<lparr>pc := Add p (mining_block m')\<rparr>
           | (Fail e, m') \<Rightarrow> after_mining p e w
           | (_, m') \<Rightarrow> w\<lparr>pc := Faulty Bad_Access\<rparr>))"
| "miner_step ssl bo args joins_garbage a w (Add p next_block) =
     (case chains (ledger_of w) p of
        None \<Rightarrow> w\<lparr>pc := Faulty Use_After_Free\<rparr>
      | Some c \<Rightarrow>
          (case extend_chain c next_block (ledger_of w) of
             (Ok c', l) \<Rightarrow>
               join_broadcast joins_garbage (save_chain bo (file_calls a) (outfile args) c'
                   (w\<lparr>ledger_of := l\<lparr>chains := (chains l)(p \<mapsto> c')\<rparr>\<rparr>))
                 (\<lambda>w. w\<lparr>has_broadcast := created_thread a, pc := Check_Version p SUCCESS\<rparr>)
           | (Fail e, l) \<Rightarrow> finish e (w\<lparr>ledger_of := l\<rparr>)
           | (_, l) \<Rightarrow> w\<lparr>ledger_of := l, pc := Faulty Bad_Access\<rparr>))"
| "miner_step ssl bo args joins_garbage a w (Returned return_code) = w"
| "miner_step ssl bo args joins_garbage a w (Faulty f) = w"

section \<open>Announcing a block\<close>

text \<open>The thread that mine_blocks starts for each block: \<open>initialised\<close> is whether the condition
  variable and the mutex are; its result is thrown away.\<close>

definition broadcast_blockchain ::
  "'k openssl \<Rightarrow> byte_order \<Rightarrow> bool \<Rightarrow> return_code_t option \<Rightarrow> return_code_t option \<Rightarrow>
    (peer_info_t \<Rightarrow> net \<times> (u64 \<times> bool \<times> return_code_t option \<times> return_code_t option \<times>
      return_code_t option \<times> return_code_t option) \<times> bool) \<Rightarrow>
    peer_info_t list option \<Rightarrow> (ledger, unit) prog" where
  "broadcast_blockchain ssl bo initialised lock unlock attempt_at peers =
     (case peers of
        None \<Rightarrow> ret ()
      | Some ps \<Rightarrow>
          if \<not> initialised then ret ()
          else seq (run_thread (run_consensus_peer_client ssl bo lock unlock False attempt_at ps)) (\<lambda>_. ret ()))"

lemma broadcast_keeps:
  "hashing_ok ssl \<Longrightarrow> ledger_ok ssl bo n l \<Longrightarrow>
    whenever (broadcast_blockchain ssl bo initialised lock unlock attempt_at peers)
      (\<lambda>_. kept_from ssl bo n l) (\<lambda>_ _. False) l"
  by (auto simp: broadcast_blockchain_def run_thread_whenever split: option.split
      intro!: whenever_mono [OF run_consensus_peer_client_keeps])

section \<open>The node\<close>

text \<open>Beside the miner run any number of threads that offer the chains they have verified. At most one
  of them holds the mutex; it has counted the blocks of our chain, and what it goes on with is the
  chain it offers, the pointer it read and the number. While it holds the mutex the miner
  cannot take it, but goes on with everything else.\<close>

type_synonym critical = "(blockchain_t \<times> addr \<times> u64) option"

fun takes_mutex :: "miner_pc \<Rightarrow> bool" where
  "takes_mutex Start = True"
| "takes_mutex (Reload old) = True"
| "takes_mutex (Enter p next_block) = True"
| "takes_mutex s = False"

inductive node_step ::
  "'k openssl \<Rightarrow> byte_order \<Rightarrow> mine_blocks_args_t \<Rightarrow> bool \<Rightarrow> miner \<times> critical \<Rightarrow> miner \<times> critical \<Rightarrow> bool"
  for ssl bo args joins_garbage where
  mine: "takes_mutex (pc w) \<and> locked a \<longrightarrow> x = None \<Longrightarrow>
    node_step ssl bo args joins_garbage (w, x) (miner_step ssl bo args joins_garbage a w (pc w), x)"
| count: "acceptable ssl bo (num_leading_zero_bytes_required_in_block_hash c) c \<Longrightarrow>
    count_ours (ledger_of w) = (Ok ours, l) \<Longrightarrow>
    node_step ssl bo args joins_garbage (w, None) (w\<lparr>ledger_of := l\<rparr>, Some (c, ours))"
| switch: "switch_if_longer c ours (ledger_of w) = (Ok switched, l) \<Longrightarrow>
    node_step ssl bo args joins_garbage (w, Some (c, ours)) (w\<lparr>ledger_of := l\<rparr>, None)"
| count_fault: "count_ours (ledger_of w) = (Undefined, l) \<Longrightarrow>
    node_step ssl bo args joins_garbage (w, None) (w\<lparr>pc := Faulty Use_After_Free\<rparr>, None)"
| switch_fault: "switch_if_longer c ours (ledger_of w) = (Undefined, l) \<Longrightarrow>
    node_step ssl bo args joins_garbage (w, Some (c, ours)) (w\<lparr>pc := Faulty Use_After_Free\<rparr>, None)"

abbreviation node_steps ::
  "'k openssl \<Rightarrow> byte_order \<Rightarrow> mine_blocks_args_t \<Rightarrow> bool \<Rightarrow> miner \<times> critical \<Rightarrow> miner \<times> critical \<Rightarrow> bool" where
  "node_steps ssl bo args joins_garbage \<equiv> (node_step ssl bo args joins_garbage)\<^sup>*\<^sup>*"

text \<open>What the miner becomes from a moment at which the mutex is free.\<close>

definition steps ::
  "'k openssl \<Rightarrow> byte_order \<Rightarrow> mine_blocks_args_t \<Rightarrow> bool \<Rightarrow> miner \<Rightarrow> miner \<Rightarrow> bool" where
  "steps ssl bo args joins_garbage w v \<longleftrightarrow>
     (\<exists>x. node_steps ssl bo args joins_garbage (w, None) (v, x))"

lemma free_steps: "node_steps ssl bo args jg (w, None) (v, x) \<Longrightarrow> steps ssl bo args jg w v"
  by (auto simp: steps_def)

lemma steps_trans:
  "node_steps ssl bo args jg (w, None) (v, None) \<Longrightarrow> steps ssl bo args jg v u \<Longrightarrow> steps ssl bo args jg w u"
  by (auto simp: steps_def dest: rtranclp_trans)

section \<open>The block that is built\<close>

text \<open>Valid chains of a difficulty within the digest are found valid, whatever length their
  signatures state.\<close>

lemma verify_signatures_valid:
  "\<forall>t \<in> set ts. signature_outcome ssl bo t = Ok True \<Longrightarrow> verify_signatures ssl bo ts s = (Ok True, s)"
  by (induction ts) (auto simp: seq_def verify_signature_outcome prog_basic)

lemma verify_blocks_valid:
  assumes "hashing_ok ssl" and "unat n \<le> SHA256_DIGEST_LENGTH" and "\<forall>b \<in> set bs. wf_block b"
    and "successively (block_ok ssl bo n) (a # bs)"
  shows "verify_blocks ssl bo want n (hash_of ssl bo a) bs s = (Ok (True, None), s)"
  using assms(3,4)
proof (induction bs arbitrary: a)
  case Nil
  then show ?case by (simp add: ret_def)
next
  case (Cons b bs)
  have ok: "block_ok ssl bo n a b" "successively (block_ok ssl bo n) (b # bs)" "wf_block b"
    using Cons.prems by auto
  obtain m ts where tx: "transaction_list b = m # ts"
    using ok(1) by (cases "transaction_list b") (auto simp: block_ok_def minting_ok_def)
  have len: "length (hash_of ssl bo x) = 32" for x
    using length_hash_of [OF assms(1)] by (simp add: SHA256_DIGEST_LENGTH_def)
  have "wf_transaction m" using ok(3) tx by (simp add: wf_block_def)
  then show ?case
    using Cons.IH [OF _ ok(2)] Cons.prems ok len assms(1,2) verify_signatures_valid [of "m # ts" ssl bo s]
    by (simp del: verify_signatures.simps add: Let_def hashing_ok_def hash_of_def [symmetric] memcmp_def
        tx block_ok_def minting_ok_def wf_block_def wf_transaction_def wf_key_def seq_Ok ret_def
        compare_bytes_eq_0_iff zero_hash_def size_defs min_def)
qed

lemma acceptable_verifies:
  assumes "hashing_ok ssl" and "unat n \<le> SHA256_DIGEST_LENGTH" and "acceptable ssl bo n c"
  shows "blockchain_verify ssl bo (Some c) True want s = (Ok (True, None), s)"
proof (cases "block_list c")
  case Nil
  then show ?thesis by (simp add: blockchain_verify_def ret_def)
next
  case (Cons g bs)
  have "wf_block g" "\<forall>b \<in> set bs. wf_block b" and n: "num_leading_zero_bytes_required_in_block_hash c = n"
    and "genesis_ok g" "successively (block_ok ssl bo n) (g # bs)"
    using assms(3) Cons by (auto simp: acceptable_def wf_blockchain_def valid_chain_def)
  then show ?thesis
    using assms(1) verify_blocks_valid [OF assms(1,2), of bs bo g want s]
    by (simp add: blockchain_verify_def Cons Let_def genesis_ok_def hashing_ok_def memcmp_def
        hash_of_def [symmetric] compare_bytes_eq_0_iff wf_block_def zero_hash_def size_defs)
qed

text \<open>The miner's keys belong together and OpenSSL is not short of resources.\<close>

definition openssl_ok :: "'k openssl \<Rightarrow> mine_blocks_args_t \<Rightarrow> bool" where
  "openssl_ok ssl args \<longleftrightarrow> hashing_ok ssl \<and> verifying_ok ssl \<and>
     key_pair ssl (miner_private_key args) (miner_public_key args) \<and> wf_key (miner_public_key args)"

text \<open>A block that lacks only the proof of work to follow the last block of \<open>c\<close>.\<close>

definition candidate :: "'k openssl \<Rightarrow> byte_order \<Rightarrow> blockchain_t \<Rightarrow> block_t \<Rightarrow> bool" where
  "candidate ssl bo c b \<longleftrightarrow> block_list c \<noteq> [] \<and> wf_block b \<and>
     previous_block_hash b = hash_of ssl bo (last (block_list c)) \<and> minting_ok (transaction_list b) \<and>
     (\<forall>t \<in> set (transaction_list b). signature_outcome ssl bo t = Ok True)"

lemma candidate_proof_of_work [simp]:
  "candidate ssl bo c (b\<lparr>proof_of_work := p\<rparr>) \<longleftrightarrow> candidate ssl bo c b"
  by (simp add: candidate_def wf_block_def)

lemma candidate_accepted:
  assumes "candidate ssl bo c b" and "good_proof ssl bo n b p" and "acceptable ssl bo n c"
    and "Suc (length (block_list c)) < 2 ^ 64"
  shows "acceptable ssl bo n (c\<lparr>block_list := block_list c @ [b\<lparr>proof_of_work := p\<rparr>]\<rparr>)"
  using assms good_proof_block_ok [OF assms(2), of "last (block_list c)"]
  by (auto simp: acceptable_def candidate_def valid_chain_append1 wf_blockchain_def wf_block_def)

text \<open>The codes that mine_blocks returns when it has left its loop because it was asked to stop.\<close>

abbreviation stop_code :: "return_code_t \<Rightarrow> bool" where
  "stop_code c \<equiv> c = SUCCESS \<or> c = FAILURE_COULD_NOT_FIND_VALID_PROOF_OF_WORK"

lemma wp_build_block:
  assumes ssl: "openssl_ok ssl args" and "unat n \<le> SHA256_DIGEST_LENGTH" and c: "acceptable ssl bo n c"
  shows "wp (build_block ssl bo args tnow bnow c)
    (\<lambda>b t. candidate ssl bo c b \<and> alloc_step s t) (\<lambda>e t. alloc_step s t \<and> \<not> stop_code e) (s :: 'z env_scheme)"
proof -
  have hash: "hashing_ok ssl" "md_ctx_new ssl" and wf: "wf_key (miner_public_key args)"
    and pair: "key_pair ssl (miner_private_key args) (miner_public_key args)"
    using ssl by (auto simp: openssl_ok_def hashing_ok_def)
  obtain v where pub: "read_public_key ssl (miner_public_key args) = Some v"
    using pair by (auto simp: key_pair_def)
  have out: "signature_outcome ssl bo t \<noteq> Fail e" if "sender_public_key t = miner_public_key args" for t e
    by (rule signature_outcome_not_Fail) (use that ssl pub in \<open>auto simp: openssl_ok_def\<close>)
  have len: "length (hash_of ssl bo b) = SHA256_DIGEST_LENGTH" for b
    by (rule length_hash_of [OF hash(1)])
  have verify: "wp (blockchain_verify ssl bo (Some c) True True) Q E u = Q (True, None) u"
    for Q E and u :: "'z env_scheme"
    by (simp add: wp_def acceptable_verifies [OF hash(1) assms(2) c])
  have tail: "wp (seq ll_create (\<lambda>transaction_list.
       seq (transaction_create ssl bo tnow True (Some (miner_public_key args))
         (Some (miner_public_key args)) AMOUNT_GENERATED_DURING_MINTING (Some (miner_private_key args)))
         (\<lambda>mint_coin_transaction.
       seq (ll_prepend transaction_list mint_coin_transaction) (\<lambda>transaction_list.
       block_create bnow True (Some transaction_list) 0 (hash_of ssl bo (last (block_list c)))))))
    (\<lambda>b t. candidate ssl bo c b \<and> alloc_step s t) (\<lambda>e t. alloc_step s t \<and> \<not> stop_code e) s"
    if "block_list c \<noteq> []"
  proof (rule wp_seqI, rule wp_ll_createI, goal_cases)
    case (1 t)
    show ?case
    proof (rule wp_seqI, rule wp_mono [OF wp_transaction_create [OF pair wf wf]], goal_cases)
      case (1 m u)
      then have u: "alloc_step s u" using \<open>alloc_step s t\<close> alloc_step_trans by blast
      have "candidate ssl bo c \<lparr>created_at = bnow, transaction_list = [m], proof_of_work = 0,
          previous_block_hash = hash_of ssl bo (last (block_list c))\<rparr>"
        using 1 out [of m] that len by (auto simp: candidate_def wf_block_def minting_ok_def)
      then show ?case
        unfolding ll_prepend_def block_create_def
        by (auto intro!: wp_allocI) (meson alloc_step_trans u)+
    next
      case (2 e u)
      then show ?case using \<open>alloc_step s t\<close> alloc_step_trans by blast
    qed
  qed simp
  show ?thesis
    unfolding build_block_def
    using tail hash(2)
    by (auto simp del: wp_seq simp: hash_of_def [symmetric] intro!: wp_seqI simp: verify)
qed


section \<open>One iteration of the mining loop\<close>

lemma wp_stop_and_version:
  "wp (seq (stop_check stop p) (\<lambda>_. version_check show mined synced p digest))
    (\<lambda>_ t. \<not> stop p \<and> mined p = synced p \<and> mining_block t = mining_block m)
    (\<lambda>e t. stop p \<and> e = FAILURE_STOPPED_EARLY \<or>
       \<not> stop p \<and> mined p \<noteq> synced p \<and> e = FAILURE_LONGER_BLOCKCHAIN_DETECTED) m"
  by (auto simp: stop_check_def version_check_def)

lemma wp_mine_iteration:
  assumes "hashing_ok ssl" and "num_leading_zero_bytes_required_in_block_hash c = n"
    and "unat n \<le> SHA256_DIGEST_LENGTH"
  shows "wp (mine_iteration ssl bo args a w c (p, best, digest))
    (\<lambda>v t. mining_block t = (mining_block m)\<lparr>proof_of_work := p\<rparr> \<and> p < - 1 \<and> \<not> should_stop a \<and>
      mined_version w = sync_version (ledger_of w) \<and>
      (case v of Inl (q, _) \<Rightarrow> q = p + 1 \<and> \<not> good_proof ssl bo n (mining_block m) p
       | Inr _ \<Rightarrow> good_proof ssl bo n (mining_block m) p))
    (\<lambda>e _. p = - 1 \<and> e = FAILURE_COULD_NOT_FIND_VALID_PROOF_OF_WORK \<or>
       p < - 1 \<and> should_stop a \<and> e = FAILURE_STOPPED_EARLY \<or>
       p < - 1 \<and> \<not> should_stop a \<and> mined_version w \<noteq> sync_version (ledger_of w) \<and>
       e = FAILURE_LONGER_BLOCKCHAIN_DETECTED) m"
proof (cases "p < - 1")
  case True
  let ?check = "seq (stop_check (\<lambda>_. should_stop a) p) (\<lambda>_.
     version_check (print_progress args) (\<lambda>_. mined_version w) (\<lambda>_. sync_version (ledger_of w)) p digest)"
  have "wp (seq ?check (\<lambda>_. try_proof ssl bo c (print_progress args) (p, best, digest)))
    (\<lambda>v t. mining_block t = (mining_block m)\<lparr>proof_of_work := p\<rparr> \<and> \<not> should_stop a \<and>
      mined_version w = sync_version (ledger_of w) \<and>
      (case v of Inl (q, _) \<Rightarrow> q = p + 1 \<and> \<not> good_proof ssl bo n (mining_block m) p
       | Inr _ \<Rightarrow> good_proof ssl bo n (mining_block m) p))
    (\<lambda>e _. should_stop a \<and> e = FAILURE_STOPPED_EARLY \<or>
       \<not> should_stop a \<and> mined_version w \<noteq> sync_version (ledger_of w) \<and>
       e = FAILURE_LONGER_BLOCKCHAIN_DETECTED) m"
    by (rule wp_seqI, rule wp_mono [OF wp_stop_and_version])
      (auto simp del: wp_seq intro!: wp_mono [OF wp_try_proof [OF assms(1) assms(2) [symmetric] assms(3),
        where E = "\<lambda>_ _. False"]] split: sum.splits)
  then show ?thesis
    unfolding mine_iteration_def mining_body_def using True
    by (simp del: wp_seq) (erule wp_mono; auto)
next
  case False
  then have "p = - 1" using word_order.not_eq_extremum [of p] by blast
  then show ?thesis by (simp add: mine_iteration_def mining_body_def)
qed

section \<open>The invariant\<close>

definition alive :: "'k openssl \<Rightarrow> byte_order \<Rightarrow> u64 \<Rightarrow> ledger \<Rightarrow> addr \<Rightarrow> bool" where
  "alive ssl bo n l p \<longleftrightarrow> (\<exists>c. chains l p = Some c \<and> acceptable ssl bo n c)"

text \<open>While the versions differ, the chain the miner holds, which it will destroy, is not the
  current one.\<close>

definition up_to_date :: "miner \<Rightarrow> addr \<Rightarrow> bool" where
  "up_to_date w p \<longleftrightarrow>
     (mined_version w \<noteq> sync_version (ledger_of w) \<longrightarrow> p \<noteq> current (ledger_of w))"

definition candidate_at :: "'k openssl \<Rightarrow> byte_order \<Rightarrow> u64 \<Rightarrow> miner \<Rightarrow> addr \<Rightarrow> block_t \<Rightarrow> bool" where
  "candidate_at ssl bo n w p b \<longleftrightarrow> (\<exists>c. chains (ledger_of w) p = Some c \<and>
     acceptable ssl bo n c \<and> candidate ssl bo c b) \<and> up_to_date w p"

fun pc_ok :: "'k openssl \<Rightarrow> byte_order \<Rightarrow> u64 \<Rightarrow> miner \<Rightarrow> miner_pc \<Rightarrow> bool" where
  "pc_ok ssl bo n w Start = (mined_version w = sync_version (ledger_of w))"
| "pc_ok ssl bo n w (Check_Version p e) = (alive ssl bo n (ledger_of w) p \<and> up_to_date w p)"
| "pc_ok ssl bo n w (Reload p) = (alive ssl bo n (ledger_of w) p \<and> p \<noteq> current (ledger_of w))"
| "pc_ok ssl bo n w (Drop old p) = (alive ssl bo n (ledger_of w) old \<and> alive ssl bo n (ledger_of w) p \<and>
     old \<noteq> p \<and> old \<noteq> current (ledger_of w))"
| "pc_ok ssl bo n w (Publish p) = alive ssl bo n (ledger_of w) p"
| "pc_ok ssl bo n w (Build p) = (alive ssl bo n (ledger_of w) p \<and> up_to_date w p)"
| "pc_ok ssl bo n w (Enter p b) = candidate_at ssl bo n w p b"
| "pc_ok ssl bo n w (Mine p q x m) =
     (candidate_at ssl bo n w p (mining_block m) \<and> alive ssl bo n (ledger_of w) q)"
| "pc_ok ssl bo n w (Add p b) =
     (candidate_at ssl bo n w p b \<and> good_proof ssl bo n b (proof_of_work b))"
| "pc_ok ssl bo n w (Returned e) = True"
| "pc_ok ssl bo n w (Faulty f) = (f = Uninitialised_Join \<or> f = Unchecked_Malloc)"

definition miner_ok :: "'k openssl \<Rightarrow> byte_order \<Rightarrow> u64 \<Rightarrow> miner \<Rightarrow> bool" where
  "miner_ok ssl bo n w \<longleftrightarrow> ledger_ok ssl bo n (ledger_of w) \<and> pc_ok ssl bo n w (pc w)"

text \<open>The miner leaves the chain as it is or extends it by a valid block.\<close>

definition grown :: "'k openssl \<Rightarrow> byte_order \<Rightarrow> u64 \<Rightarrow> block_t list \<Rightarrow> block_t list \<Rightarrow> bool" where
  "grown ssl bo n xs ys \<longleftrightarrow> ys = xs \<or> valid_chain ssl bo n ys \<and> (\<exists>b. ys = xs @ [b])"

abbreviation keeps :: "'k openssl \<Rightarrow> byte_order \<Rightarrow> u64 \<Rightarrow> miner \<Rightarrow> miner \<Rightarrow> bool" where
  "keeps ssl bo n w v \<equiv> miner_ok ssl bo n v \<and>
     grown ssl bo n (chain_of (ledger_of w)) (chain_of (ledger_of v)) \<and>
     current (ledger_of v) = current (ledger_of w)"

lemma grown_refl [simp]: "grown ssl bo n xs xs"
  by (simp add: grown_def)

lemma alive_current: "ledger_ok ssl bo n l \<Longrightarrow> alive ssl bo n l (current l)"
  by (auto simp: ledger_ok_def alive_def)

lemma alive_alloc_step [simp]: "alloc_step l l' \<Longrightarrow> alive ssl bo n l' p = alive ssl bo n l p"
  by (auto simp: alloc_step_def alive_def)

lemma ledger_facts_alloc_step:
  "alloc_step l l' \<Longrightarrow> chains l' = chains l \<and> current l' = current l \<and>
     sync_version l' = sync_version l \<and> next_chain l' = next_chain l" for l :: ledger
  by (auto simp: alloc_step_def)

lemma announced_miner [simp]:
  "ledger_of (announced w) = ledger_of w" "mined_version (announced w) = mined_version w"
  "has_broadcast (announced w) = has_broadcast w" "saved (announced w) = saved w" "pc (announced w) = pc w"
  by (simp_all add: announced_def)

lemma save_chain_facts:
  "alloc_step (ledger_of w) (ledger_of (save_chain bo io target c w)) \<and>
   (\<exists>x. save_chain bo io target c w = w\<lparr>ledger_of := ledger_of (save_chain bo io target c w), saved := x\<rparr>)"
proof (cases target)
  case (Some name)
  let ?s = "\<lparr>mallocs = mallocs (ledger_of w), contents = (\<lambda>_. saved w)\<rparr>"
  obtain k where "mallocs (snd (blockchain_write_to_file bo io (Some c) (Some name) ?s)) =
      drop k (mallocs (ledger_of w))"
    using takes_blockchain_write_to_file [of bo io "Some c" "Some name"]
    by (metis takes_mallocs_def env.select_convs(1))
  then show ?thesis
    by (auto simp: save_chain_def Some alloc_step_def split: prod.split)
next
  case None
  then show ?thesis by (auto simp: save_chain_def intro: exI [of _ "saved w"])
qed

lemma save_chain_simps [simp]:
  "mined_version (save_chain bo io target c w) = mined_version w"
  "has_broadcast (save_chain bo io target c w) = has_broadcast w"
  "pc (save_chain bo io target c w) = pc w"
  "exit_ready (save_chain bo io target c w) = exit_ready w"
  "chains (ledger_of (save_chain bo io target c w)) = chains (ledger_of w)"
  "current (ledger_of (save_chain bo io target c w)) = current (ledger_of w)"
  "sync_version (ledger_of (save_chain bo io target c w)) = sync_version (ledger_of w)"
  "next_chain (ledger_of (save_chain bo io target c w)) = next_chain (ledger_of w)"
  by (auto simp: save_chain_def split: option.split prod.split)

lemma ledger_ok_save_chain [simp]:
  "ledger_ok ssl bo n (ledger_of (save_chain bo' io target c w)) = ledger_ok ssl bo n (ledger_of w)"
  by (simp add: ledger_ok_def)

lemma finish_facts:
  "alloc_step (ledger_of w) (ledger_of (finish e w)) \<and>
   pc (finish e w) \<in> {Returned e, Faulty Unchecked_Malloc} \<and> has_broadcast (finish e w) = has_broadcast w"
proof -
  have "whenever malloc (\<lambda>_ l. alloc_step (ledger_of w) l) (\<lambda>_ _. False) (ledger_of w)"
    by (rule whenever_malloc)
  then show ?thesis
    by (auto simp: finish_def whenever_def malloc_def split: list.split bool.split)
qed

lemma finish_chain_of [simp]: "chain_of (ledger_of (finish e w)) = chain_of (ledger_of w)"
  using ledger_ok_alloc_step finish_facts by blast

lemma finish_current [simp]: "current (ledger_of (finish e w)) = current (ledger_of w)"
  using ledger_facts_alloc_step finish_facts by blast

lemma finish_ok [simp]: "ledger_ok ssl bo n (ledger_of w) \<Longrightarrow> miner_ok ssl bo n (finish e w)"
  using ledger_ok_alloc_step [of "ledger_of w" "ledger_of (finish e w)" ssl bo n] finish_facts [of w e]
  by (auto simp: miner_ok_def)

lemma join_broadcast_ok:
  assumes "ledger_ok ssl bo n (ledger_of u)" and "grown ssl bo n (chain_of (ledger_of w)) (chain_of (ledger_of u))"
    and "current (ledger_of u) = current (ledger_of w)"
    and "miner_ok ssl bo n (k u)" and "chain_of (ledger_of (k u)) = chain_of (ledger_of u)"
    and "current (ledger_of (k u)) = current (ledger_of u)"
  shows "keeps ssl bo n w (join_broadcast joins_garbage u k)"
  using assms by (simp add: join_broadcast_def miner_ok_def)

lemma after_mining_ok:
  assumes "ledger_ok ssl bo n (ledger_of w)" and "alive ssl bo n (ledger_of w) p" and "up_to_date w p"
  shows "keeps ssl bo n w (after_mining p e w)"
  using assms by (simp add: after_mining_def) (simp add: miner_ok_def up_to_date_def)

lemma drop_ok:
  assumes "miner_ok ssl bo n w" and "pc w = Drop old p"
  shows "keeps ssl bo n w (miner_step ssl bo args jg a w (pc w))"
  using assms by (auto simp: miner_ok_def ledger_ok_def alive_def chain_of_def)

lemma build_ok:
  assumes "miner_ok ssl bo n w" and "pc w = Build p" and "openssl_ok ssl args"
    and "unat n \<le> SHA256_DIGEST_LENGTH"
  shows "keeps ssl bo n w (miner_step ssl bo args jg a w (pc w))"
proof -
  have l: "ledger_ok ssl bo n (ledger_of w)" "up_to_date w p"
    using assms(1,2) by (auto simp: miner_ok_def)
  obtain c where c: "chains (ledger_of w) p = Some c" "acceptable ssl bo n c"
    using assms(1,2) by (auto simp: miner_ok_def alive_def)
  obtain out l where b: "build_block ssl bo args (transaction_time a) (block_time a) c (ledger_of w) = (out, l)"
    by (cases "build_block ssl bo args (transaction_time a) (block_time a) c (ledger_of w)")
  from wp_build_block [OF assms(3,4) c(2), of "transaction_time a" "block_time a" "ledger_of w"] b
  have alloc: "alloc_step (ledger_of w) l"
    and out: "\<And>next_block. out = Ok next_block \<Longrightarrow> candidate ssl bo c next_block"
      "out \<noteq> Undefined" "out \<noteq> Diverges"
    by (auto simp: wp_def split: outcome.splits)
  have l': "ledger_ok ssl bo n l" "chain_of l = chain_of (ledger_of w)"
    using ledger_ok_alloc_step [OF alloc, of ssl bo n] l(1) by auto
  show ?thesis
    using b out l l' c assms(2) ledger_facts_alloc_step [OF alloc]
    by (cases out) (simp_all add: miner_ok_def [of _ _ _ "_\<lparr>pc := _\<rparr>"] candidate_at_def up_to_date_def)
qed

lemma mine_ok:
  assumes "miner_ok ssl bo n w" and "pc w = Mine p q x m" and "hashing_ok ssl"
    and "unat n \<le> SHA256_DIGEST_LENGTH"
  shows "keeps ssl bo n w (miner_step ssl bo args jg a w (pc w))"
proof -
  have l: "ledger_ok ssl bo n (ledger_of w)" "candidate_at ssl bo n w p (mining_block m)"
    using assms(1,2) by (auto simp: miner_ok_def)
  obtain c where c: "chains (ledger_of w) q = Some c" "acceptable ssl bo n c"
    using assms(1,2) by (auto simp: miner_ok_def alive_def)
  have d: "num_leading_zero_bytes_required_in_block_hash c = n" using c(2) by (simp add: acceptable_def)
  obtain k best digest where x: "x = (k, best, digest)" by (cases x)
  have "alive ssl bo n (ledger_of w) p" "up_to_date w p"
    using l(2) by (auto simp: candidate_at_def alive_def)
  note after = after_mining_ok [OF l(1) this]
  obtain out m' where i: "mine_iteration ssl bo args a w c x m = (out, m')"
    by (cases "mine_iteration ssl bo args a w c x m")
  show ?thesis
    using wp_mine_iteration [OF assms(3) d assms(4), of bo args a w k best digest m] i after l c assms(2)
    by (cases out)
      (auto simp: wp_def x miner_ok_def [of _ _ _ "_\<lparr>pc := _\<rparr>"] candidate_at_def up_to_date_def
        alive_def good_proof_def split: sum.splits)
qed

lemma wp_extend_chain:
  "wp (extend_chain c b)
    (\<lambda>c' t. c' = c\<lparr>block_list := block_list c @ [b]\<rparr> \<and> Suc (length (block_list c)) < 2 ^ 64 \<and>
       alloc_step s t) (\<lambda>e t. alloc_step s t \<and> \<not> stop_code e) s"
  unfolding extend_chain_def blockchain_add_block_def
  by (auto intro!: wp_seqI wp_ll_appendI simp del: wp_seq simp: not_le)

lemma add_ok:
  assumes "miner_ok ssl bo n w" and "pc w = Add p b"
  shows "keeps ssl bo n w (miner_step ssl bo args jg a w (pc w))"
proof -
  have l: "ledger_ok ssl bo n (ledger_of w)" "up_to_date w p" "good_proof ssl bo n b (proof_of_work b)"
    using assms by (auto simp: miner_ok_def candidate_at_def)
  obtain c where c: "chains (ledger_of w) p = Some c" "acceptable ssl bo n c" "candidate ssl bo c b"
    using assms by (auto simp: miner_ok_def candidate_at_def)
  obtain out t where e: "extend_chain c b (ledger_of w) = (out, t)"
    by (cases "extend_chain c b (ledger_of w)")
  from wp_extend_chain [of c b "ledger_of w"] e
  have alloc: "alloc_step (ledger_of w) t"
    and out: "\<And>c'. out = Ok c' \<Longrightarrow> c' = c\<lparr>block_list := block_list c @ [b]\<rparr> \<and>
       Suc (length (block_list c)) < 2 ^ 64"
      "out \<noteq> Undefined" "out \<noteq> Diverges"
    by (auto simp: wp_def split: outcome.splits)
  note facts = ledger_facts_alloc_step [OF alloc] ledger_ok_alloc_step [OF alloc, of ssl bo n]
  show ?thesis
  proof (cases out)
    case (Ok c')
    let ?t = "t\<lparr>chains := (chains t)(p \<mapsto> c')\<rparr>"
    have c': "acceptable ssl bo n c'" "block_list c' = block_list c @ [b]"
      using candidate_accepted [OF c(3) l(3) c(2)] out(1) [OF Ok] by auto
    have p: "p < next_chain t"
      using facts l(1) c(1) by (fastforce simp: ledger_ok_def not_le [symmetric])
    have ok: "ledger_ok ssl bo n ?t"
      using facts l(1) c' p by (auto simp: ledger_ok_def)
    have "grown ssl bo n (chain_of (ledger_of w)) (chain_of ?t)"
      using facts c c' by (auto simp: chain_of_def grown_def acceptable_def)
    then show ?thesis
      using ok l(2) facts c'(1) e Ok c(1) assms(2)
      by (simp, intro join_broadcast_ok)
        (simp_all add: miner_ok_def alive_def up_to_date_def chain_of_def)
  next
    case (Fail x)
    then show ?thesis using facts l(1) c(1) assms(2) e by simp
  qed (use out in simp_all)
qed

lemma miner_step_ok:
  assumes "miner_ok ssl bo n w" and "openssl_ok ssl args" and "unat n \<le> SHA256_DIGEST_LENGTH"
  shows "keeps ssl bo n w (miner_step ssl bo args joins_garbage a w (pc w))"
proof -
  have l: "ledger_ok ssl bo n (ledger_of w)" and pc: "pc_ok ssl bo n w (pc w)"
    using assms(1) by (auto simp: miner_ok_def)
  have hash: "hashing_ok ssl" using assms(2) by (simp add: openssl_ok_def)
  show ?thesis
  proof (cases "pc w")
    case (Check_Version p e)
    then show ?thesis
      using l pc join_broadcast_ok [OF l grown_refl refl, of "\<lambda>w. finish e (announced w)" joins_garbage]
      by (simp add: miner_ok_def [of _ _ _ "_\<lparr>pc := _\<rparr>"] up_to_date_def)
  next
    case (Drop old p)
    then show ?thesis using drop_ok [OF assms(1)] by simp
  next
    case (Build p)
    then show ?thesis using build_ok [OF assms(1) Build assms(2,3)] by simp
  next
    case (Enter p b)
    have "alive ssl bo n (ledger_of w) p" "up_to_date w p"
      using pc Enter by (auto simp: candidate_at_def alive_def)
    from after_mining_ok [OF l this] show ?thesis
      using Enter l pc alive_current [OF l]
      by (simp add: miner_ok_def [of _ _ _ "_\<lparr>pc := _\<rparr>"] candidate_at_def up_to_date_def)
  next
    case (Mine p q x m)
    then show ?thesis using mine_ok [OF assms(1) Mine hash assms(3)] by simp
  next
    case (Add p b)
    then show ?thesis using add_ok [OF assms(1) Add] by simp
  qed (use l pc alive_current [OF l] in
      \<open>simp_all add: miner_ok_def [of _ _ _ "_\<lparr>pc := _\<rparr>"] miner_ok_def [of _ _ _ w] up_to_date_def Let_def\<close>)
qed

section \<open>The other threads\<close>

text \<open>The miner is between entering the mining function and appending the block.\<close>

fun adding :: "miner_pc \<Rightarrow> bool" where
  "adding (Mine p q x m) = True"
| "adding (Add p next_block) = True"
| "adding s = False"

text \<open>The number of blocks that were counted, while the mutex is held.\<close>

definition counted :: "critical \<Rightarrow> nat option" where
  "counted = map_option (\<lambda>(c, p, k). unat k)"

lemma counted_simps [simp]: "counted None = None" "counted (Some (c, p, k)) = Some (unat k)"
  by (simp_all add: counted_def)

text \<open>The pointer that was read is still the current one, and since the blocks were counted the miner
  has appended at most one: to append another it has to take the mutex.\<close>

definition critical_ok :: "'k openssl \<Rightarrow> byte_order \<Rightarrow> miner \<Rightarrow> critical \<Rightarrow> bool" where
  "critical_ok ssl bo w x \<longleftrightarrow>
     (case x of None \<Rightarrow> True
      | Some (c, p, k) \<Rightarrow> acceptable ssl bo (num_leading_zero_bytes_required_in_block_hash c) c \<and>
          p = current (ledger_of w) \<and>
          length (chain_of (ledger_of w)) \<in> {unat k, Suc (unat k)} \<and>
          (adding (pc w) \<longrightarrow> length (chain_of (ledger_of w)) = unat k))"

definition node_ok :: "'k openssl \<Rightarrow> byte_order \<Rightarrow> u64 \<Rightarrow> miner \<times> critical \<Rightarrow> bool" where
  "node_ok ssl bo n = (\<lambda>(w, x). miner_ok ssl bo n w \<and> pc w \<noteq> Start \<and> critical_ok ssl bo w x)"

text \<open>The abstract view of the node: its chain, and the length that a thread has counted. The chain
  is extended, but not twice after the count; it is counted; then it is kept, or replaced by a
  chain longer than the one that was counted.\<close>

inductive view_step ::
  "'k openssl \<Rightarrow> byte_order \<Rightarrow> u64 \<Rightarrow> block_t list \<times> nat option \<Rightarrow> block_t list \<times> nat option \<Rightarrow> bool"
  for ssl bo n where
  extended: "valid_chain ssl bo n (xs @ [b]) \<Longrightarrow> k = None \<or> k = Some (length xs) \<Longrightarrow>
    view_step ssl bo n (xs, k) (xs @ [b], k)"
| counts: "view_step ssl bo n (xs, None) (xs, Some (length xs))"
| keeps: "view_step ssl bo n (xs, Some k) (xs, None)"
| switched: "valid_chain ssl bo n ys \<Longrightarrow> k < length ys \<Longrightarrow> view_step ssl bo n (xs, Some k) (ys, None)"

abbreviation view_steps ::
  "'k openssl \<Rightarrow> byte_order \<Rightarrow> u64 \<Rightarrow> block_t list \<times> nat option \<Rightarrow> block_t list \<times> nat option \<Rightarrow> bool" where
  "view_steps ssl bo n \<equiv> (view_step ssl bo n)\<^sup>*\<^sup>*"

definition view :: "miner \<times> critical \<Rightarrow> block_t list \<times> nat option" where
  "view = (\<lambda>(w, x). (chain_of (ledger_of w), counted x))"

lemma view_simps [simp]: "view (w, x) = (chain_of (ledger_of w), counted x)"
  by (simp add: view_def)

text \<open>Whoever looks at the chain twice finds it no shorter the second time.\<close>

lemma view_steps_length:
  assumes "view_steps ssl bo n (xs, k) (ys, l)" and "\<forall>j. k = Some j \<longrightarrow> length xs \<in> {j, Suc j}"
  shows "length xs \<le> length ys \<and> (\<forall>j. l = Some j \<longrightarrow> length ys \<in> {j, Suc j})"
  using assms(1)
proof (induction rule: rtranclp_induct2)
  case (step ys l zs m)
  from step.hyps(2) have "length ys \<le> length zs \<and> (\<forall>j. m = Some j \<longrightarrow> length zs \<in> {j, Suc j})"
    by cases (use step.IH in auto)
  then show ?case using step.IH by auto
qed (use assms(2) in simp)

text \<open>The switch itself, for whatever reason.\<close>

definition switched_to :: "ledger \<Rightarrow> blockchain_t \<Rightarrow> ledger" where
  "switched_to l c = l\<lparr>chains := (chains l)(next_chain l \<mapsto> c), current := next_chain l,
     sync_version := sync_version l + 1, next_chain := Suc (next_chain l)\<rparr>"

lemma offered_switched:
  "length (chain_of l) < length (block_list c) \<Longrightarrow> offered l c = switched_to l c"
  by (simp add: offered_def switched_to_def)

lemma alive_switched_to:
  assumes "ledger_ok ssl bo n l" and "alive ssl bo n l p"
  shows "alive ssl bo n (switched_to l c) p" and "p \<noteq> next_chain l"
  using assms by (auto simp: alive_def ledger_ok_def switched_to_def)

lemma pc_ok_switched_to:
  assumes "ledger_ok ssl bo n (ledger_of w)" and "pc_ok ssl bo n w s" and "s \<noteq> Start"
  shows "pc_ok ssl bo n (w\<lparr>ledger_of := switched_to (ledger_of w) c\<rparr>) s"
proof -
  note alive = alive_switched_to(1) [OF assms(1), where c = c] alive_switched_to(2) [OF assms(1)]
  have fresh: "p \<noteq> next_chain (ledger_of w)" if "candidate_at ssl bo n w p b" for p b
    using that alive(2) by (auto simp: candidate_at_def alive_def)
  have cand: "candidate_at ssl bo n (w\<lparr>ledger_of := switched_to (ledger_of w) c\<rparr>) p b"
    if "candidate_at ssl bo n w p b" for p b
    using that fresh [OF that] by (auto simp: candidate_at_def up_to_date_def switched_to_def)
  have date: "up_to_date (w\<lparr>ledger_of := switched_to (ledger_of w) c\<rparr>) p" if "alive ssl bo n (ledger_of w) p" for p
    using alive(2) [OF that] by (simp add: up_to_date_def switched_to_def)
  show ?thesis
    using assms(2,3) alive cand date by (cases s) (auto simp: switched_to_def [of "ledger_of w"])
qed

lemma ledger_ok_switched_to:
  assumes "ledger_ok ssl bo n l" and "acceptable ssl bo n c"
  shows "ledger_ok ssl bo n (switched_to l c)"
  using assms by (auto simp: switched_to_def ledger_ok_def)

lemma chain_of_switched_to [simp]: "chain_of (switched_to l c) = block_list c" "current (switched_to l c) = next_chain l"
  by (simp_all add: chain_of_def switched_to_def)

lemma count_ours_eq:
  "ledger_ok ssl bo n l \<Longrightarrow> count_ours l = (Ok (current l, of_nat (length (chain_of l))), l)"
  by (auto simp: count_ours_def our_chain_def load_chain_def ll_length_def seq_def prog_basic ledger_ok_def
      chain_of_def)

lemma chain_fits: "ledger_ok ssl bo n l \<Longrightarrow> unat (of_nat (length (chain_of l)) :: u64) = length (chain_of l)"
  by (auto simp: ledger_ok_def chain_of_def acceptable_def unsigned_of_nat take_bit_eq_mod)

lemma switch_if_longer_eq:
  assumes "ledger_ok ssl bo n l" and "acceptable ssl bo m c"
  shows "switch_if_longer c (current l, k) l =
    (if unat k < length (block_list c) \<and> m = n then (Ok True, switched_to l c) else (Ok False, l))"
proof -
  obtain d where d: "chains l (current l) = Some d" "acceptable ssl bo n d"
    using assms(1) by (auto simp: ledger_ok_def)
  have "k < of_nat (length (block_list c)) \<longleftrightarrow> unat k < length (block_list c)"
    using assms(2) by (simp add: word_less_nat_alt unsigned_of_nat take_bit_eq_mod acceptable_def)
  then show ?thesis
    using d assms(2)
    by (auto simp: switch_if_longer_def load_chain_def ll_length_def store_chain_def Let_def seq_def prog_basic
        switched_to_def acceptable_def)
qed

lemma miner_step_chain:
  assumes "miner_ok ssl bo n w" and "openssl_ok ssl args" and "unat n \<le> SHA256_DIGEST_LENGTH"
    and "\<nexists>p b. pc w = Add p b"
  shows "chain_of (ledger_of (miner_step ssl bo args jg a w (pc w))) = chain_of (ledger_of w)"
proof -
  have l: "ledger_ok ssl bo n (ledger_of w)" and pc: "pc_ok ssl bo n w (pc w)"
    using assms(1) by (auto simp: miner_ok_def)
  show ?thesis
  proof (cases "pc w")
    case (Build p)
    then obtain c where c: "chains (ledger_of w) p = Some c" "acceptable ssl bo n c"
      using pc by (auto simp: alive_def)
    obtain out l' where b: "build_block ssl bo args (transaction_time a) (block_time a) c (ledger_of w) = (out, l')"
      by (cases "build_block ssl bo args (transaction_time a) (block_time a) c (ledger_of w)")
    from wp_build_block [OF assms(2,3) c(2), of "transaction_time a" "block_time a" "ledger_of w"] b
    have "alloc_step (ledger_of w) l'" by (auto simp: wp_def split: outcome.splits)
    then have "chain_of l' = chain_of (ledger_of w)" using ledger_ok_alloc_step by blast
    then show ?thesis using b c(1) Build by (cases out) simp_all
  next
    case (Drop old p)
    then show ?thesis using pc by (auto simp: alive_def) (simp add: chain_of_def)
  next
    case (Mine p q x m)
    then show ?thesis
      by (auto simp: after_mining_def split: option.split prod.split outcome.split sum.split)
  qed (use assms(4) in \<open>auto simp: join_broadcast_def after_mining_def Let_def\<close>)
qed

lemma miner_step_adding:
  "adding (pc (miner_step ssl bo args jg a w s)) \<Longrightarrow> adding (pc w) \<or> (takes_mutex s \<and> locked a) \<or> (\<exists>p q x m. s = Mine p q x m)"
  by (cases s) (auto simp: finish_def join_broadcast_def after_mining_def Let_def
      split: if_splits option.splits prod.splits outcome.splits sum.splits bool.splits)

lemma miner_step_critical_ok:
  assumes "node_ok ssl bo n (w, x)" and "openssl_ok ssl args" and "unat n \<le> SHA256_DIGEST_LENGTH"
    and "takes_mutex (pc w) \<and> locked a \<longrightarrow> x = None"
  shows "critical_ok ssl bo (miner_step ssl bo args jg a w (pc w)) x"
proof (cases x)
  case (Some y)
  obtain c p k where y: "y = (c, p, k)" by (cases y)
  let ?v = "miner_step ssl bo args jg a w (pc w)"
  have ok: "miner_ok ssl bo n w" "critical_ok ssl bo w x" using assms(1) by (simp_all add: node_ok_def)
  have st: "keeps ssl bo n w ?v" by (rule miner_step_ok [OF ok(1) assms(2,3)])
  show ?thesis
  proof (cases "\<exists>p b. pc w = Add p b")
    case True
    then have "\<not> adding (pc ?v)"
      by (auto simp: finish_def join_broadcast_def
          split: if_splits option.splits prod.splits outcome.splits bool.splits)
    moreover have "length (chain_of (ledger_of w)) = unat k"
      using True ok(2) by (auto simp: critical_ok_def Some y)
    ultimately show ?thesis using st ok(2) by (auto simp: critical_ok_def Some y grown_def)
  next
    case False
    then have "chain_of (ledger_of ?v) = chain_of (ledger_of w)"
      by (rule miner_step_chain [OF ok(1) assms(2,3)])
    moreover have "adding (pc ?v) \<Longrightarrow> adding (pc w)"
      using miner_step_adding [of ssl bo args jg a w "pc w"] assms(4) Some by auto
    ultimately show ?thesis using st ok(2) by (auto simp: critical_ok_def Some y)
  qed
qed (simp add: critical_ok_def)

lemma miner_step_leaves_Start: "pc (miner_step ssl bo args jg a w s) = Start \<Longrightarrow> pc w = Start"
  by (cases s) (auto simp: finish_def join_broadcast_def after_mining_def Let_def
      split: if_splits option.splits prod.splits outcome.splits sum.splits bool.splits)

lemma grown_view:
  assumes "grown ssl bo n xs ys" and "\<And>b j. ys = xs @ [b] \<Longrightarrow> k = Some j \<Longrightarrow> j = length xs"
  shows "view_steps ssl bo n (xs, k) (ys, k)"
proof (cases "ys = xs")
  case False
  with assms(1) obtain b where "valid_chain ssl bo n ys" "ys = xs @ [b]" by (auto simp: grown_def)
  with assms(2) have "view_step ssl bo n (xs, k) (ys, k)" by (cases k) (auto intro: view_step.extended)
  then show ?thesis by (rule r_into_rtranclp)
qed simp

lemma node_step_ok:
  assumes "node_step ssl bo args jg x y" and "node_ok ssl bo n x" and "openssl_ok ssl args"
    and "unat n \<le> SHA256_DIGEST_LENGTH"
  shows "node_ok ssl bo n y \<and> view_steps ssl bo n (view x) (view y)"
  using assms(1)
proof cases
  case (mine w a x')
  let ?v = "miner_step ssl bo args jg a w (pc w)"
  have ok: "miner_ok ssl bo n w" "pc w \<noteq> Start" "critical_ok ssl bo w x'"
    using assms(2) by (simp_all add: node_ok_def mine)
  have st: "keeps ssl bo n w ?v" by (rule miner_step_ok [OF ok(1) assms(3,4)])
  have "critical_ok ssl bo ?v x'"
    by (rule miner_step_critical_ok [OF _ assms(3,4) mine(3)]) (use assms(2) mine in simp)
  moreover have "view_steps ssl bo n (view (w, x')) (view (?v, x'))"
    unfolding view_simps
  proof (rule grown_view)
    fix b j assume b: "chain_of (ledger_of ?v) = chain_of (ledger_of w) @ [b]" and j: "counted x' = Some j"
    then have "\<exists>p b. pc w = Add p b" using miner_step_chain [OF ok(1) assms(3,4), of jg a] by force
    then show "j = length (chain_of (ledger_of w))"
      using ok(3) j by (auto simp: critical_ok_def counted_def)
  qed (use st in simp)
  moreover have "pc ?v \<noteq> Start" using ok(2) miner_step_leaves_Start by blast
  ultimately show ?thesis using st by (simp add: node_ok_def mine)
next
  case (count c w ours l)
  have ok: "miner_ok ssl bo n w" "pc w \<noteq> Start" "ledger_ok ssl bo n (ledger_of w)"
    using assms(2) by (simp_all add: node_ok_def count miner_ok_def)
  have l: "l = ledger_of w" "ours = (current (ledger_of w), of_nat (length (chain_of (ledger_of w))))"
    using count(4) count_ours_eq [OF ok(3)] by auto
  have "view_step ssl bo n (chain_of (ledger_of w), None) (chain_of (ledger_of w), Some (length (chain_of (ledger_of w))))"
    by (rule view_step.counts)
  then show ?thesis
    using ok count(3) by (simp add: count(1,2) l node_ok_def critical_ok_def chain_fits [OF ok(3)])
next
  case (switch c ours w switched l)
  obtain p k where ours: "ours = (p, k)" by (cases ours)
  have ok: "miner_ok ssl bo n w" "pc w \<noteq> Start" "ledger_ok ssl bo n (ledger_of w)"
    "acceptable ssl bo (num_leading_zero_bytes_required_in_block_hash c) c" "p = current (ledger_of w)"
    using assms(2) by (auto simp: node_ok_def switch miner_ok_def critical_ok_def ours)
  have sw: "(Ok switched, l) = (if unat k < length (block_list c) \<and> num_leading_zero_bytes_required_in_block_hash c = n
      then (Ok True, switched_to (ledger_of w) c) else (Ok False, ledger_of w))"
    using switch(3) switch_if_longer_eq [OF ok(3,4), of k] by (simp add: ours ok(5))
  show ?thesis
  proof (cases "unat k < length (block_list c) \<and> num_leading_zero_bytes_required_in_block_hash c = n")
    case True
    then have acc: "acceptable ssl bo n c" and l: "l = switched_to (ledger_of w) c" using ok(4) sw by auto
    have "view_step ssl bo n (chain_of (ledger_of w), Some (unat k)) (block_list c, None)"
      by (rule view_step.switched) (use True acc in \<open>simp_all add: acceptable_def\<close>)
    moreover have "miner_ok ssl bo n (w\<lparr>ledger_of := l\<rparr>)"
      using ledger_ok_switched_to [OF ok(3) acc] pc_ok_switched_to [OF ok(3) _ ok(2)] ok(1)
      by (simp add: miner_ok_def l)
    ultimately show ?thesis using ok(2) by (simp add: switch(1,2) node_ok_def critical_ok_def l ours)
  next
    case False
    then have "l = ledger_of w" using sw by auto
    moreover have "view_step ssl bo n (chain_of (ledger_of w), Some (unat k)) (chain_of (ledger_of w), None)"
      by (rule view_step.keeps)
    ultimately show ?thesis using ok(1,2) by (simp add: switch(1,2) node_ok_def critical_ok_def ours)
  qed
next
  case (count_fault w l)
  have "ledger_ok ssl bo n (ledger_of w)"
    using assms(2) by (simp add: node_ok_def count_fault miner_ok_def)
  from count_ours_eq [OF this] count_fault(3) show ?thesis by simp
next
  case (switch_fault c ours w l)
  obtain p k where ours: "ours = (p, k)" by (cases ours)
  have ok: "ledger_ok ssl bo n (ledger_of w)"
    "acceptable ssl bo (num_leading_zero_bytes_required_in_block_hash c) c" "p = current (ledger_of w)"
    using assms(2) by (auto simp: node_ok_def switch_fault miner_ok_def critical_ok_def ours)
  from switch_if_longer_eq [OF ok(1,2), of k] switch_fault(3) show ?thesis
    by (simp add: ours ok(3) split: if_splits)
qed

lemma node_steps_ok:
  assumes "node_steps ssl bo args jg x y" and "node_ok ssl bo n x" and "openssl_ok ssl args"
    and "unat n \<le> SHA256_DIGEST_LENGTH"
  shows "node_ok ssl bo n y \<and> view_steps ssl bo n (view x) (view y)"
  using assms(1)
proof induction
  case (step u v)
  from node_step_ok [OF step.hyps(2) _ assms(3,4)] step.IH show ?case by auto
qed (use assms(2) in simp)

lemma node_steps_length:
  assumes "node_steps ssl bo args jg (w, x) (v, y)" and "node_ok ssl bo n (w, x)" and "openssl_ok ssl args"
    and "unat n \<le> SHA256_DIGEST_LENGTH"
  shows "length (chain_of (ledger_of w)) \<le> length (chain_of (ledger_of v))"
proof -
  have "view_steps ssl bo n (view (w, x)) (view (v, y))" by (rule node_steps_ok [OF assms, THEN conjunct2])
  then show ?thesis
    using view_steps_length [of ssl bo n _ "counted x" _ "counted y"] assms(2)
    by (fastforce simp: node_ok_def critical_ok_def counted_def split: option.splits)
qed

lemma node_ok_free [simp]: "node_ok ssl bo n (w, None) \<longleftrightarrow> miner_ok ssl bo n w \<and> pc w \<noteq> Start"
  by (simp add: node_ok_def critical_ok_def)

lemma steps_ok:
  assumes "steps ssl bo args joins_garbage w v" and "miner_ok ssl bo n w" and "pc w \<noteq> Start"
    and "openssl_ok ssl args" and "unat n \<le> SHA256_DIGEST_LENGTH"
  shows "miner_ok ssl bo n v \<and> pc v \<noteq> Start"
proof -
  obtain x where "node_steps ssl bo args joins_garbage (w, None) (v, x)" using assms(1) by (auto simp: steps_def)
  moreover have "node_ok ssl bo n (w, None)" using assms(2,3) by simp
  ultimately show ?thesis using node_steps_ok [OF _ _ assms(4,5)] by (fastforce simp: node_ok_def)
qed

text \<open>What every step of the miner keeps, and what does not depend on the other threads, is kept in
  every interleaving.\<close>

lemma node_steps_invariant:
  assumes "node_steps ssl bo args jg (w, x) (v, y)" and "node_ok ssl bo n (w, x)" and "openssl_ok ssl args"
    and "unat n \<le> SHA256_DIGEST_LENGTH" and "P w"
    and "\<And>u a. miner_ok ssl bo n u \<Longrightarrow> pc u \<noteq> Start \<Longrightarrow> P u \<Longrightarrow> P (miner_step ssl bo args jg a u (pc u))"
    and "\<And>u l. ledger_ok ssl bo n (ledger_of u) \<Longrightarrow> mallocs l = mallocs (ledger_of u) \<Longrightarrow> P u \<Longrightarrow> P (u\<lparr>ledger_of := l\<rparr>)"
  shows "P v"
proof -
  have "node_ok ssl bo n (v, y) \<and> P v"
    using assms(1)
  proof (induction rule: rtranclp_induct2)
    case (step u x' v y)
    have ok: "node_ok ssl bo n (v, y)"
      using node_step_ok [OF step.hyps(2) _ assms(3,4)] step.IH by blast
    from step.IH have u: "miner_ok ssl bo n u" "pc u \<noteq> Start" "ledger_ok ssl bo n (ledger_of u)" "P u"
      by (auto simp: node_ok_def miner_ok_def)
    have "P v"
      using step.hyps(2)
    proof cases
      case (mine a)
      then show ?thesis using assms(6) [OF u(1,2,4)] by simp
    next
      case (count c ours l)
      then show ?thesis using assms(7) [OF u(3) _ u(4), of l] count_ours_eq [OF u(3)] by simp
    next
      case (switch c ours switched l)
      have "mallocs l = mallocs (ledger_of u)"
        using switch(4) by (auto simp: switch_if_longer_def ll_length_def load_chain_def seq_def prog_basic
            store_chain_def Let_def split: prod.splits option.splits if_splits)
      then show ?thesis using assms(7) [OF u(3) _ u(4), of l] switch by simp
    next
      case (count_fault l)
      then show ?thesis using count_ours_eq [OF u(3)] by simp
    next
      case (switch_fault c ours l)
      have "Use_After_Free = Uninitialised_Join \<or> Use_After_Free = Unchecked_Malloc"
        using ok by (simp add: node_ok_def miner_ok_def switch_fault)
      then show ?thesis by simp
    qed
    then show ?case using ok by simp
  qed (use assms(2,5) in simp)
  then show ?thesis by simp
qed

section \<open>Memory\<close>

text \<open>When memory suffices it goes on to suffice, and the end of the function can store the code.\<close>

definition memory_fine :: "bool \<Rightarrow> miner \<Rightarrow> bool" where
  "memory_fine joins_garbage w \<longleftrightarrow> no_oom (ledger_of w) \<and> pc w \<noteq> Faulty Unchecked_Malloc \<and>
     (joins_garbage \<longrightarrow> pc w \<noteq> Faulty Uninitialised_Join)"

lemma finish_memory:
  "no_oom (ledger_of w) \<Longrightarrow> no_oom (ledger_of (finish e w)) \<and> pc (finish e w) = Returned e"
  by (cases "mallocs (ledger_of w)") (auto simp: finish_def malloc_def no_oom_def)

lemma memory_fine_finish [simp]: "no_oom (ledger_of w) \<Longrightarrow> memory_fine jg (finish e w)"
  using finish_memory [of w e] by (simp add: memory_fine_def)

lemma memory_fine_join:
  "memory_fine jg (k w) \<Longrightarrow> no_oom (ledger_of w) \<Longrightarrow> memory_fine jg (join_broadcast jg w k)"
  by (simp add: join_broadcast_def memory_fine_def)

lemma memory_fine_after_mining:
  "no_oom (ledger_of w) \<Longrightarrow> memory_fine jg (after_mining p e w)"
  by (simp add: after_mining_def) (simp add: memory_fine_def)

lemma no_oom_mallocs: "mallocs s = mallocs t \<Longrightarrow> no_oom s = no_oom t"
  by (simp add: no_oom_def)

lemma no_oom_chains [simp]: "no_oom (l\<lparr>chains := C\<rparr>) = no_oom l" for l :: ledger
  by (simp add: no_oom_def)

lemma miner_step_memory_fine:
  assumes "miner_ok ssl bo n w" and "openssl_ok ssl args" and "unat n \<le> SHA256_DIGEST_LENGTH"
    and "memory_fine jg w"
  shows "memory_fine jg (miner_step ssl bo args jg a w (pc w))"
proof -
  have m: "no_oom (ledger_of w)" using assms(4) by (simp add: memory_fine_def)
  show ?thesis
  proof (cases "pc w")
    case (Check_Version p c)
    then show ?thesis using m by (auto intro!: memory_fine_join) (simp_all add: memory_fine_def)
  next
    case (Drop old p)
    then show ?thesis using m assms(1) by (auto simp: miner_ok_def alive_def) (simp add: memory_fine_def)
  next
    case (Build p)
    then obtain c where c: "chains (ledger_of w) p = Some c" "acceptable ssl bo n c"
      using assms(1) by (auto simp: miner_ok_def alive_def)
    show ?thesis
      using wp_build_block [OF assms(2,3) c(2), of "transaction_time a" "block_time a" "ledger_of w"] Build c(1) m
      by (auto simp: wp_def dest: alloc_step_no_oom split: prod.splits outcome.splits)
        (simp_all add: memory_fine_def alloc_step_no_oom)
  next
    case (Mine p q x m')
    then show ?thesis
      using m by (auto simp: memory_fine_after_mining split: option.split prod.split outcome.split sum.split)
        (simp_all add: memory_fine_def)
  next
    case (Add p b)
    then obtain c where c: "chains (ledger_of w) p = Some c"
      using assms(1) by (auto simp: miner_ok_def candidate_at_def)
    obtain out l where e: "extend_chain c b (ledger_of w) = (out, l)" by (cases "extend_chain c b (ledger_of w)")
    have l: "alloc_step (ledger_of w) l" "out \<noteq> Undefined" "out \<noteq> Diverges"
      using wp_extend_chain [of c b "ledger_of w"] e by (auto simp: wp_def split: outcome.splits)
    have save: "no_oom (ledger_of (save_chain bo (file_calls a) (outfile args) c'
        (w\<lparr>ledger_of := l\<lparr>chains := C\<rparr>\<rparr>)))" for c' C
      using alloc_step_no_oom [OF conjunct1 [OF save_chain_facts]] alloc_step_no_oom [OF l(1) m] by simp
    show ?thesis
      using Add c e l alloc_step_no_oom [OF l(1) m] save
      by (cases out) (auto intro!: memory_fine_join, simp_all add: memory_fine_def)
  qed (use m assms(4) in \<open>auto simp: memory_fine_after_mining Let_def\<close>, auto simp: memory_fine_def)
qed

lemma node_steps_memory_fine:
  assumes "node_steps ssl bo args jg (w, x) (v, y)" and "node_ok ssl bo n (w, x)" and "openssl_ok ssl args"
    and "unat n \<le> SHA256_DIGEST_LENGTH" and "memory_fine jg w"
  shows "memory_fine jg v"
proof (rule node_steps_invariant [where P = "memory_fine jg", OF assms(1-5)])
  show "memory_fine jg (miner_step ssl bo args jg a u (pc u))" if "miner_ok ssl bo n u" "memory_fine jg u" for u a
    by (rule miner_step_memory_fine [OF that(1) assms(3,4) that(2)])
  show "memory_fine jg (u\<lparr>ledger_of := l\<rparr>)" if "mallocs l = mallocs (ledger_of u)" "memory_fine jg u" for u l
    using that no_oom_mallocs [OF that(1)] by (simp add: memory_fine_def)
qed

section \<open>Runs\<close>

text \<open>The miner alone, with the same answers at every step.\<close>

abbreviation run_miner ::
  "'k openssl \<Rightarrow> byte_order \<Rightarrow> mine_blocks_args_t \<Rightarrow> bool \<Rightarrow> answers \<Rightarrow> nat \<Rightarrow> miner \<Rightarrow> miner" where
  "run_miner ssl bo args joins_garbage a k \<equiv>
     (\<lambda>w. miner_step ssl bo args joins_garbage a w (pc w)) ^^ k"

lemma run_miner_free:
  "node_steps ssl bo args joins_garbage (w, None) (run_miner ssl bo args joins_garbage a k w, None)"
proof (induction k)
  case (Suc k)
  from rtranclp.rtrancl_into_rtrancl [OF Suc node_step.mine [where a = a]] show ?case by simp
qed simp

lemma run_miner_steps: "steps ssl bo args joins_garbage w (run_miner ssl bo args joins_garbage a k w)"
  by (rule free_steps [OF run_miner_free])

lemma run_miner_add:
  "run_miner ssl bo args jg a (j + k) w = run_miner ssl bo args jg a j (run_miner ssl bo args jg a k w)"
  by (simp add: funpow_add)

definition working :: answers where
  "working = \<lparr>should_stop = False, locked = True, unlocked = True, created_thread = True,
     transaction_time = 0, block_time = 0,
     file_calls = \<lparr>fopen_wb = \<lambda>_. True, fopen_rb = \<lambda>_. True, fwrite_limit = 9000, fread_limit = 9000\<rparr>\<rparr>"

lemma working_simps [simp]:
  "\<not> should_stop working" "locked working" "unlocked working" "created_thread working"
  by (simp_all add: working_def)

text \<open>A thread that offers a chain and is not disturbed: it counts and it switches.\<close>

lemma free_offer:
  assumes "ledger_ok ssl bo n (ledger_of w)" and "acceptable ssl bo n c"
    and "length (chain_of (ledger_of w)) < length (block_list c)"
  shows "node_steps ssl bo args joins_garbage (w, None) (w\<lparr>ledger_of := switched_to (ledger_of w) c\<rparr>, None)"
proof -
  have c: "num_leading_zero_bytes_required_in_block_hash c = n" using assms(2) by (simp add: acceptable_def)
  let ?ours = "(current (ledger_of w), of_nat (length (chain_of (ledger_of w))))"
  have "node_step ssl bo args joins_garbage (w, None) (w, Some (c, ?ours))"
    using node_step.count [OF _ count_ours_eq [OF assms(1)], of ssl bo c args joins_garbage] by (simp add: c assms(2))
  moreover have "switch_if_longer c ?ours (ledger_of w) = (Ok True, switched_to (ledger_of w) c)"
    using switch_if_longer_eq [OF assms(1,2)] assms(3) by (simp add: chain_fits [OF assms(1)])
  then have "node_step ssl bo args joins_garbage (w, Some (c, ?ours))
      (w\<lparr>ledger_of := switched_to (ledger_of w) c\<rparr>, None)"
    by (rule node_step.switch)
  ultimately show ?thesis by (meson converse_rtranclp_into_rtranclp r_into_rtranclp)
qed

lemma step_offer:
  assumes "ledger_ok ssl bo n (ledger_of w)" and "acceptable ssl bo n c"
    and "length (chain_of (ledger_of w)) < length (block_list c)"
  shows "node_steps ssl bo args joins_garbage (w, None) (w\<lparr>ledger_of := offered (ledger_of w) c\<rparr>, None)"
  using free_offer [OF assms] by (simp add: offered_switched [OF assms(3)])

text \<open>A whole request to the server thread, or a whole exchange of a client thread, during which the
  miner does nothing, is such steps.\<close>

lemma exchange_is_steps:
  assumes "ledger_ok ssl bo n (ledger_of w)" and "exchange_step ssl bo n (ledger_of w) l"
  shows "node_steps ssl bo args joins_garbage (w, None) (w\<lparr>ledger_of := l\<rparr>, None)"
proof (cases "l = ledger_of w")
  case False
  then obtain c where "acceptable ssl bo n c" "length (chain_of (ledger_of w)) < length (block_list c)"
    "l = switched_to (ledger_of w) c"
    using assms(2) by (auto simp: exchange_step_def switched_to_def)
  then show ?thesis using free_offer [OF assms(1)] by blast
qed simp

context exchange
begin

lemma run_is_steps:
  assumes "hashing_ok ssl" and "ledger_ok ssl bo n (ledger_of w)" and "shared m = ledger_of w"
    and "fst (run p m) \<notin> {Undefined, Diverges}"
  shows "node_steps ssl bo args joins_garbage (w, None) (w\<lparr>ledger_of := shared (snd (run p m))\<rparr>, None)"
proof -
  have ok: "ledger_ok ssl bo n (shared m)" using assms(2,3) by simp
  have "exchange_step ssl bo n (shared m) (shared (snd (run p m)))"
    using run_step [OF assms(1) ok, of p] assms(4)
    by (auto simp: whenever_def split: prod.splits outcome.splits)
  then show ?thesis by (intro exchange_is_steps [OF assms(2)]) (simp add: assms(3))
qed

end

lemma ledger_ok_offered:
  assumes "ledger_ok ssl bo n l" and "acceptable ssl bo n c"
  shows "ledger_ok ssl bo n (offered l c)"
  using assms by (auto simp: offered_def ledger_ok_def)

section \<open>Starting the node\<close>

text \<open>src/miner.c, from the creation of the chain to the version the miner starts with; \<open>now\<close> is
  the time read for the genesis block.\<close>

definition first_chain :: "u64 \<Rightarrow> u64 \<Rightarrow> ('z env_scheme, blockchain_t) prog" where
  "first_chain num_leading_zeros now =
     seq (blockchain_create True num_leading_zeros) (\<lambda>chain.
     seq (block_create_genesis_block now True) (\<lambda>genesis_block.
     blockchain_add_block (Some chain) (Some genesis_block)))"

definition share_chain :: "blockchain_t \<Rightarrow> (env, miner) prog" where
  "share_chain chain =
     seq (synchronized_blockchain_create True (Some chain)) (\<lambda>sync.
     seq get (\<lambda>s.
     ret \<lparr>exit_ready = False, exit_signals = 0,
          ledger_of = \<lparr>mallocs = mallocs s, chains = [0 \<mapsto> blockchain sync], current = 0,
            sync_version = version sync, next_chain = 1\<rparr>,
          mined_version = version sync, has_broadcast = False, saved = None, pc = Start\<rparr>))"

definition start_miner :: "u64 \<Rightarrow> u64 \<Rightarrow> (env, miner) prog" where
  "start_miner num_leading_zeros now = seq (first_chain num_leading_zeros now) share_chain"

definition genesis_chain :: "u64 \<Rightarrow> u64 \<Rightarrow> blockchain_t" where
  "genesis_chain n now =
     \<lparr>block_list = [\<lparr>created_at = now, transaction_list = [], proof_of_work = GENESIS_BLOCK_PROOF_OF_WORK,
        previous_block_hash = zero_hash\<rparr>],
      num_leading_zero_bytes_required_in_block_hash = n\<rparr>"

lemma acceptable_genesis_chain: "acceptable ssl bo n (genesis_chain n now)"
  by (simp add: acceptable_def valid_chain_def genesis_ok_def wf_blockchain_def wf_block_def zero_hash_def
      genesis_chain_def)

lemma wp_first_chain:
  assumes "no_oom s"
  shows "wp (first_chain n now) (\<lambda>c t. c = genesis_chain n now \<and> no_oom t) (\<lambda>_ _. False) s"
  using assms
  unfolding first_chain_def blockchain_create_def ll_create_def block_create_genesis_block_def
    block_create_def blockchain_add_block_def ll_append_def
  by (auto intro!: wp_allocI simp: genesis_chain_def) (meson alloc_step_no_oom)+

lemma wp_share_chain:
  assumes "no_oom s" and "acceptable ssl bo n c"
  shows "wp (share_chain c)
    (\<lambda>w _. pc w = Start \<and> \<not> has_broadcast w \<and> miner_ok ssl bo n w \<and> no_oom (ledger_of w) \<and>
       chain_of (ledger_of w) = block_list c)
    (\<lambda>_ _. False) s"
  using assms
  unfolding share_chain_def synchronized_blockchain_create_def
  by (auto intro!: wp_mallocI simp: miner_ok_def ledger_ok_def chain_of_def)
    (auto simp: no_oom_def alloc_step_def dest: in_set_dropD)

lemma wp_start_miner:
  assumes "no_oom s"
  shows "wp (start_miner n now)
    (\<lambda>w _. pc w = Start \<and> \<not> has_broadcast w \<and> miner_ok ssl bo n w \<and>
       chain_of (ledger_of w) = block_list (genesis_chain n now))
    (\<lambda>_ _. False) s"
  unfolding start_miner_def wp_seq
  by (rule wp_mono [OF wp_first_chain [OF assms]])
    (auto intro: wp_mono [OF wp_share_chain [OF _ acceptable_genesis_chain]])

text \<open>Once the miner has read the pointer, nothing that it or the other threads do makes it fault,
  and the chain stays valid.\<close>

lemma started_miner:
  assumes "miner_ok ssl bo n w" and "pc w = Start" and "openssl_ok ssl args" and "unat n \<le> SHA256_DIGEST_LENGTH"
  shows "node_ok ssl bo n (miner_step ssl bo args joins_garbage a w (pc w), None)"
    and "chain_of (ledger_of (miner_step ssl bo args joins_garbage a w (pc w))) = chain_of (ledger_of w)"
proof -
  have "pc (miner_step ssl bo args joins_garbage a w (pc w)) \<noteq> Start"
    by (simp add: assms(2) finish_def split: prod.split outcome.split bool.split)
  then show "node_ok ssl bo n (miner_step ssl bo args joins_garbage a w (pc w), None)"
    using miner_step_ok [OF assms(1,3,4)] by simp
qed (rule miner_step_chain [OF assms(1,3,4)], simp add: assms(2))

lemma started_node_steps:
  assumes "miner_ok ssl bo n w" and "pc w = Start" and "openssl_ok ssl args" and "unat n \<le> SHA256_DIGEST_LENGTH"
    and "node_steps ssl bo args joins_garbage (miner_step ssl bo args joins_garbage a w (pc w), None) (u, x)"
    and "node_steps ssl bo args joins_garbage (u, x) (v, y)"
  shows "ledger_ok ssl bo n (ledger_of v) \<and>
    view_steps ssl bo n (chain_of (ledger_of w), None) (view (u, x)) \<and>
    view_steps ssl bo n (view (u, x)) (view (v, y)) \<and>
    length (chain_of (ledger_of u)) \<le> length (chain_of (ledger_of v)) \<and>
    pc v \<noteq> Faulty Use_After_Free \<and> pc v \<noteq> Faulty Bad_Access"
proof -
  note start = started_miner [OF assms(1-4), of joins_garbage a]
  note u = node_steps_ok [OF assms(5) start(1) assms(3,4)]
  have v: "node_ok ssl bo n (v, y)" "view_steps ssl bo n (view (u, x)) (view (v, y))"
    using node_steps_ok [OF assms(6) _ assms(3,4)] u by blast+
  have "length (chain_of (ledger_of u)) \<le> length (chain_of (ledger_of v))"
    using node_steps_length [OF assms(6) _ assms(3,4)] u by blast
  moreover have "miner_ok ssl bo n v" using v(1) by (simp add: node_ok_def)
  ultimately show ?thesis using u v(2) by (auto simp: miner_ok_def start(2) simp del: view_simps) (simp_all add: start(2))
qed

section \<open>Properties\<close>

text \<open>C1. A node that has been started holds a chain of its genesis block only, valid for its
  difficulty. If the miner has read the pointer before any other thread switched it, then
  whatever the miner and the other threads do in whatever order, and the miner may append while
  a thread that holds the mutex has counted the blocks and has not yet switched the pointer: the
  current chain is never destroyed and stays valid; its only changes are to grow by a valid
  block, at most once between a count and the switch, or to be replaced by a valid chain longer
  than the one that was counted; so it never gets shorter; and the miner never reads a destroyed
  chain nor any memory outside an object.\<close>

theorem node_keeps_valid_chain:
  assumes "openssl_ok ssl args" and "unat n \<le> SHA256_DIGEST_LENGTH" and "no_oom s"
  shows "wp (start_miner n now)
    (\<lambda>w _. chain_of (ledger_of w) = block_list (genesis_chain n now) \<and>
       (\<forall>a u x v y. node_steps ssl bo args joins_garbage
           (miner_step ssl bo args joins_garbage a w (pc w), None) (u, x) \<longrightarrow>
         node_steps ssl bo args joins_garbage (u, x) (v, y) \<longrightarrow>
         ledger_ok ssl bo n (ledger_of v) \<and>
         view_steps ssl bo n (chain_of (ledger_of w), None) (view (u, x)) \<and>
         view_steps ssl bo n (view (u, x)) (view (v, y)) \<and>
         length (chain_of (ledger_of u)) \<le> length (chain_of (ledger_of v)) \<and>
         pc v \<noteq> Faulty Use_After_Free \<and> pc v \<noteq> Faulty Bad_Access))
    (\<lambda>_ _. False) s"
proof (rule wp_mono [OF wp_start_miner [OF assms(3), where ssl = ssl and bo = bo]], goal_cases)
  case (1 w t)
  then show ?case using started_node_steps [OF _ _ assms(1,2), of bo w joins_garbage] by blast
qed simp

definition toy_miner_args :: mine_blocks_args_t where
  "toy_miner_args = \<lparr>miner_public_key = toy_key 0, miner_private_key = toy_key 0, print_progress = False,
     outfile = Some ''blockchain.bin''\<rparr>"

lemma toy_openssl_ok: "openssl_ok (toy_ssl 4) toy_miner_args"
  using toy_key_pair [of 4 0] hashing_ok_toy [of 4]
  by (simp add: openssl_ok_def toy_miner_args_def verifying_ok_def wf_key_def size_defs)
    (simp add: toy_ssl_def)

theorem node_keeps_valid_chain_witness:
  "wp (start_miner 3 5)
    (\<lambda>w _. ledger_ok (toy_ssl 4) Little_Endian 3
       (ledger_of (run_miner (toy_ssl 4) Little_Endian toy_miner_args True working 9
         (miner_step (toy_ssl 4) Little_Endian toy_miner_args True working w (pc w)))))
    (\<lambda>_ _. False) \<lparr>mallocs = [True, True]\<rparr>"
  by (rule wp_mono [OF node_keeps_valid_chain [OF toy_openssl_ok, of 3 _ _ Little_Endian True]])
    (blast intro: run_miner_free | simp add: size_defs no_oom_def)+

text \<open>C26. The server thread is started before the miner reads the pointer. When a peer's chain is
  accepted in between, the miner takes the new chain for the old one: it destroys the current
  chain, to which the node keeps pointing, and then reads it.\<close>

theorem startup_race_destroys_current_chain:
  assumes "miner_ok ssl bo n w" and "pc w = Start" and "acceptable ssl bo n c"
    and "length (chain_of (ledger_of w)) < length (block_list c)"
  shows "\<exists>v. steps ssl bo args joins_garbage w v \<and> pc v = Faulty Use_After_Free \<and>
    chains (ledger_of v) (current (ledger_of v)) = None"
proof -
  let ?w = "w\<lparr>ledger_of := offered (ledger_of w) c\<rparr>"
  let ?v = "run_miner ssl bo args joins_garbage working 6 ?w"
  have ok: "ledger_ok ssl bo n (ledger_of w)" "mined_version w = sync_version (ledger_of w)"
    using assms(1,2) by (auto simp: miner_ok_def)
  have "steps ssl bo args joins_garbage w ?v"
    by (rule steps_trans [OF step_offer [OF ok(1) assms(3,4)] run_miner_steps])
  moreover have "pc ?v = Faulty Use_After_Free" and "chains (ledger_of ?v) (current (ledger_of ?v)) = None"
    using ok(2) assms(2,4) by (simp_all add: eval_nat_numeral offered_def)
  ultimately show ?thesis by blast
qed

theorem startup_race_destroys_current_chain_witness:
  "\<exists>v. steps (toy_ssl 4) Little_Endian toy_miner_args True
      \<lparr>exit_ready = False, exit_signals = 0, ledger_of = toy_ledger toy_start, mined_version = 0,
        has_broadcast = False, saved = None, pc = Start\<rparr> v \<and>
     pc v = Faulty Use_After_Free"
proof -
  have "miner_ok (toy_ssl 4) Little_Endian 3
      \<lparr>exit_ready = False, exit_signals = 0, ledger_of = toy_ledger toy_start, mined_version = 0,
        has_broadcast = False, saved = None, pc = Start\<rparr>"
    using toy_chain_facts(9) [of Little_Endian]
    by (simp add: miner_ok_def ledger_ok_def toy_ledger_def acceptable_def toy_start_def
        wf_blockchain_def wf_toy_genesis)
  moreover have "acceptable (toy_ssl 4) Little_Endian 3 (toy_chain [toy_mint])"
    using toy_chain_facts(2) toy_chain_facts(7) [of Little_Endian] by (simp add: acceptable_def)
  ultimately show ?thesis
    using startup_race_destroys_current_chain [of "toy_ssl 4" Little_Endian 3 _ "toy_chain [toy_mint]"
        toy_miner_args True]
    by (fastforce simp: toy_ledger_def chain_of_def toy_start_def)
qed

text \<open>C27. The miner reads the pointer and the version it believes to mine at different moments. When
  two switches surround the first, it goes on to build on a chain that is no longer the current
  one, while the versions agree: no iteration of the mining loop is interrupted by the longer
  chain.\<close>

theorem stale_chain_mined_unnoticed:
  assumes "miner_ok ssl bo n w" and "pc w = Check_Version (current (ledger_of w)) SUCCESS"
    and "mined_version w = sync_version (ledger_of w)"
    and "acceptable ssl bo n c" and "acceptable ssl bo n d" and "unat n \<le> SHA256_DIGEST_LENGTH"
    and "hashing_ok ssl"
    and "length (chain_of (ledger_of w)) < length (block_list c)"
    and "length (block_list c) < length (block_list d)"
  shows "\<exists>v p. steps ssl bo args joins_garbage w v \<and> pc v = Build p \<and>
    chains (ledger_of v) p = Some c \<and> holds (ledger_of v) d \<and>
    mined_version v = sync_version (ledger_of v) \<and>
    (\<forall>a x m m'. mine_iteration ssl bo args a v c x m \<noteq> (Fail FAILURE_LONGER_BLOCKCHAIN_DETECTED, m'))"
proof -
  have ok: "ledger_ok ssl bo n (ledger_of w)" using assms(1) by (simp add: miner_ok_def)
  let ?w1 = "w\<lparr>ledger_of := offered (ledger_of w) c\<rparr>"
  let ?w2 = "run_miner ssl bo args joins_garbage working 2 ?w1"
  let ?w3 = "?w2\<lparr>ledger_of := offered (ledger_of ?w2) d\<rparr>"
  let ?v = "run_miner ssl bo args joins_garbage working 2 ?w3"
  have w2: "?w2 = ?w1\<lparr>pc := Drop (current (ledger_of w)) (next_chain (ledger_of w))\<rparr>"
    using assms(2,3,8) by (simp add: eval_nat_numeral offered_def)
  have l2: "ledger_ok ssl bo n (ledger_of ?w2)" "chain_of (ledger_of ?w2) = block_list c"
    unfolding w2 using ledger_ok_offered [OF ok assms(4)] assms(8)
    by (simp_all add: offered_def chain_of_def)
  have "node_steps ssl bo args joins_garbage (w, None) (?w2, None)"
    by (rule rtranclp_trans [OF step_offer [OF ok assms(4,8)] run_miner_free])
  moreover have "steps ssl bo args joins_garbage ?w2 ?v"
    by (rule steps_trans [OF step_offer [OF l2(1) assms(5)] run_miner_steps]) (simp add: l2(2) assms(9))
  ultimately have "steps ssl bo args joins_garbage w ?v" by (rule steps_trans)
  moreover have v: "pc ?v = Build (next_chain (ledger_of w))"
    "chains (ledger_of ?v) (next_chain (ledger_of w)) = Some c" "holds (ledger_of ?v) d"
    "mined_version ?v = sync_version (ledger_of ?v)"
    unfolding w2 using ok assms(8,9)
    by (auto simp: eval_nat_numeral offered_def chain_of_def holds_def ledger_ok_def)
  moreover have "mine_iteration ssl bo args a ?v c x m \<noteq> (Fail FAILURE_LONGER_BLOCKCHAIN_DETECTED, m')"
    for a x m m'
  proof -
    obtain p best digest where x: "x = (p, best, digest)" by (cases x)
    have "num_leading_zero_bytes_required_in_block_hash c = n" using assms(4) by (simp add: acceptable_def)
    from wp_mine_iteration [OF assms(7) this assms(6), of bo args a ?v p best digest m] v(4)
    show ?thesis by (auto simp: wp_def x split: prod.splits outcome.splits)
  qed
  ultimately show ?thesis by blast
qed

definition toy_miner :: "blockchain_t \<Rightarrow> miner" where
  "toy_miner c = \<lparr>exit_ready = False, exit_signals = 0, ledger_of = toy_ledger c, mined_version = 0,
     has_broadcast = False, saved = None, pc = Check_Version 0 SUCCESS\<rparr>"

lemma toy_acceptable:
  "acceptable (toy_ssl 4) bo 3 (toy_chain [toy_mint])" "acceptable (toy_ssl 4) bo 3 toy_start"
  "acceptable (toy_ssl 4) bo 3 (toy_difficulty 3)"
  using toy_chain_facts(2) toy_chain_facts(7,9) [of bo]
  by (simp_all add: acceptable_def toy_start_def toy_difficulty_def wf_blockchain_def wf_toy_genesis)

lemma toy_miner_ok:
  "acceptable (toy_ssl 4) bo 3 c \<Longrightarrow> miner_ok (toy_ssl 4) bo 3 (toy_miner c)"
  by (simp add: miner_ok_def toy_miner_def ledger_ok_def toy_ledger_def alive_def up_to_date_def)

theorem stale_chain_mined_unnoticed_witness:
  "\<exists>v p. steps (toy_ssl 4) Little_Endian toy_miner_args True (toy_miner (toy_difficulty 3)) v \<and>
     pc v = Build p \<and> chains (ledger_of v) p = Some toy_start \<and>
     holds (ledger_of v) (toy_chain [toy_mint]) \<and> mined_version v = sync_version (ledger_of v)"
  using stale_chain_mined_unnoticed [OF toy_miner_ok [OF toy_acceptable(3)] _ _ toy_acceptable(2,1) _
      hashing_ok_toy, of Little_Endian toy_miner_args True]
  by (auto simp: toy_miner_def toy_ledger_def chain_of_def toy_difficulty_def toy_start_def size_defs)

section \<open>An append while the mutex is held\<close>

text \<open>What the step that appends a block does when memory suffices.\<close>

lemma add_step:
  assumes "chains (ledger_of w) p = Some c" and "no_oom (ledger_of w)" and "Suc (length (block_list c)) < 2 ^ 64"
    and "v = miner_step ssl bo args jg a w (Add p b)"
  shows "pc v = (if jg \<or> has_broadcast w then Check_Version p SUCCESS else Faulty Uninitialised_Join)"
    and "chains (ledger_of v) = (chains (ledger_of w))(p \<mapsto> c\<lparr>block_list := block_list c @ [b]\<rparr>)"
    and "current (ledger_of v) = current (ledger_of w)"
proof -
  have "alloc (ledger_of w) = (Ok (), ledger_of w) \<or>
      (\<exists>bs. alloc (ledger_of w) = (Ok (), (ledger_of w)\<lparr>mallocs := bs\<rparr>))"
    using assms(2) by (cases "mallocs (ledger_of w)") (auto simp: alloc_def malloc_def seq_def prog_basic no_oom_def)
  then obtain u where u: "extend_chain c b (ledger_of w) = (Ok (c\<lparr>block_list := block_list c @ [b]\<rparr>), u)"
    "chains u = chains (ledger_of w)" "current u = current (ledger_of w)"
    using assms(3) by (auto simp: extend_chain_def blockchain_add_block_def ll_append_def seq_def prog_basic)
  then show "pc v = (if jg \<or> has_broadcast w then Check_Version p SUCCESS else Faulty Uninitialised_Join)"
    "chains (ledger_of v) = (chains (ledger_of w))(p \<mapsto> c\<lparr>block_list := block_list c @ [b]\<rparr>)"
    "current (ledger_of v) = current (ledger_of w)"
    using assms(1,4) by (auto simp: join_broadcast_def)
qed

text \<open>C37. The miner appends its block without the mutex. When a thread has just counted the blocks of
  the chain and then the block is appended, the thread still switches to a chain that is longer
  than the one it counted, which is no longer than the one it replaces: the block that was
  mined, although it was first and is in a valid chain, is lost.\<close>

theorem append_during_exchange_is_lost:
  assumes "miner_ok ssl bo n w" and "pc w = Add p b" and "p = current (ledger_of w)"
    and "acceptable ssl bo n c" and "length (block_list c) = Suc (length (chain_of (ledger_of w)))"
    and "no_oom (ledger_of w)"
  shows "\<exists>u x v. node_steps ssl bo args joins_garbage (w, None) (u, x) \<and>
    chain_of (ledger_of u) = chain_of (ledger_of w) @ [b] \<and> valid_chain ssl bo n (chain_of (ledger_of u)) \<and>
    pc u = (if joins_garbage \<or> has_broadcast w then Check_Version p SUCCESS else Faulty Uninitialised_Join) \<and>
    node_steps ssl bo args joins_garbage (u, x) (v, None) \<and>
    chain_of (ledger_of v) = block_list c \<and> length (chain_of (ledger_of v)) = length (chain_of (ledger_of u))"
proof -
  let ?ours = "(current (ledger_of w), of_nat (length (chain_of (ledger_of w))))"
  let ?x = "Some (c, ?ours)" and ?u = "miner_step ssl bo args joins_garbage working w (Add p b)"
  have ok: "ledger_ok ssl bo n (ledger_of w)" using assms(1) by (simp add: miner_ok_def)
  obtain d where d: "chains (ledger_of w) p = Some d" "acceptable ssl bo n d" "candidate ssl bo d b"
    "good_proof ssl bo n b (proof_of_work b)"
    using assms(1,2) by (auto simp: miner_ok_def candidate_at_def)
  have len: "Suc (length (block_list d)) < 2 ^ 64"
    using assms(3-5) d(1) by (simp add: chain_of_def acceptable_def)
  note u = add_step [OF d(1) assms(6) len refl, of ssl bo args joins_garbage working b]
  have chain: "chain_of (ledger_of ?u) = chain_of (ledger_of w) @ [b]"
    using u d(1) assms(3) by (simp add: chain_of_def del: miner_step.simps)
  have "acceptable ssl bo n (d\<lparr>block_list := block_list d @ [b\<lparr>proof_of_work := proof_of_work b\<rparr>]\<rparr>)"
    by (rule candidate_accepted [OF d(3,4,2) len])
  then have valid: "valid_chain ssl bo n (chain_of (ledger_of ?u))"
    using chain d(1) assms(3) by (simp add: acceptable_def chain_of_def del: miner_step.simps)
  have c: "num_leading_zero_bytes_required_in_block_hash c = n" using assms(4) by (simp add: acceptable_def)
  have "node_step ssl bo args joins_garbage (w, None) (w, ?x)"
    using node_step.count [OF _ count_ours_eq [OF ok], of ssl bo c args joins_garbage] assms(4) by (simp add: c)
  moreover have "node_step ssl bo args joins_garbage (w, ?x) (?u, ?x)"
    using node_step.mine [of w working ?x ssl bo args joins_garbage] by (simp add: assms(2))
  ultimately have run: "node_steps ssl bo args joins_garbage (w, None) (?u, ?x)"
    by (meson converse_rtranclp_into_rtranclp r_into_rtranclp)
  have "ledger_ok ssl bo n (ledger_of ?u)"
    using add_ok [OF assms(1,2), of args joins_garbage working] by (simp add: assms(2) miner_ok_def del: miner_step.simps)
  from switch_if_longer_eq [OF this assms(4), of "of_nat (length (chain_of (ledger_of w)))"]
  have "switch_if_longer c ?ours (ledger_of ?u) = (Ok True, switched_to (ledger_of ?u) c)"
    using assms(5) by (simp add: u(3) chain_fits [OF ok] del: miner_step.simps)
  from node_step.switch [OF this, of ssl bo args joins_garbage]
  have "node_steps ssl bo args joins_garbage (?u, ?x) (?u\<lparr>ledger_of := switched_to (ledger_of ?u) c\<rparr>, None)"
    by (rule r_into_rtranclp)
  then show ?thesis
    using run chain valid u(1) assms(5)
    by (intro exI [of _ ?u] exI [of _ ?x] exI [of _ "?u\<lparr>ledger_of := switched_to (ledger_of ?u) c\<rparr>"])
      (simp del: miner_step.simps)
qed

theorem append_during_exchange_is_lost_witness:
  "\<exists>u x v. node_steps (toy_ssl 4) Little_Endian toy_miner_args True
       ((toy_miner toy_start)\<lparr>pc := Add 0 ((toy_block [toy_mint])\<lparr>created_at := 1\<rparr>)\<rparr>, None) (u, x) \<and>
     chain_of (ledger_of u) = [toy_genesis, (toy_block [toy_mint])\<lparr>created_at := 1\<rparr>] \<and>
     node_steps (toy_ssl 4) Little_Endian toy_miner_args True (u, x) (v, None) \<and>
     chain_of (ledger_of v) = [toy_genesis, toy_block [toy_mint]]"
proof -
  let ?b = "(toy_block [toy_mint])\<lparr>created_at := 1\<rparr>"
  let ?w = "(toy_miner toy_start)\<lparr>pc := Add 0 ?b\<rparr>"
  have wf: "wf_block ?b" "wf_block (?b\<lparr>proof_of_work := 0\<rparr>)"
    using wf_toy_block [of "[toy_mint]"] wf_toy_mint by (auto simp: wf_block_def)
  have ok: "block_ok (toy_ssl 4) Little_Endian 3 toy_genesis (toy_block [toy_mint])" using toy_block_ok by simp
  have "candidate (toy_ssl 4) Little_Endian toy_start ?b"
    using ok wf(1) by (auto simp: candidate_def block_ok_def toy_start_def toy_block_def)
  moreover have "good_proof (toy_ssl 4) Little_Endian 3 ?b (proof_of_work ?b)"
    using toy_hash [OF wf(2), of 4 Little_Endian] by (simp add: good_proof_def toy_block_def)
  ultimately have miner: "miner_ok (toy_ssl 4) Little_Endian 3 ?w"
    using toy_miner_ok [OF toy_acceptable(2) [of Little_Endian]] toy_acceptable(2)
    by (auto simp: miner_ok_def toy_miner_def candidate_at_def up_to_date_def toy_ledger_def)
  show ?thesis
    using append_during_exchange_is_lost [OF miner _ _ toy_acceptable(1), of 0 ?b toy_miner_args True]
    by (auto simp: toy_miner_def toy_ledger_def chain_of_def toy_start_def no_oom_def)
qed

section \<open>The broadcast thread\<close>

text \<open>What holds of a miner that has never started a broadcast thread, when joining a handle that
  was never set does not return.\<close>

definition never_broadcast :: "'k openssl \<Rightarrow> byte_order \<Rightarrow> u64 \<Rightarrow> miner \<Rightarrow> bool" where
  "never_broadcast ssl bo n w \<longleftrightarrow> miner_ok ssl bo n w \<and> pc w \<noteq> Start \<and> \<not> has_broadcast w \<and>
     pc w \<noteq> Returned SUCCESS"

lemma finish_facts_not:
  "\<not> has_broadcast w \<Longrightarrow> e \<noteq> SUCCESS \<Longrightarrow> \<not> has_broadcast (finish e w) \<and> pc (finish e w) \<noteq> Returned SUCCESS"
  using finish_facts [of w e] by auto

lemma miner_step_never_broadcast:
  assumes "never_broadcast ssl bo n w" and "openssl_ok ssl args" and "unat n \<le> SHA256_DIGEST_LENGTH"
  shows "\<not> has_broadcast (miner_step ssl bo args False a w (pc w)) \<and>
    pc (miner_step ssl bo args False a w (pc w)) \<noteq> Returned SUCCESS"
proof -
  have w: "miner_ok ssl bo n w" "pc_ok ssl bo n w (pc w)" "\<not> has_broadcast w" "pc w \<noteq> Returned SUCCESS"
    using assms(1) by (auto simp: never_broadcast_def miner_ok_def)
  have hash: "hashing_ok ssl" using assms(2) by (simp add: openssl_ok_def)
  show ?thesis
  proof (cases "pc w")
    case (Build p)
    then obtain c where c: "chains (ledger_of w) p = Some c" "acceptable ssl bo n c"
      using w(2) by (auto simp: alive_def)
    show ?thesis
      using wp_build_block [OF assms(2,3) c(2), of "transaction_time a" "block_time a" "ledger_of w"]
        finish_facts_not w Build c
      by (auto simp: wp_def split: prod.splits outcome.splits)
  next
    case (Mine p q x m)
    then obtain c where c: "chains (ledger_of w) q = Some c" "num_leading_zero_bytes_required_in_block_hash c = n"
      using w(2) by (auto simp: alive_def acceptable_def)
    obtain k best digest where x: "x = (k, best, digest)" by (cases x)
    show ?thesis
      using wp_mine_iteration [OF hash c(2) assms(3), of bo args a w k best digest m] w Mine c(1)
      by (auto simp: wp_def x after_mining_def split: prod.splits outcome.splits sum.splits)
  next
    case (Add p b)
    then obtain c where c: "chains (ledger_of w) p = Some c"
      using w(2) by (auto simp: candidate_at_def)
    show ?thesis
      using wp_extend_chain [of c b "ledger_of w"] finish_facts_not w Add c
      by (auto simp: wp_def join_broadcast_def split: prod.splits outcome.splits)
  qed (use w finish_facts_not in \<open>auto simp: join_broadcast_def Let_def after_mining_def\<close>)
qed

text \<open>The handle of the broadcast thread is joined before the first such thread is created. On
  a platform where pthread_join of a handle that was never set does not return, the miner never
  starts a broadcast thread, so no block it mines is announced by it, and mine_blocks never
  returns SUCCESS, whatever it does and the other threads do.\<close>

theorem uninitialised_join_blocks_success:
  assumes "openssl_ok ssl args" and "unat n \<le> SHA256_DIGEST_LENGTH"
    and "miner_ok ssl bo n w" and "pc w \<noteq> Start" and "\<not> has_broadcast w" and "pc w \<noteq> Returned SUCCESS"
    and "steps ssl bo args False w v"
  shows "\<not> has_broadcast v \<and> pc v \<noteq> Returned SUCCESS"
proof -
  obtain x where "node_steps ssl bo args False (w, None) (v, x)" using assms(7) by (auto simp: steps_def)
  then show ?thesis
  proof (rule node_steps_invariant [where P = "\<lambda>v. \<not> has_broadcast v \<and> pc v \<noteq> Returned SUCCESS",
        OF _ _ assms(1,2)])
    show "node_ok ssl bo n (w, None)" using assms(3,4) by simp
  next
    fix u a assume "miner_ok ssl bo n u" "pc u \<noteq> Start" "\<not> has_broadcast u \<and> pc u \<noteq> Returned SUCCESS"
    then have "never_broadcast ssl bo n u" by (simp add: never_broadcast_def)
    from miner_step_never_broadcast [OF this assms(1,2)]
    show "\<not> has_broadcast (miner_step ssl bo args False a u (pc u)) \<and>
      pc (miner_step ssl bo args False a u (pc u)) \<noteq> Returned SUCCESS" .
  qed (use assms(5,6) in simp_all)
qed

theorem uninitialised_join_blocks_success_witness:
  "pc (run_miner (toy_ssl 4) Little_Endian toy_miner_args False (working\<lparr>should_stop := True\<rparr>) 1
     (toy_miner toy_start)) \<noteq> Returned SUCCESS"
  using uninitialised_join_blocks_success [where bo = Little_Endian, OF toy_openssl_ok _
      toy_miner_ok [OF toy_acceptable(2)] _ _ _ run_miner_steps [of _ _ _ _ _ 1 "working\<lparr>should_stop := True\<rparr>"]]
  by (auto simp: size_defs toy_miner_def)

section \<open>Progress\<close>

lemma run_miner_Suc:
  "run_miner ssl bo args jg a (Suc k) w = run_miner ssl bo args jg a k (miner_step ssl bo args jg a w (pc w))"
  by (simp only: funpow_Suc_right o_apply)

lemma mining_finds_proof:
  assumes "hashing_ok ssl" and "unat n \<le> SHA256_DIGEST_LENGTH"
    and "num_leading_zero_bytes_required_in_block_hash c = n" and "chains (ledger_of w) q = Some c"
    and "mined_version w = sync_version (ledger_of w)" and "\<not> should_stop a"
    and "good_proof ssl bo n b k" and "k < - 1"
  shows "i \<le> k \<Longrightarrow> \<exists>r. mining_block m = b\<lparr>proof_of_work := r\<rparr> \<Longrightarrow>
    \<exists>j r. r \<le> k \<and> good_proof ssl bo n b r \<and>
      run_miner ssl bo args jg a j (w\<lparr>pc := Mine p q (i, best, digest) m\<rparr>) =
        w\<lparr>pc := Add p (b\<lparr>proof_of_work := r\<rparr>)\<rparr>"
proof (induction "unat k - unat i" arbitrary: i best digest m)
  have good: "good_proof ssl bo n (b\<lparr>proof_of_work := r\<rparr>) = good_proof ssl bo n b" for r
    by (simp add: good_proof_def fun_eq_iff)
  have one: "\<exists>m'. mining_block m' = b\<lparr>proof_of_work := i\<rparr> \<and>
      (good_proof ssl bo n b i \<and>
         miner_step ssl bo args jg a (w\<lparr>pc := s\<rparr>) (Mine p q (i, best, digest) m) =
           w\<lparr>pc := Add p (b\<lparr>proof_of_work := i\<rparr>)\<rparr> \<or>
       \<not> good_proof ssl bo n b i \<and> (\<exists>best' digest'.
         miner_step ssl bo args jg a (w\<lparr>pc := s\<rparr>) (Mine p q (i, best, digest) m) =
           w\<lparr>pc := Mine p q (i + 1, best', digest') m'\<rparr>))"
    if less: "i \<le> k" and form: "\<exists>r. mining_block m = b\<lparr>proof_of_work := r\<rparr>" for i best digest m s
  proof -
    have i: "i < - 1" using less assms(8) by (rule order.strict_trans1)
    have same: "mine_iteration ssl bo args a (w\<lparr>pc := s\<rparr>) = mine_iteration ssl bo args a w"
      by (simp add: mine_iteration_def fun_eq_iff)
    have "wp (mine_iteration ssl bo args a w c (i, best, digest))
      (\<lambda>v t. mining_block t = (mining_block m)\<lparr>proof_of_work := i\<rparr> \<and>
        (case v of Inl (q, _) \<Rightarrow> q = i + 1 \<and> \<not> good_proof ssl bo n (mining_block m) i
         | Inr _ \<Rightarrow> good_proof ssl bo n (mining_block m) i)) (\<lambda>_ _. False) m"
      by (rule wp_mono [OF wp_mine_iteration [OF assms(1,3,2)]]) (use i assms(5,6) in auto)
    then obtain v m' where v: "mine_iteration ssl bo args a w c (i, best, digest) m = (Ok v, m')"
      "mining_block m' = (mining_block m)\<lparr>proof_of_work := i\<rparr>"
      "case v of Inl (q, _) \<Rightarrow> q = i + 1 \<and> \<not> good_proof ssl bo n (mining_block m) i
         | Inr _ \<Rightarrow> good_proof ssl bo n (mining_block m) i"
      by (auto simp: wp_Ok_iff)
    obtain r where r: "mining_block m = b\<lparr>proof_of_work := r\<rparr>" using form by blast
    show ?thesis
    proof (cases v)
      case (Inl y)
      obtain best' digest' where "y = (i + 1, best', digest')"
        using v(3) Inl by (cases y) auto
      then show ?thesis
        using v r good assms(4) by (intro exI [of _ m']) (auto simp: same Inl)
    next
      case (Inr u)
      then show ?thesis
        using v r good assms(4) by (intro exI [of _ m']) (simp add: same)
    qed
  qed
  {
    case 0
    then have "i = k" by (simp add: word_le_nat_alt word_unat_eq_iff)
    then show ?case
      using one [of i m "Mine p q (i, best, digest) m" best digest] 0(2,3) assms(7)
      by (intro exI [of _ 1] exI [of _ k]) auto
  next
    case (Suc d)
    from one [OF Suc.prems, of "Mine p q (i, best, digest) m" best digest] obtain m' where
      m': "mining_block m' = b\<lparr>proof_of_work := i\<rparr>" and
      or: "good_proof ssl bo n b i \<and>
         miner_step ssl bo args jg a (w\<lparr>pc := Mine p q (i, best, digest) m\<rparr>) (Mine p q (i, best, digest) m) =
           w\<lparr>pc := Add p (b\<lparr>proof_of_work := i\<rparr>)\<rparr> \<or>
       \<not> good_proof ssl bo n b i \<and> (\<exists>best' digest'.
         miner_step ssl bo args jg a (w\<lparr>pc := Mine p q (i, best, digest) m\<rparr>) (Mine p q (i, best, digest) m) =
           w\<lparr>pc := Mine p q (i + 1, best', digest') m'\<rparr>)"
      by blast
    show ?case
    proof (cases "good_proof ssl bo n b i")
      case True
      with or Suc.prems(1) show ?thesis by (intro exI [of _ 1] exI [of _ i]) auto
    next
      case False
      with or obtain best' digest' where
        st: "miner_step ssl bo args jg a (w\<lparr>pc := Mine p q (i, best, digest) m\<rparr>) (Mine p q (i, best, digest) m) =
           w\<lparr>pc := Mine p q (i + 1, best', digest') m'\<rparr>" by blast
      have "i \<noteq> k" using False assms(7) by blast
      with Suc.prems(1) have "i < k" by simp
      then have "i < - 1" using assms(8) by (rule order.strict_trans)
      then have next_i: "unat (i + 1) = unat i + 1"
        using unatSuc [of i] by (simp add: add.commute add_eq_0_iff less_le)
      have "d = unat k - unat (i + 1)" "i + 1 \<le> k"
        using Suc.hyps(2) \<open>i < k\<close> by (auto simp: next_i word_le_nat_alt word_less_nat_alt)
      from Suc.hyps(1) [OF this, of m' best' digest'] m' obtain j r where
        "r \<le> k" "good_proof ssl bo n b r"
        "run_miner ssl bo args jg a j (w\<lparr>pc := Mine p q (i + 1, best', digest') m'\<rparr>) =
          w\<lparr>pc := Add p (b\<lparr>proof_of_work := r\<rparr>)\<rparr>" by blast
      then show ?thesis
        by (intro exI [of _ "Suc j"] exI [of _ r]) (simp add: run_miner_Suc st del: funpow.simps miner_step.simps)
    qed
  }
qed


text \<open>C13. An undisturbed miner makes progress: when its block is built, memory suffices, and a proof of
  work below UINT64_MAX is good for the block, then after finitely many steps the chain it holds
  is extended by the block, with a good proof not above that one, and the extended chain is
  valid, also when the mining function looked at another chain because the pointer has been
  switched. It is then back at the start of its loop, unless the block was its first and
  pthread_join does not return for a handle that was never set (the extended chain is there in
  this case too).\<close>

theorem undisturbed_miner_extends_chain:
  assumes "openssl_ok ssl args" and "unat n \<le> SHA256_DIGEST_LENGTH" and "miner_ok ssl bo n w"
    and "pc w = Build p" and "chains (ledger_of w) p = Some c" and "mined_version w = sync_version (ledger_of w)"
    and "no_oom (ledger_of w)" and "Suc (length (block_list c)) < 2 ^ 64"
    and "\<not> should_stop a" and "locked a" and "unlocked a"
    and "build_block ssl bo args (transaction_time a) (block_time a) c (ledger_of w) = (Ok b, l)"
    and "good_proof ssl bo n b k" and "k < - 1"
  shows "\<exists>j r d. let v = run_miner ssl bo args joins_garbage a j w in
    pc v = (if joins_garbage \<or> has_broadcast w then Check_Version p SUCCESS else Faulty Uninitialised_Join) \<and>
    r \<le> k \<and> good_proof ssl bo n b r \<and>
    chains (ledger_of v) p = Some d \<and> block_list d = block_list c @ [b\<lparr>proof_of_work := r\<rparr>] \<and>
    valid_chain ssl bo n (block_list d) \<and>
    current (ledger_of v) = current (ledger_of w) \<and>
    (p = current (ledger_of w) \<longrightarrow> chain_of (ledger_of v) = chain_of (ledger_of w) @ [b\<lparr>proof_of_work := r\<rparr>])"
proof -
  have hash: "hashing_ok ssl" using assms(1) by (simp add: openssl_ok_def)
  have c: "acceptable ssl bo n c" using assms(3-5) by (simp add: miner_ok_def alive_def)
  obtain e where e: "chains (ledger_of w) (current (ledger_of w)) = Some e" "acceptable ssl bo n e"
    using assms(3) by (auto simp: miner_ok_def ledger_ok_def)
  have d: "num_leading_zero_bytes_required_in_block_hash e = n" using e(2) by (simp add: acceptable_def)
  from wp_build_block [OF assms(1,2) c, of "transaction_time a" "block_time a" "ledger_of w"] assms(12)
  have cand: "candidate ssl bo c b" and alloc: "alloc_step (ledger_of w) l" by (auto simp: wp_def)
  note l = ledger_facts_alloc_step [OF alloc]
  let ?run = "run_miner ssl bo args joins_garbage a" and ?w = "w\<lparr>ledger_of := l\<rparr>" and ?q = "current (ledger_of w)"
  have two: "?run 2 w = ?w\<lparr>pc := Mine p ?q (0, 0, zero_hash) \<lparr>mining_block = b, printed = []\<rparr>\<rparr>"
    using assms(4,5,10,11,12) l by (simp add: eval_nat_numeral)
  have same: "\<exists>r. b = b\<lparr>proof_of_work := r\<rparr>" by (rule exI [of _ "proof_of_work b"]) simp
  obtain j r where j: "r \<le> k" "good_proof ssl bo n b r"
    "?run j (?w\<lparr>pc := Mine p ?q (0, 0, zero_hash) \<lparr>mining_block = b, printed = []\<rparr>\<rparr>) =
      ?w\<lparr>pc := Add p (b\<lparr>proof_of_work := r\<rparr>)\<rparr>"
    using mining_finds_proof [OF hash assms(2) d, where w = ?w and q = ?q and a = a and b = b and k = k
        and i = 0 and m = "\<lparr>mining_block = b, printed = []\<rparr>" and bo = bo and args = args
        and jg = joins_garbage and p = p and best = 0 and digest = zero_hash] assms(6,9,13,14) l e(1)
      same by auto
  let ?b = "b\<lparr>proof_of_work := r\<rparr>" and ?v = "?run (1 + (j + 2)) w"
  let ?add = "?w\<lparr>pc := Add p ?b\<rparr>"
  have v: "?v = miner_step ssl bo args joins_garbage a ?add (Add p ?b)"
    by (simp only: run_miner_add [where j = 1] run_miner_add [where j = j] two j(3)) simp
  have "chains (ledger_of ?add) p = Some c" "no_oom (ledger_of ?add)"
    using assms(5,7) l alloc_step_no_oom [OF alloc] by simp_all
  note add = add_step [OF this assms(8) v]
  have "acceptable ssl bo n (c\<lparr>block_list := block_list c @ [?b]\<rparr>)"
    by (rule candidate_accepted [OF cand j(2) c assms(8)])
  then show ?thesis
    using j(1,2) assms(5) l add
    by (intro exI [of _ "1 + (j + 2)"] exI [of _ r] exI [of _ "c\<lparr>block_list := block_list c @ [?b]\<rparr>"])
      (simp only: Let_def, auto simp: chain_of_def acceptable_def simp del: funpow.simps miner_step.simps)
qed

lemma toy_build:
  "\<exists>b l. build_block (toy_ssl 4) bo toy_miner_args 0 0 toy_start (toy_ledger toy_start) = (Ok b, l) \<and>
     good_proof (toy_ssl 4) bo 3 b 0"
proof -
  have "\<exists>b l. build_block (toy_ssl 4) bo toy_miner_args 0 0 toy_start (toy_ledger toy_start) = (Ok b, l)"
    using acceptable_verifies [OF hashing_ok_toy _ toy_acceptable(2), of bo True "toy_ledger toy_start"]
    by (simp add: build_block_def toy_ledger_def toy_miner_args_def toy_ssl_def toy_start_def size_defs
        ll_get_last_def ll_create_def ll_prepend_def block_create_def transaction_create_def
        transaction_generate_signature_def Let_def toy_sign_def seq_def prog_basic block_hash_def alloc_def malloc_def)
  then obtain b l where b: "build_block (toy_ssl 4) bo toy_miner_args 0 0 toy_start (toy_ledger toy_start) = (Ok b, l)"
    by blast
  have "wf_block b"
    using wp_build_block [OF toy_openssl_ok _ toy_acceptable(2) [of bo], of 0 0 "toy_ledger toy_start"] b
    by (simp add: wp_def size_defs candidate_def)
  then have "wf_block (b\<lparr>proof_of_work := 0\<rparr>)" by (simp add: wf_block_def)
  from toy_hash [OF this, of 4 bo] b show ?thesis by (auto simp: good_proof_def)
qed

theorem undisturbed_miner_extends_chain_witness:
  "\<exists>j b. let v = run_miner (toy_ssl 4) Little_Endian toy_miner_args True working j
      ((toy_miner toy_start)\<lparr>pc := Build 0\<rparr>) in
     pc v = Check_Version 0 SUCCESS \<and> chain_of (ledger_of v) = [toy_genesis, b]"
proof -
  obtain b l where b: "build_block (toy_ssl 4) Little_Endian toy_miner_args 0 0 toy_start
      (toy_ledger toy_start) = (Ok b, l)" "good_proof (toy_ssl 4) Little_Endian 3 b 0"
    using toy_build by blast
  have ok: "miner_ok (toy_ssl 4) Little_Endian 3 ((toy_miner toy_start)\<lparr>pc := Build 0\<rparr>)"
    using toy_miner_ok [OF toy_acceptable(2) [of Little_Endian]]
    by (simp add: miner_ok_def toy_miner_def up_to_date_def)
  have "(0 :: u64) < - 1" by (simp add: word_gt_0)
  from undisturbed_miner_extends_chain [OF toy_openssl_ok _ ok _ _ _ _ _ _ _ _ _ b(2) this, of 0 toy_start working l True]
  show ?thesis
    using b(1)
    by (auto simp: toy_miner_def toy_ledger_def chain_of_def toy_start_def working_def size_defs Let_def no_oom_def)
qed

end
