(* ===== verification/C_Library.thy ===== *)
theory C_Library
  imports Endian
begin

text \<open>
  What the main programs use of the C library and of the language: \<open>strtol\<close>, decimal numbers as
  \<open>printf\<close> writes them, and the arithmetic of doubles on whole numbers.
  A \<open>long\<close> has 64 bits, a double is an IEEE double.
\<close>

section \<open>Numbers as text\<close>

definition is_space :: "char \<Rightarrow> bool" where
  "is_space c \<longleftrightarrow> (of_char c :: nat) = 32 \<or> (of_char c :: nat) \<in> {9..13}"

definition digit_value :: "char \<Rightarrow> nat option" where
  "digit_value c = (let n = of_char c :: nat in if n \<in> {48..57} then Some (n - 48) else None)"

text \<open>The value of the digits at the start of a string.\<close>

fun digits_value :: "nat \<Rightarrow> string \<Rightarrow> nat" where
  "digits_value acc [] = acc"
| "digits_value acc (c # cs) =
     (case digit_value c of None \<Rightarrow> acc | Some d \<Rightarrow> digits_value (10 * acc + d) cs)"

definition LONG_MAX :: int where
  "LONG_MAX = 2 ^ 63 - 1"

definition LONG_MIN :: int where
  "LONG_MIN = - (2 ^ 63)"

text \<open>In base 10: white space, a sign, digits; a number out of range becomes the nearest bound.\<close>

definition strtol :: "string \<Rightarrow> int" where
  "strtol str = max LONG_MIN (min LONG_MAX
     (case dropWhile is_space str of
        [] \<Rightarrow> 0
      | c # cs \<Rightarrow>
          if c = CHR ''-'' then - int (digits_value 0 cs)
          else if c = CHR ''+'' then int (digits_value 0 cs)
          else int (digits_value 0 (c # cs))))"

text \<open>What \<open>printf\<close> writes for an unsigned integer.\<close>

definition digit_char :: "nat \<Rightarrow> char" where
  "digit_char d = char_of (48 + d)"

fun decimal :: "nat \<Rightarrow> string" where
  "decimal n = (if n < 10 then [digit_char n] else decimal (n div 10) @ [digit_char (n mod 10)])"

declare decimal.simps [simp del]

lemma of_digit_char [simp]: "d < 10 \<Longrightarrow> (of_char (digit_char d) :: nat) = 48 + d"
  by (simp add: digit_char_def)

lemma digit_value_digit_char [simp]: "d < 10 \<Longrightarrow> digit_value (digit_char d) = Some d"
  by (simp add: digit_value_def)

definition no_digit :: "string \<Rightarrow> bool" where
  "no_digit str \<longleftrightarrow> (case str of [] \<Rightarrow> True | c # _ \<Rightarrow> digit_value c = None)"

lemma digits_value_stop [simp]: "no_digit str \<Longrightarrow> digits_value acc str = acc"
  by (auto simp: no_digit_def split: list.splits)

lemma digits_value_decimal:
  "digits_value 0 (decimal n @ str) = digits_value n str"
proof (induction n arbitrary: str rule: decimal.induct)
  case (1 n)
  show ?case
    by (subst decimal.simps) (use 1 [of "digit_char (n mod 10) # str"] in simp)
qed

lemma decimal_first:
  obtains d cs where "decimal n = digit_char d # cs" and "d < 10"
proof (induction n arbitrary: thesis rule: decimal.induct)
  case (1 n)
  show ?case
  proof (cases "n < 10")
    case True
    then show ?thesis using 1(2) [of n "[]"] decimal.simps [of n] by simp
  next
    case False
    then obtain d cs where "decimal (n div 10) = digit_char d # cs" "d < 10" using 1(1) by blast
    then show ?thesis using 1(2) [of d "cs @ [digit_char (n mod 10)]"] False decimal.simps [of n] by simp
  qed
qed

lemma digit_char_neq [simp]:
  assumes "d < 10"
  shows "\<not> is_space (digit_char d)" "digit_char d \<noteq> CHR ''-''" "digit_char d \<noteq> CHR ''+''"
proof -
  have "(of_char (digit_char d) :: nat) = 48 + d" using assms by simp
  then show "\<not> is_space (digit_char d)" "digit_char d \<noteq> CHR ''-''" "digit_char d \<noteq> CHR ''+''"
    by (auto simp: is_space_def)
qed

lemma strtol_decimal:
  assumes "\<forall>c \<in> set ws. is_space c" and "no_digit str"
  shows "strtol (ws @ decimal n @ str) = min LONG_MAX (int n)"
    and "strtol (ws @ CHR ''-'' # decimal n @ str) = max LONG_MIN (- int n)"
proof -
  obtain d cs where d: "decimal n = digit_char d # cs" "d < 10" by (rule decimal_first)
  have skip: "dropWhile is_space (ws @ xs) = dropWhile is_space xs" for xs
    using assms(1) by (simp add: dropWhile_append2)
  have digits: "digits_value 0 (decimal n @ str) = n"
    using assms(2) by (simp add: digits_value_decimal)
  show "strtol (ws @ decimal n @ str) = min LONG_MAX (int n)"
    using digits d(2) unfolding strtol_def skip
    by (simp add: d(1) del: digits_value.simps) (simp add: LONG_MAX_def LONG_MIN_def)
  have "\<not> is_space (CHR ''-'')" by (simp add: is_space_def)
  then show "strtol (ws @ CHR ''-'' # decimal n @ str) = max LONG_MIN (- int n)"
    using digits unfolding strtol_def skip by (simp add: LONG_MAX_def LONG_MIN_def)
qed

lemma strtol_bounds: "LONG_MIN \<le> strtol str" "strtol str \<le> LONG_MAX"
  by (simp_all add: strtol_def LONG_MAX_def LONG_MIN_def)

section \<open>Doubles\<close>

fun bit_length :: "nat \<Rightarrow> nat" where
  "bit_length n = (if n = 0 then 0 else Suc (bit_length (n div 2)))"

declare bit_length.simps [simp del]

text \<open>The double nearest to a whole number, of two the one whose last bit is 0: 53 bits are
  kept.\<close>

definition double_of_nat :: "nat \<Rightarrow> nat" where
  "double_of_nat n =
     (let e = bit_length n - 53; q = n div 2 ^ e; r = n mod 2 ^ e in
      (if 2 ^ e < 2 * r \<or> 2 * r = 2 ^ e \<and> odd q then q + 1 else q) * 2 ^ e)"

text \<open>A product of doubles converted to an \<open>uint64_t\<close>; it is undefined when it does not fit.\<close>

definition u64_of_double :: "nat \<Rightarrow> u64 option" where
  "u64_of_double n = (if n < 2 ^ 64 then Some (of_nat n) else None)"

definition scale_seconds :: "u64 \<Rightarrow> u64 option" where
  "scale_seconds secs = u64_of_double (double_of_nat (double_of_nat (unat secs) * 1000000))"

lemma bit_length_0 [simp]: "bit_length 0 = 0"
  by (subst bit_length.simps) simp

lemma bit_length_pos: "n \<noteq> 0 \<Longrightarrow> bit_length n = Suc (bit_length (n div 2))"
  by (subst bit_length.simps) simp

lemma bit_length_bounds: "n < 2 ^ bit_length n" "n \<noteq> 0 \<Longrightarrow> 2 ^ (bit_length n - 1) \<le> n"
proof (induction n rule: bit_length.induct)
  case (1 n)
  note IH = 1
  show "n < 2 ^ bit_length n"
  proof (cases "n = 0")
    case False
    then show ?thesis using IH(1) bit_length_pos [OF False] by auto
  qed simp
  show "2 ^ (bit_length n - 1) \<le> n" if "n \<noteq> 0"
  proof (cases "n div 2 = 0")
    case True
    then show ?thesis using that bit_length_pos [OF that] by simp
  next
    case False
    then obtain k where "bit_length (n div 2) = Suc k" using bit_length_pos [OF False] by blast
    then show ?thesis using IH(2) [OF that False] bit_length_pos [OF that] by simp
  qed
qed

lemma bit_length_le: "n < 2 ^ k \<Longrightarrow> bit_length n \<le> k"
proof (rule ccontr)
  assume n: "n < 2 ^ k" and k: "\<not> bit_length n \<le> k"
  then have "n \<noteq> 0" by (cases "n = 0") auto
  from bit_length_bounds(2) [OF this] have "(2 :: nat) ^ (bit_length n - 1) \<le> n" .
  moreover have "(2 :: nat) ^ k \<le> 2 ^ (bit_length n - 1)" using k by (intro power_increasing) auto
  ultimately show False using n by linarith
qed

lemma double_exact [simp]: "n < 2 ^ 53 \<Longrightarrow> double_of_nat n = n"
  using bit_length_le [of n 53] by (simp add: double_of_nat_def)

lemma double_error:
  "2 * double_of_nat n \<le> 2 * n + 2 ^ (bit_length n - 53)"
  "2 * n \<le> 2 * double_of_nat n + 2 ^ (bit_length n - 53)"
proof -
  let ?e = "bit_length n - 53"
  define q r where "q = n div 2 ^ ?e" and "r = n mod 2 ^ ?e"
  have n: "n = q * 2 ^ ?e + r" "r < 2 ^ ?e"
    unfolding q_def r_def by (simp_all only: div_mult_mod_eq) simp
  have d: "double_of_nat n = (if 2 ^ ?e < 2 * r \<or> 2 * r = 2 ^ ?e \<and> odd q then q + 1 else q) * 2 ^ ?e"
    by (simp add: double_of_nat_def q_def r_def Let_def)
  show "2 * double_of_nat n \<le> 2 * n + 2 ^ ?e" "2 * n \<le> 2 * double_of_nat n + 2 ^ ?e"
    unfolding d using n by (auto simp: algebra_simps)
qed

lemma double_half: "n \<le> 2 * double_of_nat n"
proof (cases "bit_length n \<le> 53")
  case True
  then show ?thesis using double_error(2) [of n] by simp
next
  case False
  then have "n \<noteq> 0" by (cases "n = 0") auto
  have "(2 :: nat) ^ (bit_length n - 53) \<le> 2 ^ (bit_length n - 1)" by (intro power_increasing) auto
  then show ?thesis using double_error(2) [of n] bit_length_bounds(2) [OF \<open>n \<noteq> 0\<close>] by linarith
qed

lemma double_near:
  assumes "n < 2 ^ k" and "53 \<le> k"
  shows "2 * double_of_nat n \<le> 2 * n + 2 ^ (k - 53)" and "2 * n \<le> 2 * double_of_nat n + 2 ^ (k - 53)"
proof -
  have "(2 :: nat) ^ (bit_length n - 53) \<le> 2 ^ (k - 53)"
    using bit_length_le [OF assms(1)] assms(2) by (intro power_increasing) auto
  then show "2 * double_of_nat n \<le> 2 * n + 2 ^ (k - 53)" "2 * n \<le> 2 * double_of_nat n + 2 ^ (k - 53)"
    using double_error [of n] by linarith+
qed

text \<open>The largest number of seconds that fits is the largest whose microseconds do.\<close>

lemma scale_seconds_None: "scale_seconds secs = None \<longleftrightarrow> 18446744073709 < unat secs"
proof -
  let ?p = "unat secs * 1000000"
  consider "unat secs \<le> 18446744073709" | "18446744073709 < unat secs" "?p < 2 ^ 65"
    | "18446744073709 < unat secs" "2 ^ 65 \<le> ?p" "unat secs < 2 ^ 53" | "2 ^ 53 \<le> unat secs"
    by linarith
  then show ?thesis
  proof cases
    case 1
    then have "2 * double_of_nat ?p \<le> 2 * ?p + 2 ^ (64 - 53)" by (intro double_near) auto
    then show ?thesis using 1 by (simp add: scale_seconds_def u64_of_double_def)
  next
    case 2
    then have "2 * ?p \<le> 2 * double_of_nat ?p + 2 ^ (65 - 53)" by (intro double_near) auto
    then show ?thesis using 2 by (simp add: scale_seconds_def u64_of_double_def)
  next
    case 3
    then show ?thesis using double_half [of ?p] by (simp add: scale_seconds_def u64_of_double_def)
  next
    case 4
    let ?d = "double_of_nat (unat secs)"
    have "unat secs \<le> 2 * ?d" "?d * 1000000 \<le> 2 * double_of_nat (?d * 1000000)" by (rule double_half)+
    then show ?thesis using 4 by (simp add: scale_seconds_def u64_of_double_def)
  qed
qed

lemma scale_seconds_exact:
  "unat secs * 1000000 < 2 ^ 53 \<Longrightarrow> scale_seconds secs = Some (of_nat (unat secs * 1000000))"
  by (simp add: scale_seconds_def u64_of_double_def)

lemma scale_seconds_near:
  assumes "scale_seconds secs = Some m"
  shows "unat m \<le> unat secs * 1000000 + 1024" and "unat secs * 1000000 \<le> unat m + 1024"
proof -
  let ?p = "unat secs * 1000000"
  have "unat secs \<le> 18446744073709" using assms scale_seconds_None [of secs] by simp
  moreover from this have "2 * double_of_nat ?p \<le> 2 * ?p + 2 ^ (64 - 53)" "2 * ?p \<le> 2 * double_of_nat ?p + 2 ^ (64 - 53)"
    by (intro double_near; simp)+
  moreover have "m = of_nat (double_of_nat ?p)" "double_of_nat ?p < 2 ^ 64"
    using assms calculation(1) by (auto simp: scale_seconds_def u64_of_double_def split: if_splits)
  moreover from this have "unat m = double_of_nat ?p" by (simp add: unsigned_of_nat take_bit_eq_mod)
  ultimately show "unat m \<le> ?p + 1024" "?p \<le> unat m + 1024" by simp_all
qed

end
