(* ===== verification/Process.thy ===== *)
theory Process
  imports C_Library Peer_Discovery
begin

text \<open>
  What the three main programs share: the state of a process, the functions of the platform they
  call, and the reading of the command line. Also src/base64.c and src/sleep.c, which only they
  and their threads use.
\<close>

section \<open>The platform\<close>

text \<open>Every call of POSIX and OpenSSL that the programs make is a field. \<open>getopt\<close> yields what its
  calls return until it returns -1, each with \<open>optarg\<close>; \<open>inet_pton\<close> the 16 bytes, if it returns
  1; \<open>EVP_DecodeBlock\<close> the bytes it writes and what it returns.\<close>

record timespec =
  tv_sec :: int
  tv_nsec :: int

record platform =
  AF_INET6 :: u16
  getopt :: "string list \<Rightarrow> string \<Rightarrow> (char \<times> string) list"
  getenv :: "string \<Rightarrow> string option"
  inet_pton :: "string \<Rightarrow> u8 list option"
  EVP_DecodeBlock :: "string \<Rightarrow> int \<Rightarrow> u8 list \<times> int"
  nanosleep :: "timespec \<Rightarrow> int"

text \<open>What their documentation says: an address has 16 bytes; decoding writes three bytes for each
  four characters, and returns no more than it has written.\<close>

definition platform_ok :: "platform \<Rightarrow> bool" where
  "platform_ok pf \<longleftrightarrow> (\<forall>str a. inet_pton pf str = Some a \<longrightarrow> length a = IN6_ADDR_BYTES) \<and>
     (\<forall>str n. 0 \<le> n \<and> n \<le> int (length str) \<longrightarrow>
        length (fst (EVP_DecodeBlock pf str n)) \<le> 3 * (nat n div 4) \<and>
        snd (EVP_DecodeBlock pf str n) \<le> int (length (fst (EVP_DecodeBlock pf str n))))"

section \<open>base64.c and sleep.c\<close>

text \<open>\<open>decoded\<close> is the object the result is written to, whose new contents are returned.\<close>

definition base64_decode ::
  "platform \<Rightarrow> string option \<Rightarrow> u64 \<Rightarrow> u8 list option \<Rightarrow> ('s, u8 list) prog" where
  "base64_decode pf encoded encoded_length decoded =
     (case (encoded, decoded) of
        (Some str, Some object) \<Rightarrow>
          (case EVP_DecodeBlock pf str (sint (ucast encoded_length :: u32)) of
             (bytes, decoded_length) \<Rightarrow>
               if length object < length bytes then undef
               else if decoded_length < 0 then fail FAILURE_OPENSSL_FUNCTION
               else if int (length object) \<le> decoded_length then undef
               else ret ((bytes @ drop (length bytes) object)[nat decoded_length := 0]))
      | _ \<Rightarrow> fail FAILURE_INVALID_INPUT)"

definition sleep_microseconds :: "platform \<Rightarrow> u64 \<Rightarrow> ('s, unit) prog" where
  "sleep_microseconds pf microseconds =
     (let ts = \<lparr>tv_sec = sint (microseconds div 1000000),
        tv_nsec = sint ((microseconds mod 1000000) * 1000)\<rparr> in
      require (nanosleep pf ts = 0) FAILURE_SLEEP)"

lemma sint_length:
  "length str < 2 ^ 31 \<Longrightarrow> sint (ucast (of_nat (length str) :: u64) :: u32) = int (length str)"
  by (simp add: sint_uint unsigned_of_nat take_bit_eq_mod unsigned_ucast_eq signed_take_bit_int_eq_self)

text \<open>Decoding into an object that has a byte more than three for each four characters stays
  inside it, and leaves a string that ends inside it.\<close>

lemma wp_base64_decode:
  assumes "platform_ok pf" and "length str < 2 ^ 31" and "3 * (length str div 4) < length object"
  shows "wp (base64_decode pf (Some str) (of_nat (length str)) (Some object))
    (\<lambda>bytes t. t = s \<and> length bytes = length object \<and> 0 \<in> set bytes)
    (\<lambda>c t. t = s \<and> c = FAILURE_OPENSSL_FUNCTION) s"
proof -
  have "sint (ucast (of_nat (length str) :: u64) :: u32) = int (length str)"
    by (rule sint_length [OF assms(2)])
  moreover obtain bytes n where d: "EVP_DecodeBlock pf str (int (length str)) = (bytes, n)" by fastforce
  moreover have "length bytes \<le> 3 * (length str div 4)" "n \<le> int (length bytes)"
    using assms(1) d by (auto simp: platform_ok_def dest!: spec [of _ str] spec [of _ "int (length str)"])
  ultimately show ?thesis
    using assms(3) by (auto simp: base64_decode_def in_set_conv_nth intro!: exI [of _ "nat n"])
qed

lemma sint_small: "unat (x :: u64) < 2 ^ 63 \<Longrightarrow> sint x = int (unat x)"
proof -
  assume "unat x < 2 ^ 63"
  then have "int (unat x) < int (2 ^ 63)" by (simp only: of_nat_less_iff)
  then have "uint x < 2 ^ 63" by simp
  then show "sint x = int (unat x)" unfolding sint_uint
    by (intro signed_take_bit_int_eq_self [THEN trans]) (auto intro: order_trans [OF _ uint_ge_0])
qed

lemma sint_scaled:
  assumes "unat (x :: u64) < 1000000"
  shows "sint (x * 1000) = int (unat x * 1000)"
proof -
  have m: "unat (x * 1000) = unat x * 1000" using assms unat_mult_lem [of x 1000] by simp
  then have "unat (x * 1000) < 2 ^ 63" using assms by simp
  then show ?thesis by (metis m sint_small)
qed

lemma sint_seconds:
  fixes microseconds :: u64
  shows "sint (microseconds div 1000000) = int (unat microseconds div 1000000)"
    and "sint ((microseconds mod 1000000) * 1000) = int (unat microseconds mod 1000000 * 1000)"
proof -
  have d: "unat (microseconds div 1000000) = unat microseconds div 1000000"
    "unat (microseconds mod 1000000) = unat microseconds mod 1000000"
    by (simp_all add: unat_div unat_mod)
  moreover have "unat microseconds div 1000000 < 2 ^ 63"
    using unsigned_less [of microseconds, where 'a = nat] by simp
  ultimately show "sint (microseconds div 1000000) = int (unat microseconds div 1000000)"
    by (simp add: sint_small)
  show "sint ((microseconds mod 1000000) * 1000) = int (unat microseconds mod 1000000 * 1000)"
    using sint_scaled [of "microseconds mod 1000000"] by (simp add: d)
qed

section \<open>Processes\<close>

text \<open>\<open>pthreads\<close> are the results of the next calls that create mutexes, condition variables and
  threads, oldest first, 0 for success and beyond the end; \<open>memory\<close> is the state of the program.\<close>

record 'x process =
  pthreads :: "nat list"
  stdout :: string
  stderr :: string
  memory :: 'x

definition in_memory :: "('x, 'a) prog \<Rightarrow> ('x process, 'a) prog" where
  "in_memory m s = (case m (memory s) of (out, x) \<Rightarrow> (out, s\<lparr>memory := x\<rparr>))"

lemma wp_in_memory [simp]:
  "wp (in_memory m) Q E s \<longleftrightarrow>
     wp m (\<lambda>v x. Q v (s\<lparr>memory := x\<rparr>)) (\<lambda>e x. E e (s\<lparr>memory := x\<rparr>)) (memory s)"
  by (auto simp: wp_def in_memory_def split: prod.splits outcome.splits)

definition pthread_call :: "('x process, nat) prog" where
  "pthread_call s = (case pthreads s of
      [] \<Rightarrow> (Ok 0, s)
    | e # es \<Rightarrow> (Ok e, s\<lparr>pthreads := es\<rparr>))"

text \<open>\<open>if (0 != pthread_...) { return_code = FAILURE_PTHREAD_FUNCTION; goto end; }\<close>\<close>

definition pthread_checked :: "('x process, unit) prog" where
  "pthread_checked = seq pthread_call (\<lambda>result. require (result = 0) FAILURE_PTHREAD_FUNCTION)"

definition print_out :: "string \<Rightarrow> ('x process, unit) prog" where
  "print_out str = modify (\<lambda>s. s\<lparr>stdout := stdout s @ str\<rparr>)"

definition print_err :: "string \<Rightarrow> ('x process, unit) prog" where
  "print_err str = modify (\<lambda>s. s\<lparr>stderr := stderr s @ str\<rparr>)"

text \<open>A main function ends with \<open>return return_code\<close>; a status that is not one of the codes is the
  result of a pthread call that was stored in \<open>return_code\<close>.\<close>

definition exit_status :: "('s, nat) prog \<Rightarrow> ('s, nat) prog" where
  "exit_status m = seq (attempt m) (\<lambda>r. case r of Inl c \<Rightarrow> ret (enumerator c) | Inr status \<Rightarrow> ret status)"

lemma wp_exit_status [simp]: "wp (exit_status m) Q E s = wp m Q (\<lambda>c. Q (enumerator c)) s"
  by (auto simp: exit_status_def wp_def attempt_def seq_def ret_def split: prod.split outcome.split)

lemma wp_print_streams [simp]:
  "wp (print_out str) Q E s = Q () (s\<lparr>stdout := stdout s @ str\<rparr>)"
  "wp (print_err str) Q E s = Q () (s\<lparr>stderr := stderr s @ str\<rparr>)"
  by (simp_all add: print_out_def print_err_def)

lemma wp_pthread_callI:
  assumes "\<And>e es. set es \<subseteq> set (pthreads s) \<Longrightarrow> e = 0 \<or> e \<in> set (pthreads s) \<Longrightarrow> Q e (s\<lparr>pthreads := es\<rparr>)"
  shows "wp pthread_call Q E s"
proof (cases "pthreads s")
  case Nil
  then have "s\<lparr>pthreads := []\<rparr> = s" by (cases s) simp
  moreover have "Q 0 (s\<lparr>pthreads := []\<rparr>)" by (rule assms) auto
  ultimately have "Q 0 s" by metis
  then show ?thesis by (simp add: wp_def pthread_call_def Nil)
next
  case (Cons e es)
  then have "Q e (s\<lparr>pthreads := es\<rparr>)" by (intro assms) auto
  then show ?thesis by (simp add: wp_def pthread_call_def Cons)
qed

lemma wp_pthread_checked:
  assumes "\<And>es. set es \<subseteq> set (pthreads s) \<Longrightarrow> Q () (s\<lparr>pthreads := es\<rparr>)"
    and "\<And>es. \<not> set (pthreads s) \<subseteq> {0} \<Longrightarrow> E FAILURE_PTHREAD_FUNCTION (s\<lparr>pthreads := es\<rparr>)"
  shows "wp pthread_checked Q E s"
  unfolding pthread_checked_def wp_seq
  by (rule wp_pthread_callI) (auto intro!: assms)

lemma pthread_call_ok: "set (pthreads s) \<subseteq> {0} \<Longrightarrow>
    \<exists>es. pthread_call s = (Ok 0, s\<lparr>pthreads := es\<rparr>) \<and> set es \<subseteq> {0}"
  by (cases "pthreads s") (auto simp: pthread_call_def intro: exI [of _ "[]"])

lemma pthread_checked_ok:
  assumes "set (pthreads s) \<subseteq> {0}"
  shows "\<exists>es. pthread_checked s = (Ok (), s\<lparr>pthreads := es\<rparr>) \<and> set es \<subseteq> {0}"
  using pthread_call_ok [OF assms] by (auto simp: pthread_checked_def seq_Ok prog_basic)

section \<open>The command line\<close>

text \<open>The conversions of \<open>strtol(str, NULL, 10)\<close> to the types of the variables.\<close>

definition u16_argument :: "string \<Rightarrow> u16" where
  "u16_argument str = word_of_int (strtol str)"

definition u64_argument :: "string \<Rightarrow> u64" where
  "u64_argument str = word_of_int (strtol str)"

text \<open>An address in an argument structure that was initialised with \<open>{0}\<close>.\<close>

definition socket_address :: "platform \<Rightarrow> byte_order \<Rightarrow> u8 list \<Rightarrow> u16 \<Rightarrow> sockaddr_in6" where
  "socket_address pf bo addr port = \<lparr>sin6_family = AF_INET6 pf, sin6_port = htons bo port, sin6_flowinfo = 0,
     sin6_addr = addr, sin6_scope_id = 0\<rparr>"

definition address_argument ::
  "platform \<Rightarrow> byte_order \<Rightarrow> string \<Rightarrow> string \<Rightarrow> u16 \<Rightarrow> ('x process, sockaddr_in6) prog" where
  "address_argument pf bo which address port =
     (case inet_pton pf address of
        None \<Rightarrow> seq (print_err (''Invalid '' @ which @ '' IPv6 address: '' @ address @ [CHR 0x0A])) (\<lambda>_.
          fail FAILURE_INVALID_COMMAND_LINE_ARGS)
      | Some addr \<Rightarrow> ret (socket_address pf bo addr port))"

lemma wp_address_argument:
  assumes "platform_ok pf"
  shows "wp (address_argument pf bo which address port)
    (\<lambda>a t. t = s \<and> length (sin6_addr a) = IN6_ADDR_BYTES \<and> inet_pton pf address = Some (sin6_addr a) \<and>
       a = socket_address pf bo (sin6_addr a) port)
    (\<lambda>c t. c = FAILURE_INVALID_COMMAND_LINE_ARGS \<and> inet_pton pf address = None \<and> memory t = memory s) s"
  using assms
  by (auto simp: address_argument_def platform_ok_def socket_address_def split: option.split)

text \<open>What remains of an option that may be given several times: the last value.\<close>

definition option_value :: "char \<Rightarrow> (char \<times> string) list \<Rightarrow> string option" where
  "option_value c options = map_of (rev options) c"

lemma option_value_simps [simp]:
  "option_value c [] = None"
  "option_value c ((d, v) # options) =
     (case option_value c options of None \<Rightarrow> if c = d then Some v else None | Some w \<Rightarrow> Some w)"
  by (auto simp: option_value_def map_add_def split: option.split)

lemma u16_argument_decimal: "n < 2 ^ 16 \<Longrightarrow> u16_argument (decimal n) = of_nat n"
  using strtol_decimal(1) [of "[]" "[]" n] by (simp add: u16_argument_def no_digit_def LONG_MAX_def)

lemma u64_argument_decimal: "n < 2 ^ 63 \<Longrightarrow> u64_argument (decimal n) = of_nat n"
  using strtol_decimal(1) [of "[]" "[]" n] by (simp add: u64_argument_def no_digit_def LONG_MAX_def)

section \<open>The arguments of the discovery thread\<close>

text \<open>Both programs that start it fill them in the same way; a number of seconds whose microseconds
  do not fit is converted with undefined behaviour.\<close>

definition DEFAULT_COMMUNICATION_INTERVAL_SECONDS :: u64 where
  "DEFAULT_COMMUNICATION_INTERVAL_SECONDS = 20"

record discover_peers_args_t =
  peer_discovery_bootstrap_server_addr :: sockaddr_in6
  peer_addr :: sockaddr_in6
  communication_interval_microseconds :: u64

definition discovery_arguments ::
  "platform \<Rightarrow> byte_order \<Rightarrow> string \<times> u16 \<Rightarrow> string \<Rightarrow> string \<times> u16 \<Rightarrow> u64 \<Rightarrow>
    ('x process, discover_peers_args_t) prog" where
  "discovery_arguments pf bo server which peer interval_seconds =
     seq (address_argument pf bo ''server'' (fst server) (snd server)) (\<lambda>server_addr.
     seq (address_argument pf bo which (fst peer) (snd peer)) (\<lambda>addr.
     case scale_seconds interval_seconds of
       None \<Rightarrow> undef
     | Some microseconds \<Rightarrow> ret
         \<lparr>peer_discovery_bootstrap_server_addr = server_addr, peer_addr = addr,
          communication_interval_microseconds = microseconds\<rparr>))"

text \<open>An address has its 16 bytes, the family of the platform, and the port in the order of the
  wire.\<close>

definition address_ok :: "platform \<Rightarrow> byte_order \<Rightarrow> u16 \<Rightarrow> sockaddr_in6 \<Rightarrow> bool" where
  "address_ok pf bo port a \<longleftrightarrow> length (sin6_addr a) = IN6_ADDR_BYTES \<and> sin6_family a = AF_INET6 pf \<and>
     mem_of_word bo (sin6_port a) = be_bytes port"

lemma address_ok_socket_address [simp]:
  "address_ok pf bo port (socket_address pf bo addr port) \<longleftrightarrow> length addr = IN6_ADDR_BYTES"
  by (simp add: address_ok_def socket_address_def)

lemma wp_discovery_arguments:
  assumes "platform_ok pf" and "unat interval_seconds \<le> 18446744073709"
  shows "wp (discovery_arguments pf bo server which peer interval_seconds)
    (\<lambda>args t. t = s \<and> address_ok pf bo (snd server) (peer_discovery_bootstrap_server_addr args) \<and>
       address_ok pf bo (snd peer) (peer_addr args) \<and>
       inet_pton pf (fst server) = Some (sin6_addr (peer_discovery_bootstrap_server_addr args)) \<and>
       inet_pton pf (fst peer) = Some (sin6_addr (peer_addr args)) \<and>
       peer_addr args = socket_address pf bo (sin6_addr (peer_addr args)) (snd peer) \<and>
       scale_seconds interval_seconds = Some (communication_interval_microseconds args))
    (\<lambda>c t. c = FAILURE_INVALID_COMMAND_LINE_ARGS \<and> memory t = memory s \<and>
       (inet_pton pf (fst server) = None \<or> inet_pton pf (fst peer) = None)) s"
proof -
  obtain us where us: "scale_seconds interval_seconds = Some us"
    using assms(2) scale_seconds_None [of interval_seconds] by (cases "scale_seconds interval_seconds") auto
  have len: "length a = IN6_ADDR_BYTES" if "inet_pton pf str = Some a" for str a
    using assms(1) that by (auto simp: platform_ok_def)
  show ?thesis
    by (auto simp: discovery_arguments_def address_argument_def us len split: option.split)
      (simp_all add: socket_address_def)
qed

section \<open>A platform for the examples\<close>

text \<open>It knows one address, takes the options in pairs, and decodes to a fixed letter.\<close>

fun sample_getopt :: "string list \<Rightarrow> (char \<times> string) list" where
  "sample_getopt ([_, c] # v # argv) = (c, v) # sample_getopt argv"
| "sample_getopt _ = []"

definition sample_platform :: platform where
  "sample_platform = \<lparr>AF_INET6 = 10, getopt = (\<lambda>argv _. sample_getopt (tl argv)), getenv = (\<lambda>_. None),
     inet_pton = (\<lambda>str. if str = ''::1'' then Some (replicate 15 0 @ [1]) else None),
     EVP_DecodeBlock = (\<lambda>str n. if n mod 4 = 0 then (replicate (3 * (nat n div 4)) 65, 3 * (n div 4)) else ([], -1)),
     nanosleep = (\<lambda>_. 0)\<rparr>"

lemma sample_platform_ok: "platform_ok sample_platform"
  by (auto simp: platform_ok_def sample_platform_def IN6_ADDR_BYTES_def nat_div_distrib)

lemma seconds_and_rest:
  "int (n div 1000000) * 1000000000 + int (n mod 1000000 * 1000) = int n * 1000"
proof -
  have "q * 1000000000 + r * 1000 = x * 1000" if "q * 1000000 + r = x" for q r x :: nat
    using that by simp
  from this [OF div_mult_mod_eq] have "n div 1000000 * 1000000000 + n mod 1000000 * 1000 = n * 1000" .
  then have "int (n div 1000000 * 1000000000 + n mod 1000000 * 1000) = int (n * 1000)" by (rule arg_cong)
  then show ?thesis by (simp only: of_nat_add of_nat_mult of_nat_numeral)
qed

lemma require_eq: "require b c s = (if b then (Ok (), s) else (Fail c, s))"
  by (simp add: require_def prog_basic)

lemma sleep_splits:
  "\<exists>ts. sleep_microseconds pf m s = (if nanosleep pf ts = 0 then (Ok (), s) else (Fail FAILURE_SLEEP, s)) \<and>
     0 \<le> tv_sec ts \<and> 0 \<le> tv_nsec ts \<and> tv_nsec ts < 1000000000 \<and>
     tv_sec ts * 1000000000 + tv_nsec ts = int (unat m) * 1000"
proof -
  define q r where "q = unat m div 1000000" and "r = unat m mod 1000000 * 1000"
  have "unat m mod 1000000 < 1000000" by simp
  then have r: "r < 1000000000" unfolding r_def by linarith
  have sum: "int q * 1000000000 + int r = int (unat m) * 1000"
    unfolding q_def r_def by (rule seconds_and_rest)
  have "sleep_microseconds pf m s =
      (if nanosleep pf \<lparr>tv_sec = int q, tv_nsec = int r\<rparr> = 0 then (Ok (), s) else (Fail FAILURE_SLEEP, s))"
    unfolding sleep_microseconds_def Let_def sint_seconds q_def r_def by (rule require_eq)
  then show ?thesis using r sum by (intro exI [of _ "\<lparr>tv_sec = int q, tv_nsec = int r\<rparr>"]) simp
qed

section \<open>Properties\<close>

text \<open>Decoding is safe in an object with at least one byte more than three for each four
  characters, whatever the string: the result is a string that ends inside the object. An object of
  three bytes for each four characters, which is what the header asks for, is not enough: when all
  of it is decoded the terminating 0 is written after its end.\<close>

theorem base64_decode_bounds:
  assumes "platform_ok pf" and "length str < 2 ^ 31"
  shows "(3 * (length str div 4) < length object \<longrightarrow>
      wp (base64_decode pf (Some str) (of_nat (length str)) (Some object))
        (\<lambda>bytes t. t = s \<and> length bytes = length object \<and> 0 \<in> set bytes)
        (\<lambda>c t. t = s \<and> c = FAILURE_OPENSSL_FUNCTION) s) \<and>
    (4 * length object = 3 * length str \<and>
       EVP_DecodeBlock pf str (int (length str)) = (bytes, int (length bytes)) \<and> length bytes = length object \<longrightarrow>
      fst (base64_decode pf (Some str) (of_nat (length str)) (Some object) s) = Undefined)"
proof (intro conjI impI)
  show "wp (base64_decode pf (Some str) (of_nat (length str)) (Some object))
      (\<lambda>bytes t. t = s \<and> length bytes = length object \<and> 0 \<in> set bytes)
      (\<lambda>c t. t = s \<and> c = FAILURE_OPENSSL_FUNCTION) s" if "3 * (length str div 4) < length object"
    by (rule wp_base64_decode [OF assms that])
qed (auto simp: base64_decode_def sint_length [OF assms(2)] prog_basic)

theorem base64_decode_bounds_witness:
  "fst (base64_decode sample_platform (Some ''QUFB'') 4 (Some (replicate 3 0)) ()) = Undefined \<and>
   wp (base64_decode sample_platform (Some ''QUFB'') 4 (Some (replicate 4 0)))
     (\<lambda>bytes _. length bytes = 4 \<and> 0 \<in> set bytes) (\<lambda>c _. c = FAILURE_OPENSSL_FUNCTION) ()"
  using base64_decode_bounds [OF sample_platform_ok, of "''QUFB''" "replicate 3 0" "()" "replicate 3 65"]
    base64_decode_bounds [OF sample_platform_ok, of "''QUFB''" "replicate 4 0" "()" "[]"]
  by (auto simp: sample_platform_def elim: wp_mono)

text \<open>C30. The interval that a user gives as \<open>-i n\<close>: the conversion to microseconds is undefined exactly
  when they do not fit in 64 bits, as for any negative number; otherwise it is off by at most 1024
  microseconds, and it is exact below 2 to the power 53 microseconds, where the pause between two
  attempts of the discovery thread asks nanosleep for exactly \<open>n\<close> seconds. Every number of
  microseconds is split into seconds and less than a second.\<close>

theorem interval_is_slept:
  assumes "n < 2 ^ 63"
  shows "(scale_seconds (u64_argument (decimal n)) = None \<longleftrightarrow> 18446744073709 < n) \<and>
    (0 < n \<longrightarrow> scale_seconds (u64_argument (CHR ''-'' # decimal n)) = None) \<and>
    (\<forall>us. scale_seconds (u64_argument (decimal n)) = Some us \<longrightarrow>
       \<bar>int (unat us) - int n * 1000000\<bar> \<le> 1024 \<and>
       (n * 1000000 < 2 ^ 53 \<longrightarrow> sleep_microseconds pf us s =
          (if nanosleep pf \<lparr>tv_sec = int n, tv_nsec = 0\<rparr> = 0 then (Ok (), s) else (Fail FAILURE_SLEEP, s)))) \<and>
    (\<exists>ts. sleep_microseconds pf m s = (if nanosleep pf ts = 0 then (Ok (), s) else (Fail FAILURE_SLEEP, s)) \<and>
       0 \<le> tv_sec ts \<and> 0 \<le> tv_nsec ts \<and> tv_nsec ts < 1000000000 \<and>
       tv_sec ts * 1000000000 + tv_nsec ts = int (unat m) * 1000)"
proof (intro conjI allI impI)
  have arg: "u64_argument (decimal n) = of_nat n" by (rule u64_argument_decimal [OF assms])
  have n: "unat (of_nat n :: u64) = n" using assms by (simp add: unsigned_of_nat take_bit_eq_mod)
  show "scale_seconds (u64_argument (decimal n)) = None \<longleftrightarrow> 18446744073709 < n"
    by (simp add: arg scale_seconds_None n)
  show "scale_seconds (u64_argument (CHR ''-'' # decimal n)) = None" if "0 < n"
  proof -
    have "u64_argument (CHR ''-'' # decimal n) = - of_nat n"
      using strtol_decimal(2) [of "[]" "[]" n] assms by (simp add: u64_argument_def no_digit_def LONG_MIN_def)
    moreover have "- of_nat n = (of_nat (2 ^ 64 - n) :: u64)" using assms by (simp add: of_nat_diff)
    moreover have "unat (of_nat (2 ^ 64 - n) :: u64) = 2 ^ 64 - n"
      using that by (simp add: unsigned_of_nat take_bit_eq_mod)
    ultimately show ?thesis using assms by (simp add: scale_seconds_None)
  qed
  fix us assume us: "scale_seconds (u64_argument (decimal n)) = Some us"
  show "\<bar>int (unat us) - int n * 1000000\<bar> \<le> 1024"
    using scale_seconds_near [OF us] unfolding arg n by linarith
  show "sleep_microseconds pf us s =
      (if nanosleep pf \<lparr>tv_sec = int n, tv_nsec = 0\<rparr> = 0 then (Ok (), s) else (Fail FAILURE_SLEEP, s))"
    if small: "n * 1000000 < 2 ^ 53"
  proof -
    have "us = of_nat (n * 1000000)" using us small scale_seconds_exact [of "of_nat n"] by (simp add: arg n)
    moreover have "unat (of_nat k :: u64) = k" if "k < 2 ^ 53" for k
      using that by (simp add: unsigned_of_nat take_bit_eq_mod)
    ultimately have "unat us = n * 1000000" using small by blast
    then show ?thesis
      unfolding sleep_microseconds_def Let_def sint_seconds by (simp add: prog_basic)
  qed
next
  show "\<exists>ts. sleep_microseconds pf m s = (if nanosleep pf ts = 0 then (Ok (), s) else (Fail FAILURE_SLEEP, s)) \<and>
      0 \<le> tv_sec ts \<and> 0 \<le> tv_nsec ts \<and> tv_nsec ts < 1000000000 \<and>
      tv_sec ts * 1000000000 + tv_nsec ts = int (unat m) * 1000"
    by (rule sleep_splits)
qed

theorem interval_is_slept_witness:
  "\<exists>us. scale_seconds (u64_argument ''20'') = Some us \<and>
    sleep_microseconds sample_platform us () = (Ok (), ())"
proof -
  have "decimal 20 = ''20''" by code_simp
  then show ?thesis
    using interval_is_slept [of 20 sample_platform "()" 0]
    by (cases "scale_seconds (u64_argument ''20'')") (auto simp: sample_platform_def)
qed

end
