(* ===== verification/Printing.thy ===== *)
theory Printing
  imports Mining Process
begin

text \<open>
  The functions that print a hash (src/hash.c) and a chain (blockchain_print of src/blockchain.c).
\<close>

section \<open>Operations\<close>

fun print_digest :: "u8 list \<Rightarrow> ('x process, unit) prog" where
  "print_digest [] = ret ()"
| "print_digest (b # bs) = seq (print_out (hex_byte b)) (\<lambda>_. print_digest bs)"

definition hash_print :: "sha_256_t option \<Rightarrow> ('x process, unit) prog" where
  "hash_print hash =
     (case hash of
        None \<Rightarrow> ret ()
      | Some digest \<Rightarrow> seq (print_digest digest) (\<lambda>_. print_out [CHR 0x0A]))"

fun print_proofs :: "block_t list \<Rightarrow> ('x process, unit) prog" where
  "print_proofs [] = ret ()"
| "print_proofs (b # bs) =
     seq (print_out (decimal (unat (proof_of_work b)) @ ''->'')) (\<lambda>_. print_proofs bs)"

definition blockchain_print :: "blockchain_t option \<Rightarrow> ('x process, unit) prog" where
  "blockchain_print chain =
     (case chain of
        None \<Rightarrow> ret ()
      | Some c \<Rightarrow> seq (print_proofs (block_list c)) (\<lambda>_. print_out [CHR 0x0A]))"

section \<open>The text\<close>

lemma print_out_eq: "print_out str s = (Ok (), s\<lparr>stdout := stdout s @ str\<rparr>)"
  by (simp add: print_out_def modify_def)

lemma print_digest_eq: "print_digest bs s = (Ok (), s\<lparr>stdout := stdout s @ concat (map hex_byte bs)\<rparr>)"
  by (induction bs arbitrary: s) (simp_all add: ret_def seq_def print_out_eq)

lemma print_proofs_eq:
  "print_proofs bs s = (Ok (), s\<lparr>stdout := stdout s @
     concat (map (\<lambda>b. decimal (unat (proof_of_work b)) @ ''->'') bs)\<rparr>)"
  by (induction bs arbitrary: s) (simp_all add: ret_def seq_def print_out_eq)

lemma hash_print_eq:
  "hash_print (Some d) s = (Ok (), s\<lparr>stdout := stdout s @ concat (map hex_byte d) @ [CHR 0x0A]\<rparr>)"
  by (simp add: hash_print_def seq_def print_digest_eq print_out_eq)

lemma blockchain_print_eq:
  "blockchain_print (Some c) s = (Ok (), s\<lparr>stdout := stdout s @
     concat (map (\<lambda>b. decimal (unat (proof_of_work b)) @ ''->'') (block_list c)) @ [CHR 0x0A]\<rparr>)"
  by (simp add: blockchain_print_def seq_def print_proofs_eq print_out_eq)

lemma hex_digit_inject:
  fixes a b :: u8
  assumes "unat a < 16" and "unat b < 16" and "hex_digit a = hex_digit b"
  shows "a = b"
proof -
  define ds where "ds = ''0123456789abcdef''"
  have "distinct ds" "length ds = 16" by (simp_all add: ds_def)
  then have "unat a = unat b"
    using assms nth_eq_iff_index_eq [of ds "unat a" "unat b"] by (simp add: hex_digit_def ds_def [symmetric])
  then show ?thesis by (rule unsigned_word_eqI)
qed

lemma hex_byte_inject: "hex_byte a = hex_byte b \<longleftrightarrow> a = b"
proof
  assume eq: "hex_byte a = hex_byte b"
  have hi: "unat (drop_bit 4 x) < 16" for x :: u8
    using unsigned_less [of x, where 'a = nat] by (simp add: drop_bit_eq_div unat_div)
  have lo: "unat (and x 15) < 16" for x :: u8
    using and_mask_less' [of 4 x] by (simp add: mask_eq_exp_minus_1 word_less_nat_alt)
  have "drop_bit 4 a = drop_bit 4 b" "and a 15 = and b 15"
    using eq hi lo by (auto simp: hex_byte_def intro!: hex_digit_inject)
  moreover have "x = or (push_bit 4 (drop_bit 4 x)) (and x 15)" for x :: u8
  proof (rule bit_word_eqI)
    fix n assume n: "n < LENGTH(8)"
    have "bit (15 :: u8) n \<longleftrightarrow> bit (mask 4 :: u8) n" by (simp add: mask_eq_exp_minus_1)
    also have "\<dots> \<longleftrightarrow> n < 4" unfolding bit_mask_iff using n by auto
    finally show "bit x n = bit (or (push_bit 4 (drop_bit 4 x)) (and x 15)) n"
      using n by (auto simp: bit_simps)
  qed
  ultimately show "a = b" by metis
qed simp

lemma proofs_text_inject:
  fixes bs cs :: "block_t list"
  shows "concat (map (\<lambda>b. decimal (unat (proof_of_work b)) @ ''->'') bs) @ [CHR 0x0A] =
   concat (map (\<lambda>b. decimal (unat (proof_of_work b)) @ ''->'') cs) @ [CHR 0x0A] \<longleftrightarrow>
   map proof_of_work bs = map proof_of_work cs"
  (is "?l bs = ?l cs \<longleftrightarrow> _")
proof (induction bs arbitrary: cs)
  case Nil
  then show ?case by (cases cs) (auto simp: Cons_eq_append_conv)
next
  case (Cons b bs)
  have value_of: "digits_value 0 (decimal n @ ''->'' @ xs) = n" for n xs
    by (simp add: digits_value_decimal no_digit_def digit_value_def)
  show ?case
  proof (cases cs)
    case Nil
    then show ?thesis by (auto simp: append_eq_Cons_conv)
  next
    case (Cons c ds)
    let ?m = "unat (proof_of_work b)" and ?n = "unat (proof_of_work c)"
    have "?m = ?n" if "decimal ?m @ ''->'' @ ?l bs = decimal ?n @ ''->'' @ ?l ds"
      using value_of [of ?m "?l bs"] value_of [of ?n "?l ds"] unfolding that by simp
    then have "decimal ?m @ ''->'' @ ?l bs = decimal ?n @ ''->'' @ ?l ds \<longleftrightarrow> ?m = ?n \<and> ?l bs = ?l ds"
      by auto
    then have "?l (b # bs) = ?l cs \<longleftrightarrow> ?m = ?n \<and> ?l bs = ?l ds" by (simp add: Cons)
    then show ?thesis using Cons.IH by (simp add: Cons word_unat_eq_iff)
  qed
qed

text \<open>Two digests print the same only if they are the same, two chains only if their blocks have the
  same proofs of work.\<close>

lemma printed_hash_inject:
  "stdout (snd (hash_print (Some d) s)) = stdout (snd (hash_print (Some e) s)) \<longleftrightarrow> d = e"
proof -
  have "concat (map hex_byte d) = concat (map hex_byte e) \<longleftrightarrow> d = e"
  proof (induction d arbitrary: e)
    case Nil
    then show ?case by (cases e) (auto simp: hex_byte_def)
  next
    case (Cons x d)
    show ?case
    proof (cases e)
      case (Cons y e')
      have "hex_byte x @ a = hex_byte y @ b \<longleftrightarrow> hex_byte x = hex_byte y \<and> a = b" for a b
        by (simp add: hex_byte_def)
      then show ?thesis using Cons.IH [of e'] hex_byte_inject [of x y] by (simp add: Cons)
    qed (simp add: hex_byte_def)
  qed
  then show ?thesis by (simp add: hash_print_eq)
qed

lemma printed_chain_inject:
  "stdout (snd (blockchain_print (Some c) s)) = stdout (snd (blockchain_print (Some d) s)) \<longleftrightarrow>
    map proof_of_work (block_list c) = map proof_of_work (block_list d)"
  using proofs_text_inject [of "block_list c" "block_list d"] by (simp add: blockchain_print_eq)

end
