(* ===== verification/Miner_Program.thy ===== *)
theory Miner_Program
  imports Mining_Thread Printing
begin

text \<open>
  src/miner.c: the command line, the keys, the objects the threads share, and the start and the
  end of the mining thread, which is the main thread of the program.
\<close>

section \<open>The command line\<close>

definition NUM_LEADING_ZERO_BYTES_IN_BLOCK_HASH :: u64 where
  "NUM_LEADING_ZERO_BYTES_IN_BLOCK_HASH = 3"

definition PRIVATE_KEY_ENVIRONMENT_VARIABLE :: string where
  "PRIVATE_KEY_ENVIRONMENT_VARIABLE = ''LEOCOIN_PRIVATE_KEY''"

definition PUBLIC_KEY_ENVIRONMENT_VARIABLE :: string where
  "PUBLIC_KEY_ENVIRONMENT_VARIABLE = ''LEOCOIN_PUBLIC_KEY''"

definition print_usage_statement :: "string list \<Rightarrow> ('x process, unit) prog" where
  "print_usage_statement argv =
     (case argv of
        [] \<Rightarrow> ret ()
      | program_name # _ \<Rightarrow>
          seq (print_err (''Usage: '' @ program_name @
            '' [bind_ipv6_address] [bind_port] [peer_discovery_bootstrap_server_ipv6_address] '' @
            ''[peer_discovery_bootstrap_server_port] -i [communication_interval_seconds] '' @
            ''-n [num_leading_zeros] -p [private_key_file_base64_encoded_contents] '' @
            ''-k [public_key_file_base64_encoded_contents]'' @ [CHR 0x0A])) (\<lambda>_.
          print_err (''Or supply keys as environment variables '' @ PRIVATE_KEY_ENVIRONMENT_VARIABLE @
            '' and '' @ PUBLIC_KEY_ENVIRONMENT_VARIABLE @ [CHR 0x0A])))"

record miner_options =
  interval_seconds :: u64
  num_leading_zeros :: u64
  private_key_base64 :: "string option"
  public_key_base64 :: "string option"

fun read_options ::
  "string list \<Rightarrow> (char \<times> string) list \<Rightarrow> miner_options \<Rightarrow> ('x process, miner_options) prog" where
  "read_options argv [] opts = ret opts"
| "read_options argv ((opt, optarg) # options) opts =
     (if opt = CHR ''i'' then
        read_options argv options (opts\<lparr>interval_seconds := u64_argument optarg\<rparr>)
      else if opt = CHR ''p'' then
        seq (print_out (''Using private key from argv'' @ [CHR 0x0A])) (\<lambda>_.
        read_options argv options (opts\<lparr>private_key_base64 := Some optarg\<rparr>))
      else if opt = CHR ''k'' then
        seq (print_out (''Using public key from argv'' @ [CHR 0x0A])) (\<lambda>_.
        read_options argv options (opts\<lparr>public_key_base64 := Some optarg\<rparr>))
      else if opt = CHR ''n'' then
        read_options argv options (opts\<lparr>num_leading_zeros := u64_argument optarg\<rparr>)
      else
        seq (print_usage_statement argv) (\<lambda>_. fail FAILURE_INVALID_COMMAND_LINE_ARGS))"

definition key_or_environment ::
  "platform \<Rightarrow> string \<Rightarrow> string \<Rightarrow> string option \<Rightarrow> ('x process, string option) prog" where
  "key_or_environment pf which variable key =
     (case key of
        Some k \<Rightarrow> ret (Some k)
      | None \<Rightarrow>
          seq (print_out (''No '' @ which @ '' key found in argv, searching env for '' @ variable @ [CHR 0x0A]))
            (\<lambda>_. ret (getenv pf variable)))"

text \<open>\<open>(size_t)ceil(strlen(key) * 3 / 4) + 1\<close>: the division is one of integers, so the double that
  is rounded up is whole.\<close>

definition key_decoded_length :: "string \<Rightarrow> u64" where
  "key_decoded_length key = of_nat (double_of_nat (unat (of_nat (length key) * 3 div 4 :: u64))) + 1"

definition decode_key :: "platform \<Rightarrow> string \<Rightarrow> string \<Rightarrow> ('x process, ssh_key_t) prog" where
  "decode_key pf which key =
     (if of_nat MAX_SSH_KEY_LENGTH < key_decoded_length key then
        seq (print_out (which @ '' key is too long'' @ [CHR 0x0A])) (\<lambda>_.
        fail FAILURE_INVALID_COMMAND_LINE_ARGS)
      else base64_decode pf (Some key) (of_nat (length key)) (Some (replicate MAX_SSH_KEY_LENGTH 0)))"

text \<open>What \<open>%s\<close> prints: the bytes before the first 0.\<close>

definition c_string :: "u8 list \<Rightarrow> string" where
  "c_string bytes = map (\<lambda>b. char_of (unat b)) (takeWhile (\<lambda>b. b \<noteq> 0) bytes)"

section \<open>The start\<close>

text \<open>What the three threads of the node are started with.\<close>

record node_setup =
  discover_peers_args :: discover_peers_args_t
  mine_blocks_args :: mine_blocks_args_t
  consensus_peer_server_addr :: sockaddr_in6
  mining_start :: miner

text \<open>\<open>return_code = pthread_...; if (SUCCESS != return_code) goto end;\<close> the number of the error
  becomes the status of the program.\<close>

definition pthread_or_exit :: "('x process, nat + 'a) prog \<Rightarrow> ('x process, nat + 'a) prog" where
  "pthread_or_exit k = seq pthread_call (\<lambda>result. if result \<noteq> 0 then ret (Inl result) else k)"

text \<open>The condition variables and mutexes of the mining thread and of the server thread, and the two
  threads.\<close>

definition start_pthreads :: "node_setup \<Rightarrow> ('x process, nat + node_setup) prog" where
  "start_pthreads st =
     pthread_or_exit (pthread_or_exit (pthread_or_exit (pthread_or_exit (
     seq pthread_checked (\<lambda>_.
     seq pthread_checked (\<lambda>_.
     pthread_or_exit (pthread_or_exit (ret (Inr st)))))))))"

text \<open>The chain and the arguments of the threads, for the keys that were decoded.\<close>

definition start_mining ::
  "platform \<Rightarrow> byte_order \<Rightarrow> u64 \<Rightarrow> string list \<Rightarrow> u64 \<Rightarrow> discover_peers_args_t \<Rightarrow> ssh_key_t \<Rightarrow> ssh_key_t \<Rightarrow>
    (env process, nat + node_setup) prog" where
  "start_mining pf bo now argv n discover public_key private_key =
     seq (in_memory (first_chain n now)) (\<lambda>chain.
     seq (blockchain_print (Some chain)) (\<lambda>_.
     seq (in_memory (share_chain chain)) (\<lambda>start.
     start_pthreads
       \<lparr>discover_peers_args = discover,
        mine_blocks_args = mine_blocks_args_t.make public_key private_key True (Some ''blockchain.bin''),
        consensus_peer_server_addr = socket_address pf bo (sin6_addr (peer_addr discover))
          (u16_argument (argv ! 2)),
        mining_start = start\<rparr>)))"

definition start_with_keys ::
  "platform \<Rightarrow> byte_order \<Rightarrow> u64 \<Rightarrow> string list \<Rightarrow> u64 \<Rightarrow> string \<Rightarrow> string \<Rightarrow> discover_peers_args_t \<Rightarrow>
    (env process, nat + node_setup) prog" where
  "start_with_keys pf bo now argv n private_key public_key discover =
     seq (decode_key pf ''Public'' public_key) (\<lambda>miner_public_key.
     seq (decode_key pf ''Private'' private_key) (\<lambda>miner_private_key.
     seq (print_out (''Using public key: '' @ c_string miner_public_key @ [CHR 0x0A])) (\<lambda>_.
     start_mining pf bo now argv n discover miner_public_key miner_private_key)))"

text \<open>The list of peers and its mutex, which is allocated without a check.\<close>

definition create_peer_list :: "(env process, unit) prog" where
  "create_peer_list =
     seq (in_memory malloc) (\<lambda>ok.
     if \<not> ok then fail FAILURE_INVALID_INPUT
     else
       seq (in_memory (ll_create :: (env, peer_info_t list) prog)) (\<lambda>_.
       seq (in_memory malloc) (\<lambda>ok. if \<not> ok then undef else ret ())))"

definition start_threads ::
  "platform \<Rightarrow> byte_order \<Rightarrow> u64 \<Rightarrow> string list \<Rightarrow> miner_options \<Rightarrow> string \<Rightarrow> string \<Rightarrow>
    (env process, nat + node_setup) prog" where
  "start_threads pf bo now argv opts private_key public_key =
     seq (discovery_arguments pf bo (argv ! 3, u16_argument (argv ! 4)) ''bind''
       (argv ! 1, u16_argument (argv ! 2)) (interval_seconds opts)) (\<lambda>discover.
     seq create_peer_list (\<lambda>_.
     seq pthread_checked (\<lambda>_.
     seq pthread_checked (\<lambda>_.
     seq pthread_checked (\<lambda>_.
     start_with_keys pf bo now argv (num_leading_zeros opts) private_key public_key discover)))))"

definition miner_setup ::
  "platform \<Rightarrow> byte_order \<Rightarrow> u64 \<Rightarrow> string list \<Rightarrow> (env process, nat + node_setup) prog" where
  "miner_setup pf bo now argv =
     (if length argv < 4 + 1 then
        seq (print_usage_statement argv) (\<lambda>_. fail FAILURE_INVALID_COMMAND_LINE_ARGS)
      else
        seq (read_options argv (getopt pf (drop 4 argv) ''i:p:k:n:'')
          \<lparr>interval_seconds = DEFAULT_COMMUNICATION_INTERVAL_SECONDS,
           num_leading_zeros = NUM_LEADING_ZERO_BYTES_IN_BLOCK_HASH,
           private_key_base64 = None, public_key_base64 = None\<rparr>) (\<lambda>opts.
        seq (key_or_environment pf ''private'' PRIVATE_KEY_ENVIRONMENT_VARIABLE (private_key_base64 opts))
          (\<lambda>private_key.
        seq (key_or_environment pf ''public'' PUBLIC_KEY_ENVIRONMENT_VARIABLE (public_key_base64 opts))
          (\<lambda>public_key.
        case (private_key, public_key) of
          (Some private_key, Some public_key) \<Rightarrow>
            start_threads pf bo now argv opts private_key public_key
        | _ \<Rightarrow>
            seq (print_usage_statement argv) (\<lambda>_. fail FAILURE_INVALID_COMMAND_LINE_ARGS)))))"

section \<open>The end\<close>

text \<open>What main frees, one after the other, when mine_blocks has returned, although the server thread, the
  discovery thread and perhaps a broadcast thread go on: \<open>sync\<close> with its mutex and the chain, the
  pointer to the list of peers, and the mutex of that list.\<close>

datatype shared_object = Sync | Peer_Info_List | Peer_Info_List_Mutex

text \<open>How the threads end: the state of mine_blocks; the thread that holds the mutex of \<open>sync\<close> at that
  moment, if there is one; and what the other threads access after each of the three objects has
  been freed and before the next is, or before the process exits.\<close>

record threads_end =
  miner_end :: miner
  mutex_holder :: critical
  after_sync :: "shared_object list"
  after_list :: "shared_object list"
  after_mutex :: "shared_object list"

definition other_threads :: "shared_object list \<Rightarrow> shared_object list \<Rightarrow> ('s, unit) prog" where
  "other_threads accesses freed_objects =
     (if set accesses \<inter> set freed_objects = {} then ret () else undef)"

text \<open>A mutex that is locked is destroyed with its chain: that is undefined.\<close>

definition stop_miner :: "threads_end \<Rightarrow> ('s, nat) prog" where
  "stop_miner e =
     (case pc (miner_end e) of
        Returned return_code \<Rightarrow>
          seq (if mutex_holder e \<noteq> None then undef
               else
                 (case fst (synchronized_blockchain_destroy True (ledger_of (miner_end e))) of
                    Undefined \<Rightarrow> undef
                  | Diverges \<Rightarrow> diverge
                  | _ \<Rightarrow> ret ())) (\<lambda>_.
          seq (other_threads (after_sync e) [Sync]) (\<lambda>_.
          seq (other_threads (after_list e) [Sync, Peer_Info_List]) (\<lambda>_.
          seq (other_threads (after_mutex e) [Sync, Peer_Info_List, Peer_Info_List_Mutex]) (\<lambda>_.
          ret (enumerator return_code)))))
      | _ \<Rightarrow> undef)"

text \<open>\<open>threads\<close> is what the threads do: how they end, if mine_blocks ends.\<close>

definition miner_main ::
  "platform \<Rightarrow> byte_order \<Rightarrow> u64 \<Rightarrow> (node_setup \<Rightarrow> threads_end option) \<Rightarrow> string list \<Rightarrow>
    (env process, nat) prog" where
  "miner_main pf bo now threads argv =
     exit_status
       (seq (miner_setup pf bo now argv) (\<lambda>r.
        case r of
          Inl status \<Rightarrow> ret status
        | Inr st \<Rightarrow> (case threads st of None \<Rightarrow> diverge | Some e \<Rightarrow> stop_miner e)))"

section \<open>The options\<close>

abbreviation known_options :: "(char \<times> string) list \<Rightarrow> bool" where
  "known_options options \<equiv> fst ` set options \<subseteq> {CHR ''i'', CHR ''p'', CHR ''k'', CHR ''n''}"

text \<open>The value of a numeric option, or its default.\<close>

definition number_option :: "char \<Rightarrow> (char \<times> string) list \<Rightarrow> u64 \<Rightarrow> u64" where
  "number_option c options i = (case option_value c options of None \<Rightarrow> i | Some v \<Rightarrow> u64_argument v)"

definition text_option :: "char \<Rightarrow> (char \<times> string) list \<Rightarrow> string option \<Rightarrow> string option" where
  "text_option c options k = (case option_value c options of None \<Rightarrow> k | Some v \<Rightarrow> Some v)"

lemma number_option_simps [simp]:
  "number_option c [] i = i"
  "number_option c ((d, v) # options) i = number_option c options (if c = d then u64_argument v else i)"
  by (auto simp: number_option_def split: option.split)

lemma text_option_simps [simp]:
  "text_option c [] k = k"
  "text_option c ((d, v) # options) k = text_option c options (if c = d then Some v else k)"
  by (auto simp: text_option_def split: option.split)

lemma text_option_in: "text_option c options k = Some v \<Longrightarrow> k = Some v \<or> (c, v) \<in> set options"
  by (auto simp: text_option_def option_value_def split: option.splits dest: map_of_SomeD)

lemma number_option_in: "number_option c options i = i \<or> (\<exists>v. (c, v) \<in> set options \<and> number_option c options i = u64_argument v)"
  by (fastforce simp: number_option_def option_value_def split: option.splits dest: map_of_SomeD)

lemma wp_print_usage:
  "wp (print_usage_statement argv) (\<lambda>_ t. memory t = memory s \<and> pthreads t = pthreads s) (\<lambda>_ _. False) s"
  by (simp add: print_usage_statement_def split: list.split)

lemma wp_read_options:
  "wp (read_options argv options opts)
    (\<lambda>o' t. memory t = memory s \<and> pthreads t = pthreads s \<and> known_options options \<and>
       o' = \<lparr>interval_seconds = number_option CHR ''i'' options (interval_seconds opts),
         num_leading_zeros = number_option CHR ''n'' options (num_leading_zeros opts),
         private_key_base64 = text_option CHR ''p'' options (private_key_base64 opts),
         public_key_base64 = text_option CHR ''k'' options (public_key_base64 opts)\<rparr>)
    (\<lambda>c t. c = FAILURE_INVALID_COMMAND_LINE_ARGS \<and> memory t = memory s \<and> \<not> known_options options) s"
proof (induction options arbitrary: opts s)
  case Nil
  then show ?case by simp
next
  case (Cons o1 options)
  obtain c v where o1: "o1 = (c, v)" by (cases o1)
  show ?case
    by (auto simp: o1 intro!: wp_mono [OF Cons.IH] wp_mono [OF wp_print_usage])
qed

section \<open>The keys\<close>

lemma key_fits:
  assumes "length key < 2 ^ 60" and "key_decoded_length key \<le> of_nat MAX_SSH_KEY_LENGTH"
  shows "3 * (length key div 4) < MAX_SSH_KEY_LENGTH" and "length key < 2 ^ 31"
proof -
  let ?n = "length key * 3 div 4"
  have n: "unat (of_nat (length key) * 3 div 4 :: u64) = ?n"
    using assms(1) by (simp add: unat_div unat_word_ariths unsigned_of_nat take_bit_eq_mod)
  have d: "2 * double_of_nat ?n \<le> 2 * ?n + 2 ^ (60 - 53)"
    using assms(1) by (intro double_near) auto
  then have "unat (of_nat (double_of_nat ?n) + 1 :: u64) = double_of_nat ?n + 1"
    using assms(1) by (simp add: unat_word_ariths unsigned_of_nat take_bit_eq_mod)
  then have "double_of_nat ?n + 1 \<le> 4096"
    using assms(2) by (simp add: key_decoded_length_def n word_le_nat_alt MAX_SSH_KEY_LENGTH_def)
  moreover have "?n < 2 ^ 53"
    using double_half [of ?n] calculation by simp
  ultimately have "?n + 1 \<le> 4096" by simp
  then show "3 * (length key div 4) < MAX_SSH_KEY_LENGTH" "length key < 2 ^ 31"
    by (auto simp: MAX_SSH_KEY_LENGTH_def)
qed

text \<open>The array of a key that was decoded has its size and contains a 0.\<close>

definition key_string :: "ssh_key_t \<Rightarrow> bool" where
  "key_string k \<longleftrightarrow> wf_key k \<and> 0 \<in> set k"

lemma wp_decode_key:
  assumes "platform_ok pf" and "length key < 2 ^ 60"
  shows "wp (decode_key pf which key)
    (\<lambda>k t. key_string k \<and> memory t = memory s \<and> pthreads t = pthreads s)
    (\<lambda>c t. c = FAILURE_INVALID_COMMAND_LINE_ARGS \<or> c = FAILURE_OPENSSL_FUNCTION) s"
proof (cases "of_nat MAX_SSH_KEY_LENGTH < key_decoded_length key")
  case True
  then show ?thesis by (simp add: decode_key_def)
next
  case False
  then have fits: "3 * (length key div 4) < MAX_SSH_KEY_LENGTH" "length key < 2 ^ 31"
    using key_fits [OF assms(2)] by auto
  then have "wp (base64_decode pf (Some key) (of_nat (length key)) (Some (replicate MAX_SSH_KEY_LENGTH 0)))
    (\<lambda>k t. t = s \<and> length k = length (replicate MAX_SSH_KEY_LENGTH (0 :: u8)) \<and> 0 \<in> set k)
    (\<lambda>c t. t = s \<and> c = FAILURE_OPENSSL_FUNCTION) s"
    by (intro wp_base64_decode [OF assms(1)]) simp_all
  then show ?thesis
    using False by (auto simp: decode_key_def key_string_def wf_key_def elim!: wp_mono)
qed

section \<open>The threads\<close>

text \<open>The addresses are those of the command line, the keys are strings in their arrays.\<close>

definition setup_ok :: "platform \<Rightarrow> byte_order \<Rightarrow> string list \<Rightarrow> node_setup \<Rightarrow> bool" where
  "setup_ok pf bo argv st \<longleftrightarrow>
     address_ok pf bo (u16_argument (argv ! 2)) (peer_addr (discover_peers_args st)) \<and>
     inet_pton pf (argv ! 1) = Some (sin6_addr (peer_addr (discover_peers_args st))) \<and>
     address_ok pf bo (u16_argument (argv ! 4)) (peer_discovery_bootstrap_server_addr (discover_peers_args st)) \<and>
     inet_pton pf (argv ! 3) =
       Some (sin6_addr (peer_discovery_bootstrap_server_addr (discover_peers_args st))) \<and>
     consensus_peer_server_addr st = peer_addr (discover_peers_args st) \<and>
     key_string (miner_public_key (mine_blocks_args st)) \<and>
     key_string (miner_private_key (mine_blocks_args st))"

lemma wp_pthread_or_exit:
  assumes "\<And>e es. e \<noteq> 0 \<Longrightarrow> Q (Inl e) (s\<lparr>pthreads := es\<rparr>)" and "\<And>es. wp k Q E (s\<lparr>pthreads := es\<rparr>)"
  shows "wp (pthread_or_exit k) Q E s"
  unfolding pthread_or_exit_def wp_seq by (rule wp_pthread_callI) (use assms in auto)

lemma wp_blockchain_print:
  "wp (blockchain_print (Some c)) (\<lambda>_ t. memory t = memory s \<and> pthreads t = pthreads s) (\<lambda>_ _. False) s"
  by (simp add: wp_def blockchain_print_eq)

text \<open>The codes with which the start can fail, and what it yields otherwise: the number of a pthread
  error, or the arguments of the threads.\<close>

abbreviation start_error :: "return_code_t \<Rightarrow> bool" where
  "start_error c \<equiv> c = FAILURE_INVALID_COMMAND_LINE_ARGS \<or> c = FAILURE_OPENSSL_FUNCTION \<or>
     c = FAILURE_PTHREAD_FUNCTION"

fun start_result :: "'k openssl \<Rightarrow> platform \<Rightarrow> byte_order \<Rightarrow> string list \<Rightarrow> u64 \<Rightarrow> nat + node_setup \<Rightarrow> bool" where
  "start_result ssl pf bo argv n (Inl status) \<longleftrightarrow> status \<noteq> 0"
| "start_result ssl pf bo argv n (Inr st) \<longleftrightarrow> setup_ok pf bo argv st \<and> pc (mining_start st) = Start \<and>
     miner_ok ssl bo n (mining_start st) \<and> no_oom (ledger_of (mining_start st))"

text \<open>For these keys and arguments the result is as it should be, whatever miner is started.\<close>

abbreviation arguments_ok ::
  "'k openssl \<Rightarrow> platform \<Rightarrow> byte_order \<Rightarrow> string list \<Rightarrow> u64 \<Rightarrow> discover_peers_args_t \<Rightarrow> ssh_key_t \<Rightarrow> ssh_key_t \<Rightarrow>
    bool" where
  "arguments_ok ssl pf bo argv n discover public_key private_key \<equiv>
     \<forall>w. pc w = Start \<and> miner_ok ssl bo n w \<and> no_oom (ledger_of w) \<longrightarrow>
       start_result ssl pf bo argv n (Inr
         \<lparr>discover_peers_args = discover,
          mine_blocks_args = mine_blocks_args_t.make public_key private_key True (Some ''blockchain.bin''),
          consensus_peer_server_addr = socket_address pf bo (sin6_addr (peer_addr discover))
            (u16_argument (argv ! 2)),
          mining_start = w\<rparr>)"

lemma wp_start_pthreads:
  "start_result ssl pf bo argv n (Inr st) \<Longrightarrow>
    wp (start_pthreads st) (\<lambda>r _. start_result ssl pf bo argv n r) (\<lambda>c _. start_error c) s"
  by (auto simp: start_pthreads_def intro!: wp_pthread_or_exit wp_pthread_checked
      simp del: start_result.simps(2))

lemma wp_start_mining:
  assumes "no_oom (memory s)" and "arguments_ok ssl pf bo argv n discover public_key private_key"
  shows "wp (start_mining pf bo now argv n discover public_key private_key)
    (\<lambda>r _. start_result ssl pf bo argv n r) (\<lambda>c _. start_error c) s"
  unfolding start_mining_def
proof (rule wp_seqI, unfold wp_in_memory, rule wp_mono [OF wp_first_chain [OF assms(1)]], goal_cases)
  case (1 c m)
  show ?case
  proof (rule wp_seqI, rule wp_mono [OF wp_blockchain_print], goal_cases)
    case (1 _ v)
    show ?case
      by (rule wp_seqI, unfold wp_in_memory, rule wp_mono [OF wp_share_chain [where ssl = ssl and bo = bo and n = n]])
        (use 1 assms(2) \<open>c = _ \<and> _\<close> in \<open>auto simp: acceptable_genesis_chain intro: wp_start_pthreads\<close>)
  qed simp
qed simp

lemma wp_start_with_keys:
  assumes "platform_ok pf" and "no_oom (memory s)" and "length private_key < 2 ^ 60"
    and "length public_key < 2 ^ 60"
    and "\<And>k1 k2. key_string k1 \<Longrightarrow> key_string k2 \<Longrightarrow> arguments_ok ssl pf bo argv n discover k1 k2"
  shows "wp (start_with_keys pf bo now argv n private_key public_key discover)
    (\<lambda>r _. start_result ssl pf bo argv n r) (\<lambda>c _. start_error c) s"
  unfolding start_with_keys_def
proof (rule wp_seqI, rule wp_mono [OF wp_decode_key [OF assms(1,4)]], goal_cases)
  case (1 k1 v)
  show ?case
  proof (rule wp_seqI, rule wp_mono [OF wp_decode_key [OF assms(1,3)]], goal_cases)
    case (1 k2 w)
    then show ?case
      using assms(2,5) \<open>key_string k1 \<and> _\<close> by (simp add: wp_start_mining)
  qed blast
qed blast

lemma wp_create_peer_list:
  assumes "no_oom (memory s)"
  shows "wp create_peer_list (\<lambda>_ t. no_oom (memory t)) (\<lambda>_ _. False) s"
  using assms
  by (auto simp: create_peer_list_def intro!: wp_mallocI wp_ll_createI) (meson alloc_step_no_oom)+

lemma wp_start_threads:
  assumes "platform_ok pf" and "no_oom (memory s)" and "unat (interval_seconds opts) \<le> 18446744073709"
    and "length private_key < 2 ^ 60" and "length public_key < 2 ^ 60"
  shows "wp (start_threads pf bo now argv opts private_key public_key)
    (\<lambda>r _. start_result ssl pf bo argv (num_leading_zeros opts) r) (\<lambda>c _. start_error c) s"
  unfolding start_threads_def
proof (rule wp_seqI, rule wp_mono [OF wp_discovery_arguments [OF assms(1,3)]], goal_cases)
  case (1 discover t)
  then have ok: "arguments_ok ssl pf bo argv (num_leading_zeros opts) discover k1 k2"
    if "key_string k1" "key_string k2" for k1 k2
    using that by (auto simp: setup_ok_def mine_blocks_args_t.make_def)
  have "no_oom (memory t)" using 1 assms(2) by simp
  from wp_create_peer_list [OF this] show ?case
    by (rule wp_seqI [OF wp_mono])
      (intro wp_seqI wp_pthread_checked wp_start_with_keys [OF assms(1) _ assms(4,5) ok], simp_all)
qed blast

section \<open>The program\<close>

text \<open>The options that getopt finds. No string is longer than memory allows, and the interval is one
  whose microseconds fit.\<close>

abbreviation options_of :: "platform \<Rightarrow> string list \<Rightarrow> (char \<times> string) list" where
  "options_of pf argv \<equiv> getopt pf (drop 4 argv) ''i:p:k:n:''"

definition difficulty :: "platform \<Rightarrow> string list \<Rightarrow> u64" where
  "difficulty pf argv =
     number_option CHR ''n'' (options_of pf argv) NUM_LEADING_ZERO_BYTES_IN_BLOCK_HASH"

definition command_line_sane :: "platform \<Rightarrow> string list \<Rightarrow> bool" where
  "command_line_sane pf argv \<longleftrightarrow> (\<forall>(c, v) \<in> set (options_of pf argv). length v < 2 ^ 60 \<and>
       (c = CHR ''i'' \<longrightarrow> unat (u64_argument v) \<le> 18446744073709)) \<and>
     (\<forall>variable v. getenv pf variable = Some v \<longrightarrow> length v < 2 ^ 60)"

lemma wp_key_or_environment:
  "wp (key_or_environment pf which variable key)
    (\<lambda>k t. memory t = memory s \<and> pthreads t = pthreads s \<and>
       k = (case key of None \<Rightarrow> getenv pf variable | Some v \<Rightarrow> Some v)) (\<lambda>_ _. False) s"
  by (simp add: key_or_environment_def split: option.split)

lemma wp_miner_setup:
  assumes "platform_ok pf" and "no_oom (memory s)" and "command_line_sane pf argv"
  shows "wp (miner_setup pf bo now argv)
    (\<lambda>r _. start_result ssl pf bo argv (difficulty pf argv) r) (\<lambda>c _. start_error c) s"
proof (cases "length argv < 4 + 1")
  case True
  then show ?thesis
    by (auto simp: miner_setup_def intro!: wp_mono [OF wp_print_usage])
next
  case False
  let ?opts = "options_of pf argv"
  have sane: "length v < 2 ^ 60" if "k = (case text_option c ?opts None of
      None \<Rightarrow> getenv pf variable | Some w \<Rightarrow> Some w)" "k = Some v" for k v c variable
    using assms(3) that text_option_in [of c ?opts None]
    by (fastforce simp: command_line_sane_def split: option.splits)
  have interval: "unat (number_option CHR ''i'' ?opts DEFAULT_COMMUNICATION_INTERVAL_SECONDS) \<le> 18446744073709"
    using assms(3) number_option_in [of "CHR ''i''" ?opts DEFAULT_COMMUNICATION_INTERVAL_SECONDS]
    by (auto simp: command_line_sane_def DEFAULT_COMMUNICATION_INTERVAL_SECONDS_def)
  have "wp (seq (read_options argv ?opts
        \<lparr>interval_seconds = DEFAULT_COMMUNICATION_INTERVAL_SECONDS,
         num_leading_zeros = NUM_LEADING_ZERO_BYTES_IN_BLOCK_HASH,
         private_key_base64 = None, public_key_base64 = None\<rparr>) (\<lambda>opts.
      seq (key_or_environment pf ''private'' PRIVATE_KEY_ENVIRONMENT_VARIABLE (private_key_base64 opts))
        (\<lambda>private_key.
      seq (key_or_environment pf ''public'' PUBLIC_KEY_ENVIRONMENT_VARIABLE (public_key_base64 opts))
        (\<lambda>public_key.
      case (private_key, public_key) of
        (Some private_key, Some public_key) \<Rightarrow> start_threads pf bo now argv opts private_key public_key
      | _ \<Rightarrow> seq (print_usage_statement argv) (\<lambda>_. fail FAILURE_INVALID_COMMAND_LINE_ARGS)))))
    (\<lambda>r _. start_result ssl pf bo argv (difficulty pf argv) r) (\<lambda>c _. start_error c) s"
  proof (rule wp_seqI, rule wp_mono [OF wp_read_options], goal_cases)
    case (1 opts t)
    show ?case
    proof (rule wp_seqI, rule wp_mono [OF wp_key_or_environment], goal_cases)
      case priv: (1 private_key u)
      show ?case
      proof (rule wp_seqI, rule wp_mono [OF wp_key_or_environment], goal_cases)
        case pub: (1 public_key v)
        have "wp (start_threads pf bo now argv opts k1 k2)
            (\<lambda>r _. start_result ssl pf bo argv (difficulty pf argv) r) (\<lambda>c _. start_error c) v"
          if "private_key = Some k1" "public_key = Some k2" for k1 k2
          using wp_start_threads [OF assms(1), where s = v and opts = opts and private_key = k1 and public_key = k2 and ssl = ssl] 1 priv pub assms(2)
            sane [of private_key _ _ k1] sane [of public_key _ _ k2] interval that
          by (simp add: difficulty_def)
        then show ?case
          by (auto intro!: wp_mono [OF wp_print_usage] split: option.split)
      qed simp
    qed simp
  qed simp
  then show ?thesis using False by (simp add: miner_setup_def)
qed

text \<open>The command lines the program rejects: too short, an option it does not have, a key that is
  neither an option nor in the environment, an address that is none.\<close>

definition command_line_bad :: "platform \<Rightarrow> string list \<Rightarrow> bool" where
  "command_line_bad pf argv \<longleftrightarrow> length argv < 5 \<or> \<not> known_options (options_of pf argv) \<or>
     option_value CHR ''p'' (options_of pf argv) = None \<and> getenv pf PRIVATE_KEY_ENVIRONMENT_VARIABLE = None \<or>
     option_value CHR ''k'' (options_of pf argv) = None \<and> getenv pf PUBLIC_KEY_ENVIRONMENT_VARIABLE = None \<or>
     inet_pton pf (argv ! 1) = None \<or> inet_pton pf (argv ! 3) = None"

lemma wp_bad_address:
  "inet_pton pf (argv ! 1) = None \<or> inet_pton pf (argv ! 3) = None \<Longrightarrow>
    wp (start_threads pf bo now argv opts private_key public_key) (\<lambda>_ _. False)
      (\<lambda>c t. c = FAILURE_INVALID_COMMAND_LINE_ARGS \<and> memory t = memory s) s"
  by (auto simp: start_threads_def discovery_arguments_def address_argument_def split: option.split)

lemma wp_rejects:
  assumes "command_line_bad pf argv"
  shows "wp (miner_setup pf bo now argv) (\<lambda>_ _. False)
    (\<lambda>c t. c = FAILURE_INVALID_COMMAND_LINE_ARGS \<and> memory t = memory s) s"
proof (cases "length argv < 4 + 1")
  case True
  then show ?thesis by (auto simp: miner_setup_def intro!: wp_mono [OF wp_print_usage])
next
  case False
  have usage: "wp (seq (print_usage_statement argv) (\<lambda>_. fail FAILURE_INVALID_COMMAND_LINE_ARGS)) (\<lambda>_ _. False)
      (\<lambda>c t. c = FAILURE_INVALID_COMMAND_LINE_ARGS \<and> memory t = memory s) u" if "memory u = memory s"
    for u :: "env process"
    using that by (auto intro!: wp_mono [OF wp_print_usage])
  have start: "wp (start_threads pf bo now argv opts k1 k2) (\<lambda>_ _. False)
      (\<lambda>c t. c = FAILURE_INVALID_COMMAND_LINE_ARGS \<and> memory t = memory s) u"
    if "memory u = memory s" "inet_pton pf (argv ! 1) = None \<or> inet_pton pf (argv ! 3) = None"
    for u :: "env process" and opts k1 k2
    by (rule wp_mono [OF wp_bad_address [OF that(2)]]) (use that in auto)
  show ?thesis
    unfolding miner_setup_def if_not_P [OF False]
  proof (rule wp_seqI, rule wp_mono [OF wp_read_options], goal_cases)
    case (1 opts t)
    show ?case
    proof (rule wp_seqI, rule wp_mono [OF wp_key_or_environment], goal_cases)
      case priv: (1 private_key u)
      show ?case
      proof (rule wp_seqI, rule wp_mono [OF wp_key_or_environment], goal_cases)
        case pub: (1 public_key v)
        then show ?case
          using 1 priv assms False
          by (auto simp: command_line_bad_def text_option_def simp del: wp_seq intro!: usage start
              split: option.splits)
      qed simp
    qed simp
  qed simp
qed

section \<open>Properties\<close>

text \<open>C19. Whatever the command line and the environment of the miner are, if the number of seconds
  can be converted and memory suffices, it either exits with a status other than 0 before any
  thread runs, or starts its threads with well-formed arguments: the addresses are the 16 bytes
  and the ports, in the order of the wire, of the command line, the server and the registration
  use the same address, and each key is a string that ends inside its array of 4096 bytes,
  whatever was decoded. No memory is accessed outside an object.\<close>

theorem miner_arguments_well_formed:
  assumes "platform_ok pf" and "no_oom (memory s)" and "command_line_sane pf argv"
  shows "wp (miner_setup pf bo now argv)
    (\<lambda>r _. (\<forall>status. r = Inl status \<longrightarrow> status \<noteq> 0) \<and> (\<forall>st. r = Inr st \<longrightarrow> setup_ok pf bo argv st))
    (\<lambda>c _. c = FAILURE_INVALID_COMMAND_LINE_ARGS \<or> c = FAILURE_OPENSSL_FUNCTION \<or>
       c = FAILURE_PTHREAD_FUNCTION) s"
  by (rule wp_mono [OF wp_miner_setup [OF assms, where ssl = "undefined :: unit openssl"]])
    (auto elim: start_result.elims)

definition sample_command_line :: "string list" where
  "sample_command_line = [''miner'', ''::1'', ''8080'', ''::1'', ''9000'', ''-p'', ''QUFB'', ''-k'', ''QUFB'']"

definition sample_process :: "env process" where
  "sample_process = \<lparr>pthreads = [], stdout = [], stderr = [], memory = \<lparr>mallocs = [True]\<rparr>\<rparr>"

lemma sample_options: "options_of sample_platform sample_command_line =
    [(CHR ''p'', ''QUFB''), (CHR ''k'', ''QUFB'')]"
  by (simp add: sample_platform_def sample_command_line_def)

lemma sample_sane: "command_line_sane sample_platform sample_command_line"
  unfolding command_line_sane_def sample_options by (simp add: sample_platform_def)

theorem miner_arguments_well_formed_witness:
  "wp (miner_setup sample_platform Little_Endian 5 sample_command_line)
    (\<lambda>r _. case r of Inl status \<Rightarrow> status \<noteq> 0
      | Inr st \<Rightarrow> length (miner_public_key (mine_blocks_args st)) = 4096 \<and>
          sin6_addr (peer_addr (discover_peers_args st)) = replicate 15 0 @ [1])
    (\<lambda>c _. c = FAILURE_INVALID_COMMAND_LINE_ARGS \<or> c = FAILURE_OPENSSL_FUNCTION \<or>
       c = FAILURE_PTHREAD_FUNCTION) sample_process"
  by (rule wp_mono [OF miner_arguments_well_formed [OF sample_platform_ok _ sample_sane]])
    (auto simp: sample_process_def no_oom_def setup_ok_def key_string_def wf_key_def size_defs
      sample_command_line_def sample_platform_def split: sum.split)

lemma sample_scale: "scale_seconds DEFAULT_COMMUNICATION_INTERVAL_SECONDS = Some 20000000"
  by (simp add: DEFAULT_COMMUNICATION_INTERVAL_SECONDS_def scale_seconds_exact)

lemma sample_decode:
  "decode_key sample_platform which ''QUFB'' t = (Ok ([65, 65, 65, 0] @ replicate 4092 0), t)"
proof -
  have "replicate 4093 (0 :: u8) = 0 # replicate 4092 0" by (simp flip: replicate_Suc)
  then have "(replicate 3 65 @ replicate 4093 (0 :: u8))[3 := 0] = [65, 65, 65, 0] @ replicate 4092 0"
    by (simp add: numeral_3_eq_3)
  then show ?thesis
    by (simp add: decode_key_def key_decoded_length_def size_defs base64_decode_def sample_platform_def prog_basic)
qed

lemma sample_arguments:
  "length sample_command_line = 9" "sample_command_line ! Suc 0 = ''::1''" "sample_command_line ! 3 = ''::1''"
  "inet_pton sample_platform ''::1'' = Some (replicate 15 0 @ [1])"
  by (simp_all add: sample_command_line_def sample_platform_def)

lemma sample_setup:
  "\<exists>st t. miner_setup sample_platform Little_Endian 5 sample_command_line sample_process = (Ok (Inr st), t) \<and>
    mine_blocks_args st = mine_blocks_args_t.make ([65, 65, 65, 0] @ replicate 4092 0)
      ([65, 65, 65, 0] @ replicate 4092 0) True (Some ''blockchain.bin'')"
  by (simp add: miner_setup_def sample_options sample_process_def key_or_environment_def seq_def prog_basic print_out_def
    start_threads_def sample_arguments discovery_arguments_def address_argument_def sample_scale create_peer_list_def
    in_memory_def malloc_def ll_create_def alloc_def pthread_checked_def pthread_call_def start_with_keys_def sample_decode
    start_mining_def first_chain_def share_chain_def blockchain_print_eq start_pthreads_def pthread_or_exit_def
    blockchain_create_def block_create_genesis_block_def block_create_def blockchain_add_block_def ll_append_def
    synchronized_blockchain_create_def)

text \<open>No thread that goes on holds the mutex that is destroyed, or touches what has been freed.\<close>

definition orderly :: "threads_end \<Rightarrow> bool" where
  "orderly e \<longleftrightarrow> mutex_holder e = None \<and>
     Sync \<notin> set (after_sync e @ after_list e @ after_mutex e) \<and>
     Peer_Info_List \<notin> set (after_list e @ after_mutex e) \<and> Peer_Info_List_Mutex \<notin> set (after_mutex e)"

lemma stop_miner_eq:
  assumes "ledger_ok ssl bo n (ledger_of (miner_end e))" and "pc (miner_end e) = Returned c"
  shows "stop_miner e s = (if orderly e then Ok (enumerator c) else Undefined, s)"
proof -
  obtain d where "chains (ledger_of (miner_end e)) (current (ledger_of (miner_end e))) = Some d"
    using assms(1) by (auto simp: ledger_ok_def)
  then show ?thesis
    using assms(2)
    by (auto simp: stop_miner_def synchronized_blockchain_destroy_def other_threads_def orderly_def seq_def prog_basic)
qed

lemma enumerator_start_error: "start_error c \<Longrightarrow> enumerator c \<noteq> 0"
  by auto


text \<open>The miner reads the pointer, and is asked to stop; then the discovery thread stores the list of
  peers it received before the pointer to it is freed.\<close>

definition stopping_threads :: "node_setup \<Rightarrow> threads_end option" where
  "stopping_threads st =
     (let args = mine_blocks_args st;
          u = miner_step (toy_ssl 4) Little_Endian args True working (mining_start st) (pc (mining_start st));
          w = miner_step (toy_ssl 4) Little_Endian args True (working\<lparr>should_stop := True\<rparr>) u (pc u) in
      case pc w of
        Returned c \<Rightarrow> Some \<lparr>miner_end = w, mutex_holder = None, after_sync = [Peer_Info_List_Mutex, Peer_Info_List],
          after_list = [], after_mutex = []\<rparr>
      | _ \<Rightarrow> None)"


end
