(* ===== verification/Bootstrap_Server.thy ===== *)
theory Bootstrap_Server
  imports Peer_Discovery Node
begin

text \<open>
  src/peer_discovery_bootstrap_server_thread.c: the server registers the peer that connects,
  drops the peers that have been silent for too long, and answers with its peer list. The list
  is the heap list of Linked_List, because the expiry loop unlinks nodes itself and because the
  server frees a peer that is still in the list: the data of a node is a pointer to a peer that
  is \<open>Live\<close> or \<open>Freed\<close>.
\<close>

section \<open>State\<close>

text \<open>\<open>lookups\<close> are the outcomes of the next calls of getnameinfo and inet_ntop, oldest first;
  beyond the end they succeed.\<close>

record discovery = "peer_info_t pointee heap" +
  lookups :: "bool list"

section \<open>The locked part of the handler\<close>

definition getname :: "(discovery, unit) prog" where
  "getname s = (case lookups s of
      [] \<Rightarrow> (Ok (), s)
    | b # bs \<Rightarrow> (if b then Ok () else Fail FAILURE_NETWORK_FUNCTION, s\<lparr>lookups := bs\<rparr>))"

text \<open>getnameinfo, then inet_ntop, when progress is printed.\<close>

definition describe_peer :: "bool \<Rightarrow> (discovery, unit) prog" where
  "describe_peer print_progress = (if print_progress then seq getname (\<lambda>_. getname) else ret ())"

text \<open>\<open>free(peer_info)\<close> after the prepend: the object is the data of the head node.\<close>

definition free_head_data :: "addr \<Rightarrow> (discovery, unit) prog" where
  "free_head_data list =
     seq (load_list list) (\<lambda>l. case head l of None \<Rightarrow> undef | Some a \<Rightarrow> store_data a Freed)"

definition register_peer :: "addr \<Rightarrow> bool \<Rightarrow> peer_info_t \<Rightarrow> (discovery, unit) prog" where
  "register_peer list print_progress peer_info =
     seq (linked_list_find (Some list) (Some (Live peer_info)) (Some None)) (\<lambda>found_node.
     case found_node of
       None \<Rightarrow>
         seq (linked_list_prepend (Some list) (Some (Live peer_info))) (\<lambda>_.
         seq (attempt (describe_peer print_progress)) (\<lambda>r.
         case r of
           Inr _ \<Rightarrow> ret ()
         | Inl c \<Rightarrow> seq (free_head_data list) (\<lambda>_. fail c)))
     | Some a \<Rightarrow>
         seq (load_node a) (\<lambda>n.
         case data n of
           Freed \<Rightarrow> undef
         | Live found_peer_info \<Rightarrow>
             seq (store_data a
               (Live (found_peer_info\<lparr>last_connected := last_connected peer_info\<rparr>))) (\<lambda>_.
             describe_peer print_progress)))"

text \<open>The source compares a difference of times with a quotient of doubles; up to
  \<open>2 ^ 53\<close> microseconds that is the exact comparison. The times are those of the clock, so that
  their difference does not overflow.\<close>

definition peer_expired :: "u64 \<Rightarrow> u64 \<Rightarrow> peer_info_t \<Rightarrow> bool" where
  "peer_expired current_time keepalive peer \<longleftrightarrow>
     uint keepalive < (sint current_time - sint (last_connected peer)) * 1000000"

definition expiry_body ::
  "addr \<Rightarrow> bool \<Rightarrow> u64 \<Rightarrow> u64 \<Rightarrow> addr option \<times> addr option \<Rightarrow>
    (discovery, addr option \<times> addr option + unit) prog" where
  "expiry_body list print_progress current_time keepalive =
     (\<lambda>(prev, node).
      case node of
        None \<Rightarrow> ret (Inr ())
      | Some a \<Rightarrow>
          seq (load_node a) (\<lambda>n.
          case data n of
            Freed \<Rightarrow> undef
          | Live peer \<Rightarrow>
              if peer_expired current_time keepalive peer then
                seq (case prev of
                    None \<Rightarrow> store_head list (next_node n)
                  | Some b \<Rightarrow> store_next b (next_node n)) (\<lambda>_.
                seq (describe_peer print_progress) (\<lambda>_.
                seq (load_list list) (\<lambda>l.
                seq (call_free (free_function l) (data n)) (\<lambda>_.
                seq (free_node a) (\<lambda>_.
                case prev of
                  None \<Rightarrow> seq (load_list list) (\<lambda>l. ret (Inl (None, head l)))
                | Some b \<Rightarrow> seq (load_node b) (\<lambda>m. ret (Inl (Some b, next_node m))))))))
              else ret (Inl (Some a, next_node n))))"

definition expire_peers :: "addr \<Rightarrow> bool \<Rightarrow> u64 \<Rightarrow> u64 \<Rightarrow> (discovery, unit) prog" where
  "expire_peers list print_progress current_time keepalive =
     seq (load_list list) (\<lambda>l.
     loop (expiry_body list print_progress current_time keepalive) (None, head l))"

text \<open>The walk of peer_info_list_serialize over the nodes.\<close>

definition peers_in :: "addr \<Rightarrow> (discovery, peer_info_t list) prog" where
  "peers_in list =
     seq (load_list list) (\<lambda>l.
     loop (\<lambda>(node, ps).
       case node of
         None \<Rightarrow> ret (Inr ps)
       | Some a \<Rightarrow>
           seq (load_node a) (\<lambda>n.
           case data n of
             Freed \<Rightarrow> undef
           | Live p \<Rightarrow> ret (Inl (next_node n, ps @ [p])))) (head l, []))"

section \<open>The handler\<close>

text \<open>\<open>now1\<close> and \<open>now2\<close> are the two readings of the clock, \<open>lock\<close> and \<open>unlock\<close> the results of
  the pthread calls on the mutex of the list.\<close>

record handle_peer_discovery_requests_args_t =
  peer_keepalive_microseconds :: u64
  peer_info_list :: addr
  print_progress :: bool

definition peer_of_command :: "command_register_peer_t \<Rightarrow> u64 \<Rightarrow> peer_info_t" where
  "peer_of_command c now =
     \<lparr>listen_addr = \<lparr>sin6_family = rp_sin6_family c, sin6_port = rp_sin6_port c,
        sin6_flowinfo = rp_sin6_flowinfo c, sin6_addr = take IN6_ADDR_BYTES (rp_addr c),
        sin6_scope_id = rp_sin6_scope_id c\<rparr>,
      last_connected = now\<rparr>"

definition handle_one_peer_discovery_request ::
  "byte_order \<Rightarrow> handle_peer_discovery_requests_args_t \<Rightarrow> u64 \<Rightarrow> u64 \<Rightarrow>
    return_code_t option \<Rightarrow> return_code_t option \<Rightarrow> (discovery node, unit) prog" where
  "handle_one_peer_discovery_request bo args now1 now2 lock unlock =
     seq (on_conn (receive_message False bo COMMAND_REGISTER_PEER
       (\<lambda>buffer n. command_register_peer_deserialize bo True buffer n))) (\<lambda>command_register_peer.
     seq (on_conn malloc) (\<lambda>ok.
     if \<not> ok then undef
     else
       seq (pthread lock) (\<lambda>_.
       seq (on_shared (register_peer (peer_info_list args) (print_progress args)
         (peer_of_command command_register_peer now1))) (\<lambda>_.
       seq (on_shared (expire_peers (peer_info_list args) (print_progress args) now2
         (peer_keepalive_microseconds args))) (\<lambda>_.
       seq (on_shared (peers_in (peer_info_list args))) (\<lambda>ps.
       seq (on_conn (peer_info_list_serialize bo (Some ps) True True)) (\<lambda>(bytes, len).
       seq (pthread unlock) (\<lambda>_.
       seq (on_conn (command_send_peer_list_serialize bo
         (Some (unsent_message COMMAND_SEND_PEER_LIST bytes len)) True True)) (\<lambda>(_, buffer, buffer_len).
       on_conn (send_all (Some buffer) (unat buffer_len)))))))))))"

section \<open>What the server promises\<close>

text \<open>The operations on the sequence of the peers. A peer that is known is marked as seen, at its
  place; a new one comes first.\<close>

fun touch :: "peer_info_t \<Rightarrow> peer_info_t list \<Rightarrow> peer_info_t list" where
  "touch p [] = []"
| "touch p (q # qs) =
     (if listen_addr q = listen_addr p then q\<lparr>last_connected := last_connected p\<rparr> # qs
      else q # touch p qs)"

definition registered :: "peer_info_t \<Rightarrow> peer_info_t list \<Rightarrow> peer_info_t list" where
  "registered p ps =
     (if \<exists>q \<in> set ps. listen_addr q = listen_addr p then touch p ps else p # ps)"

definition unexpired :: "u64 \<Rightarrow> u64 \<Rightarrow> peer_info_t list \<Rightarrow> peer_info_t list" where
  "unexpired now keepalive ps = filter (\<lambda>p. \<not> peer_expired now keepalive p) ps"

definition wf_peers :: "peer_info_t list \<Rightarrow> bool" where
  "wf_peers ps \<longleftrightarrow> (\<forall>p \<in> set ps. wf_peer p) \<and> distinct (map listen_addr ps)"

lemma touch_listen_addr [simp]: "map listen_addr (touch p ps) = map listen_addr ps"
  by (induction ps) auto

lemma touch_other: "\<forall>q \<in> set ps. listen_addr q \<noteq> listen_addr p \<Longrightarrow> touch p ps = ps"
  by (induction ps) auto

lemma touch_at:
  "\<forall>q \<in> set us. listen_addr q \<noteq> listen_addr p \<Longrightarrow> listen_addr q = listen_addr p \<Longrightarrow>
    touch p (us @ q # vs) = us @ q\<lparr>last_connected := last_connected p\<rparr> # vs"
  by (induction us) auto

lemma wf_peer_touch: "\<forall>q \<in> set ps. wf_peer q \<Longrightarrow> \<forall>q \<in> set (touch p ps). wf_peer q"
  by (induction ps) (auto simp: wf_peer_def)

lemma wf_peers_registered: "wf_peer p \<Longrightarrow> wf_peers ps \<Longrightarrow> wf_peers (registered p ps)"
  by (auto simp: registered_def wf_peers_def wf_peer_touch dest: bspec)

lemma wf_peers_unexpired: "wf_peers ps \<Longrightarrow> wf_peers (unexpired now keepalive ps)"
  by (auto simp: unexpired_def wf_peers_def distinct_map_filter)

lemma in_touch: "listen_addr q = listen_addr p \<Longrightarrow> q \<in> set ps \<Longrightarrow>
    \<exists>r \<in> set (touch p ps). listen_addr r = listen_addr p \<and> last_connected r = last_connected p"
  by (induction ps) auto

lemma registered_seen:
  "\<exists>r \<in> set (registered p ps). listen_addr r = listen_addr p \<and> last_connected r = last_connected p"
  by (auto simp: registered_def dest: in_touch)

section \<open>The list in the heap\<close>

definition peer_compare :: "byte_order \<Rightarrow> peer_info_t pointee compare_function_t" where
  "peer_compare bo = (\<lambda>p q. compare_peer_info_t bo (Some p) (Some q))"

text \<open>The list at \<open>list\<close> has the functions the server installed and live data \<open>ps\<close>.\<close>

definition peers_at :: "byte_order \<Rightarrow> discovery \<Rightarrow> addr \<Rightarrow> peer_info_t list \<Rightarrow> bool" where
  "peers_at bo h list ps \<longleftrightarrow>
     (\<exists>l xs. list_at h list l xs \<and> map snd xs = map Live ps \<and> free_function l = Free \<and>
        compare_function l = Some (peer_compare bo))"

abbreviation names_found :: "bool \<Rightarrow> discovery \<Rightarrow> bool" where
  "names_found print h \<equiv> print \<longrightarrow> False \<notin> set (lookups h)"

text \<open>What changes when a peer is described: the schedule of the lookups.\<close>

lemma wp_describe_peer:
  assumes "names_found print h" and "\<And>bs. set bs \<subseteq> set (lookups h) \<Longrightarrow> Q () (h\<lparr>lookups := bs\<rparr>)"
  shows "wp (describe_peer print) Q E h"
proof -
  have "wp getname P E' g" if "False \<notin> set (lookups g)"
    and "\<And>bs. set bs \<subseteq> set (lookups g) \<Longrightarrow> P () (g\<lparr>lookups := bs\<rparr>)" for P E' and g :: discovery
  proof -
    have "g\<lparr>lookups := lookups g\<rparr> = g" by simp
    then have "P () g" by (metis that(2) subset_refl)
    then show ?thesis
      using that(1) that(2) [of "tl (lookups g)"]
      by (cases "lookups g") (auto simp: wp_def getname_def)
  qed
  note name = this
  have "h\<lparr>lookups := lookups h\<rparr> = h" by simp
  then have "Q () h" by (metis assms(2) subset_refl)
  moreover have "wp (seq getname (\<lambda>_. getname)) Q E h" if "print"
    using assms that by (auto intro!: name)
  ultimately show ?thesis by (simp add: describe_peer_def)
qed

lemma peers_at_lookups [simp]: "peers_at bo (h\<lparr>lookups := bs\<rparr>) = peers_at bo h"
  by (simp add: peers_at_def list_at_def heap_ok_def fun_eq_iff)

lemma list_at_lookups [simp]: "list_at (h\<lparr>lookups := bs\<rparr>) = list_at h"
  by (simp add: list_at_def heap_ok_def fun_eq_iff)

lemma no_oom_lookups [simp]: "no_oom (h\<lparr>lookups := bs\<rparr>) = no_oom h"
  by (simp add: no_oom_def)

section \<open>Registration\<close>

lemma prepend_lookups:
  "linked_list_prepend (Some p) (Some d) h = (out, t) \<Longrightarrow> lookups t = lookups h"
  by (cases rule: alloc_cases [of h])
    (auto simp: linked_list_prepend_def seq_def load_list_def new_node_def store_head_def
      split: option.splits)

lemma path_update_data:
  assumes "path N q (us @ (a, d) # vs) None"
  shows "path (N(a \<mapsto> \<lparr>data = e, next_node = next_node (the (N a))\<rparr>)) q (us @ (a, e) # vs) None"
proof -
  have "a \<notin> fst ` set us" "a \<notin> fst ` set vs"
    using path_distinct [OF assms] by (auto simp: image_iff)
  then show ?thesis
    using assms by (auto simp: path_append)
qed

lemma peer_compare_live:
  assumes "wf_peer p" and "wf_peer q"
  shows "peer_compare bo (Live p) (Live q) \<noteq> None"
    and "peer_compare bo (Live p) (Live q) = Some 0 \<longleftrightarrow> listen_addr p = listen_addr q"
  using compare_live [OF assms, of bo] by (auto simp: peer_compare_def)

lemma find_peer:
  assumes l: "list_at h list l xs" "map snd xs = map Live ps"
    and cmp: "compare_function l = Some (peer_compare bo)" and wf: "wf_peers ps" "wf_peer p"
  shows "linked_list_find (Some list) (Some (Live p)) (Some None) h =
    (Ok (first_match (peer_compare bo) (Live p) xs), h)"
proof -
  have "peer_compare bo (Live p) (snd x) \<noteq> None" if "x \<in> set xs" for x
  proof -
    from that have "snd x \<in> set (map snd xs)" by simp
    then obtain q where "q \<in> set ps" "snd x = Live q" unfolding l(2) by auto
    then show ?thesis using peer_compare_live wf by (simp add: wf_peers_def)
  qed
  from find_at [OF l(1) cmp, of "Live p" None, OF this] show ?thesis
    by (simp split: option.splits)
qed

lemma find_peer_None:
  assumes "first_match (peer_compare bo) (Live p) xs = None" and "map snd xs = map Live ps"
    and "wf_peers ps" "wf_peer p"
  shows "\<forall>q \<in> set ps. listen_addr q \<noteq> listen_addr p"
proof
  fix q assume q: "q \<in> set ps"
  then have "Live q \<in> set (map snd xs)" unfolding assms(2) by simp
  then obtain x where "x \<in> set xs" "snd x = Live q" by auto
  then have "peer_compare bo (Live p) (Live q) \<noteq> Some 0"
    using first_match_cases [where cmp = "peer_compare bo" and d = "Live p" and xs = xs] assms(1)
    by force
  then show "listen_addr q \<noteq> listen_addr p"
    using peer_compare_live(2) [OF assms(4), of q bo] q assms(3) by (auto simp: wf_peers_def)
qed

lemma find_peer_Some:
  assumes "first_match (peer_compare bo) (Live p) xs = Some a" and "map snd xs = map Live ps"
    and "wf_peers ps" "wf_peer p"
  shows "\<exists>us vs q qs rs. xs = us @ (a, Live q) # vs \<and> ps = qs @ q # rs \<and>
    map snd us = map Live qs \<and> map snd vs = map Live rs \<and> listen_addr q = listen_addr p \<and>
    (\<forall>r \<in> set qs. listen_addr r \<noteq> listen_addr p)"
proof -
  obtain us e vs where xs: "xs = us @ (a, e) # vs" "peer_compare bo (Live p) e = Some 0"
    "\<forall>u \<in> set us. peer_compare bo (Live p) (snd u) \<noteq> Some 0"
    using first_match_cases [where cmp = "peer_compare bo" and d = "Live p" and xs = xs] assms(1)
    by auto
  obtain qs q rs where ps: "ps = qs @ q # rs" "map snd us = map Live qs" "e = Live q"
    "map snd vs = map Live rs"
    using assms(2) unfolding xs(1) by (auto simp: append_eq_map_conv Cons_eq_map_conv
      dest!: sym [where s = "_ @ _"])
  have "listen_addr r \<noteq> listen_addr p" if "r \<in> set qs" for r
  proof -
    have "Live r \<in> set (map snd us)" using that unfolding ps(2) by simp
    then have "peer_compare bo (Live p) (Live r) \<noteq> Some 0" using xs(3) by force
    then show ?thesis
      using peer_compare_live(2) [OF assms(4), of r bo] that assms(3) ps(1)
      by (auto simp: wf_peers_def)
  qed
  moreover have "listen_addr q = listen_addr p"
    using peer_compare_live(2) [OF assms(4), of q bo] xs(2) ps assms(3) by (auto simp: wf_peers_def)
  ultimately show ?thesis using xs(1) ps by blast
qed
lemma wp_register_new:
  assumes l: "list_at h list l xs" "map snd xs = map Live ps" "free_function l = Free"
      "compare_function l = Some (peer_compare bo)"
    and names: "names_found print h" and new: "registered p ps = p # ps"
  shows "wp (seq (linked_list_prepend (Some list) (Some (Live p))) (\<lambda>_.
      seq (attempt (describe_peer print)) (\<lambda>r. case r of
          Inr _ \<Rightarrow> ret () | Inl c \<Rightarrow> seq (free_head_data list) (\<lambda>_. fail c))))
    (\<lambda>_ t. peers_at bo t list (registered p ps) \<and> freed t = freed h \<and> names_found print t \<and>
      (no_oom h \<longrightarrow> no_oom t))
    (\<lambda>e t. e = FAILURE_COULD_NOT_MALLOC \<and> \<not> no_oom h \<and> peers_at bo t list ps) h"
proof (cases rule: alloc_cases [of h])
  case (1 bs)
  obtain t where t: "linked_list_prepend (Some list) (Some (Live p)) h = (Ok (), t)"
    "mallocs t = bs" "list_at t list (l\<lparr>head := Some (brk h)\<rparr>) ((brk h, Live p) # xs)"
    "freed t = freed h"
    using prepend_at [OF l(1) 1] by blast
  have at: "peers_at bo t list (registered p ps)"
    unfolding peers_at_def new
    by (intro exI [of _ "l\<lparr>head := Some (brk h)\<rparr>"] exI [of _ "(brk h, Live p) # xs"])
      (use t(3) l in simp)
  moreover have look: "lookups t = lookups h" by (rule prepend_lookups [OF t(1)])
  moreover have "no_oom h \<longrightarrow> no_oom t"
    using alloc_step_no_oom [OF alloc_eq_Ok [OF 1]] t(2) by (simp add: no_oom_def)
  ultimately show ?thesis
    using names t(4)
    by (intro wp_seqI, rule_tac wpI_Ok, rule_tac t(1)) (auto intro!: wp_describe_peer)
next
  case (2 bs)
  then have "linked_list_prepend (Some list) (Some (Live p)) h =
      (Fail FAILURE_COULD_NOT_MALLOC, h\<lparr>mallocs := bs\<rparr>)"
    by (rule prepend_Fail)
  moreover have "\<not> no_oom h"
    using 2 by (auto simp: alloc_def malloc_def seq_def no_oom_def prog_basic split: list.splits)
  ultimately show ?thesis
    using l by (auto simp: wp_def seq_def peers_at_def)
qed

lemma wp_register_known:
  assumes l: "list_at h list l xs" "map snd xs = map Live ps" "free_function l = Free"
      "compare_function l = Some (peer_compare bo)" and wf: "wf_peers ps" "wf_peer p"
    and names: "names_found print h" and a: "first_match (peer_compare bo) (Live p) xs = Some a"
  shows "wp (seq (load_node a) (\<lambda>n. case data n of
        Freed \<Rightarrow> undef
      | Live q \<Rightarrow>
          seq (store_data a (Live (q\<lparr>last_connected := last_connected p\<rparr>))) (\<lambda>_.
          describe_peer print)))
    (\<lambda>_ t. peers_at bo t list (registered p ps) \<and> freed t = freed h \<and> names_found print t \<and>
      (no_oom h \<longrightarrow> no_oom t)) E h"
proof -
  obtain us vs q qs rs where xs: "xs = us @ (a, Live q) # vs" and ps: "ps = qs @ q # rs"
    "map snd us = map Live qs" "map snd vs = map Live rs"
    and q: "listen_addr q = listen_addr p" "\<forall>r \<in> set qs. listen_addr r \<noteq> listen_addr p"
    using find_peer_Some [OF a l(2) wf] by blast
  have path: "path (nodes h) (head l) (us @ (a, Live q) # vs) None"
    and live: "heap_ok h" "lists h list = Some l"
    using l(1) by (simp_all add: list_at_def xs)
  then obtain r where n: "nodes h a = Some \<lparr>data = Live q, next_node = r\<rparr>"
    by (auto simp: path_append)
  let ?q = "q\<lparr>last_connected := last_connected p\<rparr>"
  let ?t = "h\<lparr>nodes := (nodes h)(a \<mapsto> \<lparr>data = Live ?q, next_node = r\<rparr>)\<rparr>"
  have "list_at ?t list l (us @ (a, Live ?q) # vs)"
    using path_update_data [OF path, of "Live ?q"] live n
    by (auto simp: list_at_def heap_ok_def)
  moreover have "registered p ps = qs @ ?q # rs"
    using q ps(1) by (simp add: registered_def touch_at)
  ultimately have "peers_at bo ?t list (registered p ps)"
    using l(3,4) ps unfolding peers_at_def
    by (intro exI [of _ l] exI [of _ "us @ (a, Live ?q) # vs"]) simp
  moreover have "no_oom ?t = no_oom h" by (simp add: no_oom_def)
  ultimately have "wp (describe_peer print)
      (\<lambda>_ t. peers_at bo t list (registered p ps) \<and> freed t = freed h \<and> names_found print t \<and>
        (no_oom h \<longrightarrow> no_oom t)) E ?t"
    using names by (auto intro!: wp_describe_peer)
  moreover have "load_node a h = (Ok \<lparr>data = Live q, next_node = r\<rparr>, h)"
    using n by (simp add: load_node_def)
  moreover have "store_data a (Live ?q) h = (Ok (), ?t)"
    using n by (simp add: store_data_def)
  ultimately show ?thesis by (simp add: wp_def seq_Ok)
qed

lemma wp_register_peer:
  assumes at: "peers_at bo h list ps" and wf: "wf_peers ps" "wf_peer p"
    and names: "names_found print h"
  shows "wp (register_peer list print p)
    (\<lambda>_ t. peers_at bo t list (registered p ps) \<and> freed t = freed h \<and> names_found print t \<and>
      (no_oom h \<longrightarrow> no_oom t))
    (\<lambda>e t. e = FAILURE_COULD_NOT_MALLOC \<and> \<not> no_oom h \<and> peers_at bo t list ps) h"
proof -
  obtain l xs where l: "list_at h list l xs" "map snd xs = map Live ps" "free_function l = Free"
    "compare_function l = Some (peer_compare bo)"
    using at by (auto simp: peers_at_def)
  show ?thesis
    unfolding register_peer_def
  proof (rule wp_seqI, rule wpI_Ok, rule find_peer [OF l(1,2,4) wf])
    show "wp (case first_match (peer_compare bo) (Live p) xs of
        None \<Rightarrow>
          seq (linked_list_prepend (Some list) (Some (Live p))) (\<lambda>_.
          seq (attempt (describe_peer print)) (\<lambda>r. case r of
              Inr _ \<Rightarrow> ret () | Inl c \<Rightarrow> seq (free_head_data list) (\<lambda>_. fail c)))
      | Some a \<Rightarrow>
          seq (load_node a) (\<lambda>n. case data n of
            Freed \<Rightarrow> undef
          | Live q \<Rightarrow>
              seq (store_data a (Live (q\<lparr>last_connected := last_connected p\<rparr>))) (\<lambda>_.
              describe_peer print)))
      (\<lambda>_ t. peers_at bo t list (registered p ps) \<and> freed t = freed h \<and> names_found print t \<and>
        (no_oom h \<longrightarrow> no_oom t))
      (\<lambda>e t. e = FAILURE_COULD_NOT_MALLOC \<and> \<not> no_oom h \<and> peers_at bo t list ps) h"
    proof (cases "first_match (peer_compare bo) (Live p) xs")
      case None
      then have "registered p ps = p # ps"
        using find_peer_None [OF None l(2) wf] by (auto simp: registered_def)
      from wp_register_new [OF l names this] show ?thesis by (simp only: None option.case)
    next
      case (Some a)
      from wp_register_known [OF l wf names Some] show ?thesis by (simp only: Some option.case)
    qed
  qed
qed

section \<open>Expiry\<close>

text \<open>Unlinking the node \<open>a\<close> after the node \<open>b\<close>, then freeing it.\<close>

lemma path_unlink:
  assumes "path N q (us @ (b, d) # (a, e) # vs) None" and "N a = Some \<lparr>data = e, next_node = r\<rparr>"
  shows "path ((N(b \<mapsto> \<lparr>data = d, next_node = r\<rparr>))(a := None)) q (us @ (b, d) # vs) None"
    and "N b = Some \<lparr>data = d, next_node = Some a\<rparr>"
proof -
  have dist: "distinct (map fst (us @ (b, d) # (a, e) # vs))"
    by (rule path_distinct [OF assms(1)])
  then have "a \<notin> fst ` set us" "a \<notin> fst ` set vs" "b \<notin> fst ` set us" "b \<notin> fst ` set vs" "a \<noteq> b"
    by (auto simp: image_iff)
  then show "path ((N(b \<mapsto> \<lparr>data = d, next_node = r\<rparr>))(a := None)) q (us @ (b, d) # vs) None"
    and "N b = Some \<lparr>data = d, next_node = Some a\<rparr>"
    using assms by (auto simp: path_append)
qed

text \<open>The first node of what the loop has still to look at, and the last one it has kept.\<close>

definition first_node :: "(addr \<times> 'a) list \<Rightarrow> addr option" where
  "first_node xs = (case xs of [] \<Rightarrow> None | x # _ \<Rightarrow> Some (fst x))"

definition last_node :: "(addr \<times> 'a) list \<Rightarrow> addr option" where
  "last_node xs = (if xs = [] then None else Some (fst (last xs)))"

lemma node_simps [simp]:
  "first_node [] = None" "first_node (x # xs) = Some (fst x)"
  "last_node [] = None" "last_node (xs @ [x]) = Some (fst x)"
  by (simp_all add: first_node_def last_node_def)

lemma path_first: "path N q xs None \<Longrightarrow> q = first_node xs"
  by (cases xs) auto

definition expired_node :: "u64 \<Rightarrow> u64 \<Rightarrow> addr \<times> peer_info_t pointee \<Rightarrow> bool" where
  "expired_node now keepalive x \<longleftrightarrow> (\<exists>p. snd x = Live p \<and> peer_expired now keepalive p)"

text \<open>One iteration at the node \<open>x\<close>: it is kept, or unlinked and freed.\<close>

lemma expiry_keep:
  assumes "list_at h list l (ks @ x # vs)" and "snd x = Live p" and "\<not> peer_expired now keepalive p"
  shows "expiry_body list print now keepalive (last_node ks, first_node (x # vs)) h =
    (Ok (Inl (last_node (ks @ [x]), first_node vs)), h)"
proof -
  obtain r where "nodes h (fst x) = Some \<lparr>data = snd x, next_node = r\<rparr>" "path (nodes h) r vs None"
    using assms(1) by (auto simp: list_at_def path_append)
  then show ?thesis
    using assms(2,3) path_first by (simp add: expiry_body_def load_node_def seq_Ok ret_def)
qed

lemma load_next_at:
  "list_at h list l (us @ (b, d) # vs) \<Longrightarrow>
    load_node b h = (Ok \<lparr>data = d, next_node = first_node vs\<rparr>, h)"
  by (auto simp: list_at_def path_append load_node_def dest: path_first)

lemma wp_expiry_drop:
  assumes at: "list_at h list l (ks @ x # vs)" and x: "snd x = Live p"
    and exp: "peer_expired now keepalive p" and names: "names_found print h"
  shows "wp (expiry_body list print now keepalive (last_node ks, first_node (x # vs)))
    (\<lambda>v t. v = Inl (last_node ks, first_node vs) \<and>
       (\<exists>q. list_at t list (l\<lparr>head := q\<rparr>) (ks @ vs)) \<and>
       freed t = freed h @ [(free_function l, snd x)] \<and> names_found print t \<and>
       mallocs t = mallocs h) E h"
proof -
  obtain r where n: "nodes h (fst x) = Some \<lparr>data = snd x, next_node = r\<rparr>"
    and r: "path (nodes h) r vs None"
    using at by (auto simp: list_at_def path_append)
  have live: "heap_ok h" "lists h list = Some l" and path: "path (nodes h) (head l) (ks @ x # vs) None"
    using at by (simp_all add: list_at_def)
  have load: "load_node (fst x) h = (Ok \<lparr>data = snd x, next_node = r\<rparr>, h)"
    using n by (simp add: load_node_def)
  show ?thesis
  proof (cases ks rule: rev_cases)
    case Nil
    let ?l = "l\<lparr>head := r\<rparr>"
    have notin: "fst x \<notin> fst ` set vs"
      by (rule path_head_notin [OF r]) (use n in simp)
    have fin: "\<exists>q. list_at (h\<lparr>lists := (lists h)(list \<mapsto> l\<lparr>head := first_node vs\<rparr>), lookups := bs,
        freed := freed h @ [(free_function l, Live p)], nodes := (nodes h)(fst x := None)\<rparr>)
      list (l\<lparr>head := q\<rparr>) vs" for bs
      using r live notin path_first [OF r]
      by (intro exI [of _ "first_node vs"]) (auto simp: list_at_def heap_ok_def)
    show ?thesis
      using names n
      by (auto simp: expiry_body_def Nil wp_def [of "load_node _"] load x exp wp_def [of "store_head _ _"]
          store_head_def live wp_def [of "load_list _"] load_list_def wp_def [of "free_node _"]
          free_node_def call_free_def path_first [OF r] intro!: wp_describe_peer fin)
  next
    case (snoc us y)
    obtain b d where y: "y = (b, d)" by (cases y)
    have dist: "b \<noteq> fst x"
      using path_distinct [OF path] by (auto simp: snoc y)
    have b: "nodes h b = Some \<lparr>data = d, next_node = Some (fst x)\<rparr>"
      and unlinked: "path ((nodes h)(b \<mapsto> \<lparr>data = d, next_node = r\<rparr>, fst x := None)) (head l)
        (us @ (b, d) # vs) None"
      using path_unlink [of "nodes h" "head l" us b d "fst x" "snd x" vs r] path n
      by (simp_all add: snoc y)
    have fin: "\<exists>q. list_at (h\<lparr>lookups := bs,
        freed := freed h @ [(free_function l, Live p)],
        nodes := (nodes h)(b \<mapsto> \<lparr>data = d, next_node = first_node vs\<rparr>, fst x := None)\<rparr>)
      list (l\<lparr>head := q\<rparr>) (us @ (b, d) # vs)" for bs
      using unlinked live b path_first [OF r]
      by (intro exI [of _ "head l"]) (auto simp: list_at_def heap_ok_def)
    show ?thesis
      using names n b dist
      by (auto simp: expiry_body_def snoc y wp_def [of "load_node _"] load x exp wp_def [of "store_next _ _"]
          store_next_def live wp_def [of "load_list _"] load_list_def wp_def [of "free_node _"]
          free_node_def call_free_def path_first [OF r] load_node_def intro!: wp_describe_peer fin)
  qed
qed

lemma wp_expiry_loop:
  assumes "list_at h list l (ks @ vs)" and "map snd vs = map Live ps" and "names_found print h"
  shows "wp (loop (expiry_body list print now keepalive) (last_node ks, first_node vs))
    (\<lambda>_ t. (\<exists>q ws. list_at t list (l\<lparr>head := q\<rparr>) (ks @ ws) \<and>
         map snd ws = map Live (unexpired now keepalive ps)) \<and>
       freed t = freed h @ map (\<lambda>p. (free_function l, Live p)) (filter (peer_expired now keepalive) ps) \<and>
       names_found print t \<and> mallocs t = mallocs h) (\<lambda>_ _. False) h"
  using assms
proof (induction vs arbitrary: ks ps h l)
  case Nil
  have "loop (expiry_body list print now keepalive) (last_node ks, None) h = (Ok (), h)"
    by (rule loop_exit_Inr) (simp add: expiry_body_def ret_def)
  moreover have "list_at h list (l\<lparr>head := head l\<rparr>) ks" using Nil.prems(1) by simp
  then have "\<exists>q. list_at h list (l\<lparr>head := q\<rparr>) ks" by blast
  ultimately show ?case
    using Nil.prems by (auto simp: wp_def unexpired_def)
next
  case (Cons x vs)
  let ?body = "expiry_body list print now keepalive"
  obtain p qs where ps: "ps = p # qs" "snd x = Live p" "map snd vs = map Live qs"
    using Cons.prems(2) by (cases ps) auto
  show ?case
  proof (cases "peer_expired now keepalive p")
    case False
    have "list_at h list l ((ks @ [x]) @ vs)" using Cons.prems(1) by simp
    from Cons.IH [OF this ps(3) Cons.prems(3)]
    have "wp (loop ?body (last_node (ks @ [x]), first_node vs))
      (\<lambda>_ t. (\<exists>q ws. list_at t list (l\<lparr>head := q\<rparr>) (ks @ ws) \<and>
         map snd ws = map Live (unexpired now keepalive ps)) \<and>
       freed t = freed h @ map (\<lambda>p. (free_function l, Live p)) (filter (peer_expired now keepalive) ps) \<and>
       names_found print t \<and> mallocs t = mallocs h) (\<lambda>_ _. False) h"
    proof (rule wp_mono, goal_cases)
      case (1 v t)
      then obtain q ws where "list_at t list (l\<lparr>head := q\<rparr>) (ks @ (x # ws))"
        "map snd (x # ws) = map Live (unexpired now keepalive ps)"
        using ps False by (auto simp: unexpired_def)
      then show ?case using 1 ps(1) False by (simp del: list.map) blast
    qed
    then show ?thesis
      by (subst wp_loop_unfold) (simp add: wp_def [of "?body _"]
          expiry_keep [OF Cons.prems(1) ps(2) False] del: node_simps)
  next
    case True
    from wp_expiry_drop [OF Cons.prems(1) ps(2) True Cons.prems(3)]
    show ?thesis
    proof (subst wp_loop_unfold, rule wp_mono, goal_cases)
      case (1 v t)
      then obtain q where v: "v = Inl (last_node ks, first_node vs)"
        and t: "list_at t list (l\<lparr>head := q\<rparr>) (ks @ vs)" "names_found print t"
          "freed t = freed h @ [(free_function l, snd x)]" "mallocs t = mallocs h" by auto
      from Cons.IH [OF t(1) ps(3) t(2)] show ?case
        unfolding v sum.case by (rule wp_mono) (use t ps True in \<open>auto simp: unexpired_def\<close>)
    qed
  qed
qed

lemma peers_at_head:
  assumes "list_at t list (l\<lparr>head := q\<rparr>) xs" and "map snd xs = map Live ps"
    and "free_function l = Free" and "compare_function l = Some (peer_compare bo)"
  shows "peers_at bo t list ps"
  unfolding peers_at_def
  by (intro exI [of _ "l\<lparr>head := q\<rparr>"] exI [of _ xs]) (use assms in simp)

lemma wp_expire_peers:
  assumes "peers_at bo h list ps" and "names_found print h"
  shows "wp (expire_peers list print now keepalive)
    (\<lambda>_ t. peers_at bo t list (unexpired now keepalive ps) \<and>
       freed t = freed h @ map (\<lambda>p. (Free, Live p)) (filter (peer_expired now keepalive) ps) \<and>
       names_found print t \<and> mallocs t = mallocs h) (\<lambda>_ _. False) h"
proof -
  obtain l xs where l: "list_at h list l xs" "map snd xs = map Live ps" "free_function l = Free"
    "compare_function l = Some (peer_compare bo)"
    using assms(1) by (auto simp: peers_at_def)
  have "head l = first_node xs"
    using l(1) by (auto simp: list_at_def dest: path_first)
  moreover have "wp (loop (expiry_body list print now keepalive) (None, first_node xs))
    (\<lambda>_ t. peers_at bo t list (unexpired now keepalive ps) \<and>
       freed t = freed h @ map (\<lambda>p. (Free, Live p)) (filter (peer_expired now keepalive) ps) \<and>
       names_found print t \<and> mallocs t = mallocs h) (\<lambda>_ _. False) h"
    by (rule wp_mono [OF wp_expiry_loop [where ks = "[]" and l = l and ps = ps,
            unfolded node_simps(3) append_Nil]])
      (use l assms(2) peers_at_head in auto)
  ultimately show ?thesis
    using load_list_at [OF l(1)] by (simp add: expire_peers_def wp_def [of "load_list _"])
qed

section \<open>The reply\<close>

lemma peers_in_loop:
  assumes "path (nodes h) q xs None" and "map snd xs = map Live ps"
  shows "loop (\<lambda>(node, ps).
       case node of
         None \<Rightarrow> ret (Inr ps)
       | Some a \<Rightarrow>
           seq (load_node a) (\<lambda>n.
           case data n of
             Freed \<Rightarrow> undef
           | Live p \<Rightarrow> ret (Inl (next_node n, ps @ [p])))) (q, acc) h = (Ok (acc @ ps), h :: discovery)"
  using assms
proof (induction xs arbitrary: q acc ps)
  case Nil
  then show ?case by (simp add: loop_exit_Inr ret_def)
next
  case (Cons x xs)
  then obtain q' p qs where "q = Some (fst x)" "ps = p # qs" "snd x = Live p"
    and n: "nodes h (fst x) = Some \<lparr>data = snd x, next_node = q'\<rparr>"
    and IH: "path (nodes h) q' xs None" "map snd xs = map Live qs"
    by (cases ps) auto
  then show ?case
    using Cons.IH [OF IH, of "acc @ [p]"]
    by (rule_tac loop_Inl [where y = "(q', acc @ [p])" and t = h])
      (simp_all add: load_node_def seq_def ret_def)
qed

lemma peers_in_at: "peers_at bo h list ps \<Longrightarrow> peers_in list h = (Ok ps, h)"
  unfolding peers_at_def
proof (elim exE conjE)
  fix l xs assume l: "list_at h list l xs" "map snd xs = map Live ps"
  then show "peers_in list h = (Ok ps, h)"
    using peers_in_loop [of h "head l" xs ps "[]"]
    by (simp add: peers_in_def seq_Ok list_at_def load_list_def)
qed

lemma wp_peers_in [simp]: "peers_at bo h list ps \<Longrightarrow> Q ps h \<Longrightarrow> wp (peers_in list) Q E h"
  by (simp add: wpI_Ok peers_in_at)

section \<open>One request\<close>

lemma shared_conn: "shared (n\<lparr>conn := x\<rparr>) = shared n"
  by simp

lemma conn_conn: "conn (n\<lparr>conn := x\<rparr>) = x"
  by simp

lemma on_conn_seq: "on_conn (seq m f) = seq (on_conn m) (\<lambda>v. on_conn (f v))"
  by (auto simp: on_conn_def seq_def fun_eq_iff split: prod.splits outcome.splits)

definition request_ok :: "discovery node \<Rightarrow> command_register_peer_t \<Rightarrow> bool" where
  "request_ok n c \<longleftrightarrow> register_peer_ok c \<and> (\<exists>later. arriving (conn n) = wire_register_peer c @ later)"

definition resources_ok :: "bool \<Rightarrow> discovery node \<Rightarrow> bool" where
  "resources_ok print n \<longleftrightarrow> no_oom (conn n) \<and> no_oom (shared n) \<and> None \<notin> set (sends (conn n)) \<and>
     names_found print (shared n)"

lemma wf_peer_of_command: "register_peer_ok c \<Longrightarrow> wf_peer (peer_of_command c now)"
  by (simp add: wf_peer_def peer_of_command_def register_peer_ok_def IN6_ADDR_SIZE_def
      IN6_ADDR_BYTES_def)

lemma length_registered: "length (registered p ps) \<le> Suc (length ps)"
proof -
  have "length (touch p ps) = length ps" by (metis length_map touch_listen_addr)
  then show ?thesis by (simp add: registered_def)
qed

lemma length_unexpired: "length (unexpired now keepalive ps) \<le> length ps"
  by (simp add: unexpired_def)

lemma wp_peer_list_reply:
  assumes "wf_peers ps" and "length ps < 2 ^ 50" and "no_oom c" and "None \<notin> set (sends c)"
  shows "wp (seq (peer_info_list_serialize bo (Some ps) True True) (\<lambda>(bytes, len).
      seq (command_send_peer_list_serialize bo
        (Some (unsent_message COMMAND_SEND_PEER_LIST bytes len)) True True) (\<lambda>(_, buffer, n).
      send_all (Some buffer) (unat n))))
    (\<lambda>_ t. sent t = sent c @ wire_data (message COMMAND_SEND_PEER_LIST (wire_peers ps)))
    (\<lambda>_ _. False) (c :: net)"
proof -
  have wf: "\<forall>p \<in> set ps. wf_peer p" using assms(1) by (simp add: wf_peers_def)
  have "length (wire_peers ps) < 2 ^ 62"
    using assms(2) by (simp add: length_wire_peers [OF wf])
  note send = wp_send_message [OF this, where code = COMMAND_SEND_PEER_LIST and bo = bo]
  have t: "no_oom t \<and> sent t = sent c \<and> sends t = sends c" if "alloc_step c t" for t
    using that alloc_step_no_oom [OF that assms(3)] by (auto simp: alloc_step_def)
  show ?thesis
    unfolding command_send_peer_list_serialize_def
  proof (rule wp_seqI, rule wp_mono [OF wp_peer_info_list_serialize [OF wf]], goal_cases)
    case (1 v u)
    then have v: "v = (wire_peers ps, of_nat (length (wire_peers ps)))" and u: "alloc_step c u" by auto
    show ?case
      unfolding v prod.case
      by (rule wp_mono [OF send]) (use t [OF u] assms(4) in auto)
  qed (use assms(3) in auto)
qed

text \<open>The end of the handler, once the list has been updated.\<close>

lemma wp_reply:
  assumes at: "peers_at bo (shared m) list qs" and wf: "wf_peers qs" "length qs < 2 ^ 50"
    and res: "no_oom (conn m)" "None \<notin> set (sends (conn m))"
  shows "wp (seq (on_shared (peers_in list)) (\<lambda>ps.
       seq (on_conn (peer_info_list_serialize bo (Some ps) True True)) (\<lambda>(bytes, len).
       seq (pthread None) (\<lambda>_.
       seq (on_conn (command_send_peer_list_serialize bo
         (Some (unsent_message COMMAND_SEND_PEER_LIST bytes len)) True True)) (\<lambda>(_, buffer, n).
       on_conn (send_all (Some buffer) (unat n)))))))
    (\<lambda>_ t. shared t = shared m \<and>
       sent (conn t) = sent (conn m) @ wire_data (message COMMAND_SEND_PEER_LIST (wire_peers qs)))
    (\<lambda>_ _. False) m"
proof -
  have lift: "(\<lambda>(bytes, len).
       seq (pthread None) (\<lambda>_.
       seq (on_conn (command_send_peer_list_serialize bo
         (Some (unsent_message COMMAND_SEND_PEER_LIST bytes len)) True True)) (\<lambda>(_, buffer, n).
       on_conn (send_all (Some buffer) (unat n))))) =
    (\<lambda>v. on_conn (case v of (bytes, len) \<Rightarrow>
       seq (command_send_peer_list_serialize bo
         (Some (unsent_message COMMAND_SEND_PEER_LIST bytes len)) True True) (\<lambda>(_, buffer, n).
       send_all (Some buffer) (unat n))) :: (discovery node, unit) prog)"
    by (simp add: on_conn_seq split_def)
  show ?thesis
    unfolding lift on_conn_seq [symmetric]
    by (rule wp_seqI, subst wp_on_shared, rule wp_peers_in [OF at], subst wp_on_conn,
        rule wp_mono [OF wp_peer_list_reply [OF wf]]) (use res in simp_all)
qed

lemma wp_handle_request:
  assumes req: "request_ok n c" and res: "resources_ok (print_progress args) n"
    and at: "peers_at bo (shared n) (peer_info_list args) ps" and wf: "wf_peers ps"
    and len: "Suc (length ps) < 2 ^ 50"
  shows "wp (handle_one_peer_discovery_request bo args now1 now2 None None)
    (\<lambda>_ m. let qs = unexpired now2 (peer_keepalive_microseconds args)
               (registered (peer_of_command c now1) ps) in
       peers_at bo (shared m) (peer_info_list args) qs \<and> wf_peers qs \<and>
       sent (conn m) = sent (conn n) @ wire_data (message COMMAND_SEND_PEER_LIST (wire_peers qs)) \<and>
       freed (shared m) = freed (shared n) @ map (\<lambda>p. (Free, Live p))
         (filter (peer_expired now2 (peer_keepalive_microseconds args))
           (registered (peer_of_command c now1) ps)) \<and>
       no_oom (shared m) \<and> names_found (print_progress args) (shared m))
    (\<lambda>_ _. False) n"
proof -
  let ?p = "peer_of_command c now1" and ?list = "peer_info_list args" and ?k = "peer_keepalive_microseconds args"
  let ?rs = "registered ?p ps"
  let ?qs = "unexpired now2 ?k ?rs"
  have c: "register_peer_ok c" and p: "wf_peer ?p"
    using req by (auto simp: request_ok_def wf_peer_of_command)
  obtain later where arr: "arriving (conn n) = wire_register_peer c @ later"
    using req by (auto simp: request_ok_def)
  have no: "no_oom (conn n)" "no_oom (shared n)" "None \<notin> set (sends (conn n))"
    "names_found (print_progress args) (shared n)"
    using res by (simp_all add: resources_ok_def)
  have wfs: "wf_peers ?qs" by (intro wf_peers_unexpired wf_peers_registered p wf)
  have len': "length ?qs < 2 ^ 50"
    using len length_registered [of ?p ps] length_unexpired [of now2 ?k ?rs] by linarith
  define Q where "Q = (\<lambda>m :: discovery node. peers_at bo (shared m) ?list ?qs \<and> wf_peers ?qs \<and>
       sent (conn m) = sent (conn n) @ wire_data (message COMMAND_SEND_PEER_LIST (wire_peers ?qs)) \<and>
       freed (shared m) = freed (shared n) @ map (\<lambda>p. (Free, Live p)) (filter (peer_expired now2 ?k) ?rs) \<and>
       no_oom (shared m) \<and> names_found (print_progress args) (shared m))"
  define reply where "reply = seq (on_shared (peers_in ?list)) (\<lambda>ps.
       seq (on_conn (peer_info_list_serialize bo (Some ps) True True)) (\<lambda>(bytes, len).
       seq (pthread None) (\<lambda>_.
       seq (on_conn (command_send_peer_list_serialize bo
         (Some (unsent_message COMMAND_SEND_PEER_LIST bytes len)) True True)) (\<lambda>(_, buffer, n).
       on_conn (send_all (Some buffer) (unat n))))))"
  have last: "wp reply (\<lambda>_. Q) (\<lambda>_ _. False) m"
    if "peers_at bo (shared m) ?list ?qs" "sent (conn m) = sent (conn n)" "no_oom (conn m)"
      "sends (conn m) = sends (conn n)" "freed (shared m) = freed (shared n) @
        map (\<lambda>p. (Free, Live p)) (filter (peer_expired now2 ?k) ?rs)"
      "no_oom (shared m)" "names_found (print_progress args) (shared m)" for m
    unfolding reply_def
    by (rule wp_mono [OF wp_reply [OF that(1) wfs len' that(3)]]) (use that no wfs in \<open>auto simp: Q_def\<close>)
  have tail: "wp (seq (on_shared (register_peer ?list (print_progress args) ?p)) (\<lambda>_.
       seq (on_shared (expire_peers ?list (print_progress args) now2 ?k)) (\<lambda>_. reply)))
    (\<lambda>_. Q) (\<lambda>_ _. False) (n\<lparr>conn := x\<rparr>)"
    if "sent x = sent (conn n)" "no_oom x" "sends x = sends (conn n)" for x
  proof (rule wp_seqI, subst wp_on_shared, subst shared_conn,
      rule wp_mono [OF wp_register_peer [OF at wf p no(4)]], goal_cases)
    case (1 v t)
    then show ?case
      by (intro wp_seqI, subst wp_on_shared)
        (rule wp_mono [OF wp_expire_peers [where bo = bo and ps = ?rs]],
          use that no in \<open>auto intro!: last simp: no_oom_def\<close>)
  qed (use no in auto)
  have "wp (handle_one_peer_discovery_request bo args now1 now2 None None) (\<lambda>_. Q) (\<lambda>_ _. False) n"
    unfolding handle_one_peer_discovery_request_def
  proof (rule wp_seqI, subst wp_on_conn,
      rule wp_mono [OF register_codec.receive_wire [OF c arr no(1)]], goal_cases)
    case (1 v t)
    then have v: "v = c" and t: "sent t = sent (conn n)" "sends t = sends (conn n)" "no_oom t"
      by auto
    have "wp malloc (\<lambda>ok u. ok \<and> sent u = sent (conn n) \<and> sends u = sends (conn n) \<and> no_oom u)
        (\<lambda>_ _. False) t"
      using t alloc_step_no_oom by (intro wp_mallocI) (auto simp: alloc_step_def no_oom_def)
    then show ?case
      unfolding v
      by (intro wp_seqI, subst wp_on_conn, subst conn_conn) (erule wp_mono,
        use tail in \<open>auto simp: pthread_simps(1) seq_ret reply_def simp del: wp_seq\<close>)
  qed auto
  then show ?thesis unfolding Q_def Let_def .
qed

section \<open>The thread\<close>

text \<open>The parameters of a request are the two readings of the clock and the results of the calls on
  the mutex.\<close>

definition handle_peer_discovery_requests ::
  "byte_order \<Rightarrow> handle_peer_discovery_requests_args_t \<Rightarrow> bool \<Rightarrow> bool \<Rightarrow> bool \<Rightarrow>
    ((u64 \<times> u64 \<times> return_code_t option \<times> return_code_t option) poll_event \<times> bool) list \<Rightarrow>
    (discovery thread, return_code_t) prog" where
  "handle_peer_discovery_requests bo args listening should_stop allocated events =
     server_thread (print_progress args)
       (\<lambda>(now1, now2, lock, unlock). handle_one_peer_discovery_request bo args now1 now2 lock unlock)
       listening should_stop allocated events"

lemma announces_peer_discovery_requests:
  "announces_exit (handle_peer_discovery_requests bo args listening should_stop allocated events)"
  unfolding handle_peer_discovery_requests_def by (rule announces_server_thread)

text \<open>A visit of a peer: the command it sends, its connection and the two times. \<open>served\<close> is what it
  does to the list of the peers.\<close>

type_synonym visit = "command_register_peer_t \<times> net \<times> u64 \<times> u64"

fun served :: "u64 \<Rightarrow> peer_info_t list \<Rightarrow> visit \<Rightarrow> peer_info_t list" where
  "served keepalive ps (c, connection, now1, now2) =
     unexpired now2 keepalive (registered (peer_of_command c now1) ps)"

fun visit_ok :: "visit \<Rightarrow> bool" where
  "visit_ok (c, connection, now1, now2) \<longleftrightarrow> register_peer_ok c \<and>
     arriving connection = wire_register_peer c \<and> no_oom connection \<and> None \<notin> set (sends connection)"

fun visit_event ::
  "visit \<Rightarrow> (u64 \<times> u64 \<times> return_code_t option \<times> return_code_t option) poll_event \<times> bool" where
  "visit_event (c, connection, now1, now2) = (Accepted True connection (now1, now2, None, None), False)"

text \<open>The visits of peers, followed by other events.\<close>

lemma accept_visits:
  assumes "\<forall>v \<in> set visits. visit_ok v" and "peers_at bo h (peer_info_list args) ps" and "wf_peers ps"
    and "no_oom h" and "names_found (print_progress args) h" and "length ps + length visits < 2 ^ 50 - 1"
  shows "\<exists>h'. accept_loop (print_progress args)
      (\<lambda>(now1, now2, lock, unlock). handle_one_peer_discovery_request bo args now1 now2 lock unlock)
      SUCCESS (map visit_event visits @ events) h =
    accept_loop (print_progress args)
      (\<lambda>(now1, now2, lock, unlock). handle_one_peer_discovery_request bo args now1 now2 lock unlock)
      SUCCESS events h' \<and>
    peers_at bo h' (peer_info_list args) (foldl (served (peer_keepalive_microseconds args)) ps visits) \<and>
    wf_peers (foldl (served (peer_keepalive_microseconds args)) ps visits)"
  using assms
proof (induction visits arbitrary: h ps)
  case Nil
  then show ?case by auto
next
  case (Cons v visits)
  obtain c connection now1 now2 where v: "v = (c, connection, now1, now2)" by (cases v)
  let ?n = "\<lparr>conn = connection, shared = h\<rparr>" and ?qs = "served (peer_keepalive_microseconds args) ps v"
  have "request_ok ?n c" "resources_ok (print_progress args) ?n" "Suc (length ps) < 2 ^ 50"
    using Cons.prems by (auto simp: v request_ok_def resources_ok_def)
  from wp_handle_request [OF this(1,2) _ Cons.prems(3) this(3), of bo now1 now2] Cons.prems(2)
  obtain m where m: "handle_one_peer_discovery_request bo args now1 now2 None None ?n = (Ok (), m)"
    "peers_at bo (shared m) (peer_info_list args) ?qs" "wf_peers ?qs" "no_oom (shared m)"
    "names_found (print_progress args) (shared m)"
    by (auto simp: wp_Ok_iff v Let_def)
  have "length ?qs \<le> Suc (length ps)"
    using length_registered [of "peer_of_command c now1" ps]
      length_unexpired [of now2 "peer_keepalive_microseconds args" "registered (peer_of_command c now1) ps"]
    by (simp add: v)
  then have "length ?qs + length visits < 2 ^ 50 - 1" using Cons.prems(6) by simp
  from Cons.IH [OF _ m(2,3,4,5) this] Cons.prems(1) m(1) show ?case by (simp add: v)
qed

section \<open>A peer freed while it is in the list\<close>

lemma find_freed:
  assumes "list_at t list l ((a, Freed) # xs)" and "compare_function l = Some (peer_compare bo)"
  shows "fst (linked_list_find (Some list) (Some (Live q)) (Some None) t) = Undefined"
proof -
  obtain r where "head l = Some a" "nodes t a = Some \<lparr>data = Freed, next_node = r\<rparr>"
    "lists t list = Some l"
    using assms(1) by (auto simp: list_at_def)
  then show ?thesis
    using assms(2)
    by (simp add: linked_list_find_def load_list_def seq_Ok peer_compare_def
        loop_exit_Undefined load_node_def compare_peer_info_t_def undef_def)
qed

section \<open>Properties\<close>

text \<open>C32. The expiry loop always ends, keeps exactly the peers that were seen within the
  keepalive interval, in order, and calls the free function once on each of the others; the
  heap list it leaves is well-formed again, wherever in the list the expired peers were.\<close>

theorem expire_peers_exact:
  assumes "peers_at bo h list ps" and "print \<longrightarrow> False \<notin> set (lookups h)"
  shows "wp (expire_peers list print now keepalive)
    (\<lambda>_ t. peers_at bo t list (filter (\<lambda>p. \<not> peer_expired now keepalive p) ps) \<and>
       freed t = freed h @ map (\<lambda>p. (Free, Live p)) (filter (peer_expired now keepalive) ps))
    (\<lambda>_ _. False) h"
  by (rule wp_mono [OF wp_expire_peers [OF assms]]) (auto simp: unexpired_def)

definition two_peers :: "bool list \<Rightarrow> discovery" where
  "two_peers names = \<lparr>mallocs = [],
     lists = [0 \<mapsto> \<lparr>free_function = Free, compare_function = Some (peer_compare Little_Endian),
       head = Some 1\<rparr>],
     nodes = [1 \<mapsto> \<lparr>data = Live peer_b, next_node = Some 2\<rparr>,
       2 \<mapsto> \<lparr>data = Live peer_a, next_node = None\<rparr>],
     brk = 3, freed = [], lookups = names\<rparr>"

lemma two_peers_at: "peers_at Little_Endian (two_peers names) 0 [peer_b, peer_a]"
  unfolding peers_at_def
  by (intro exI [of _ "\<lparr>free_function = Free, compare_function = Some (peer_compare Little_Endian),
       head = Some 1\<rparr>"] exI [of _ "[(1, Live peer_b), (2, Live peer_a)]"])
    (auto simp: two_peers_def list_at_def heap_ok_def)

lemma wf_two_peers: "wf_peers [peer_b, peer_a]"
  by (simp add: wf_peers_def) (simp add: peer_a_def peer_b_def)

theorem expire_peers_exact_witness:
  "wp (expire_peers 0 True 1050 100000000)
    (\<lambda>_ t. peers_at Little_Endian t 0 [peer_a] \<and> freed t = [(Free, Live peer_b)])
    (\<lambda>_ _. False) (two_peers [True, True])"
proof -
  have exp: "peer_expired 1050 100000000 peer_b" "\<not> peer_expired 1050 100000000 peer_a"
    by (simp_all add: peer_expired_def peer_a_def peer_b_def)
  show ?thesis
    by (rule wp_mono [OF expire_peers_exact [OF two_peers_at]])
      (auto simp: exp, simp_all add: two_peers_def)
qed

text \<open>One request to the bootstrap server, with memory and a working network: it reads the
  command, however it arrives, and leaves the list with the peer registered, at the head when it
  is new or with its time updated in its place when it is known, and with the expired peers
  removed; no two peers of the list have the same address if none had before; and it sends
  exactly the new list, in which the peer itself is unless it has expired already.\<close>

theorem bootstrap_request_served:
  assumes "request_ok n c" and "resources_ok (print_progress args) n"
    and "peers_at bo (shared n) (peer_info_list args) ps" and "wf_peers ps"
    and "length ps < 2 ^ 50 - 1"
  shows "wp (handle_one_peer_discovery_request bo args now1 now2 None None)
    (\<lambda>_ m. \<exists>qs. qs = unexpired now2 (peer_keepalive_microseconds args)
         (registered (peer_of_command c now1) ps) \<and>
       peers_at bo (shared m) (peer_info_list args) qs \<and> wf_peers qs \<and>
       sent (conn m) = sent (conn n) @ wire_data (message COMMAND_SEND_PEER_LIST (wire_peers qs)) \<and>
       (\<exists>q. listen_addr q = listen_addr (peer_of_command c now1) \<and> last_connected q = now1 \<and>
          (q \<in> set qs \<or> peer_expired now2 (peer_keepalive_microseconds args) q)))
    (\<lambda>_ _. False) n"
proof -
  have "\<exists>q. listen_addr q = listen_addr (peer_of_command c now1) \<and> last_connected q = now1 \<and>
      (q \<in> set (unexpired now2 k (registered (peer_of_command c now1) ps)) \<or> peer_expired now2 k q)" for k
    using registered_seen [of "peer_of_command c now1" ps]
    by (auto simp: unexpired_def peer_of_command_def)
  then show ?thesis
    by (intro wp_mono [OF wp_handle_request [OF assms(1-4)]]) (use assms(5) in \<open>simp_all add: Let_def\<close>)
qed

definition sample_register :: command_register_peer_t where
  "sample_register = \<lparr>rp_header = \<lparr>command_prefix = COMMAND_PREFIX, command = 2,
      command_len = of_nat REGISTER_PEER_SIZE\<rparr>, rp_sin6_family = 10, rp_sin6_port = 1,
    rp_sin6_flowinfo = 0, rp_addr = replicate 16 7, rp_sin6_scope_id = 0\<rparr>"

lemma sample_register_ok: "register_peer_ok sample_register"
  by (simp add: register_peer_ok_def sample_register_def IN6_ADDR_SIZE_def)

definition sample_node :: "bool list \<Rightarrow> discovery node" where
  "sample_node names = \<lparr>conn = toy_net [Received (take 5 (wire_register_peer sample_register)),
     Received (drop 5 (wire_register_peer sample_register))] [Some 3], shared = two_peers names\<rparr>"

theorem bootstrap_request_served_witness:
  "wp (handle_one_peer_discovery_request Little_Endian
      \<lparr>peer_keepalive_microseconds = 100000000, peer_info_list = 0, print_progress = True\<rparr>
      1050 1050 None None)
    (\<lambda>_ m. peers_at Little_Endian (shared m) 0 [peer_of_command sample_register 1050, peer_a])
    (\<lambda>_ _. False) (sample_node [True])"
proof -
  have exp: "peer_expired 1050 100000000 peer_b" "\<not> peer_expired 1050 100000000 peer_a"
    "\<not> peer_expired 1050 100000000 (peer_of_command sample_register 1050)"
    by (simp_all add: peer_expired_def peer_a_def peer_b_def peer_of_command_def)
  have reg: "registered (peer_of_command sample_register 1050) [peer_b, peer_a] =
      [peer_of_command sample_register 1050, peer_b, peer_a]"
    by (simp add: registered_def peer_a_def peer_b_def peer_of_command_def sample_register_def)
  have "request_ok (sample_node [True]) sample_register"
    by (simp add: request_ok_def sample_node_def toy_net_def sample_register_ok)
  moreover have "resources_ok True (sample_node [True])"
    by (simp add: resources_ok_def sample_node_def toy_net_def two_peers_def)
  moreover have "peers_at Little_Endian (shared (sample_node [True])) 0 [peer_b, peer_a]"
    by (simp add: sample_node_def two_peers_at)
  ultimately show ?thesis
    by (intro wp_mono [OF bootstrap_request_served [where c = sample_register and
          ps = "[peer_b, peer_a]"]])
      (auto simp: wf_two_peers reg unexpired_def exp)
qed

text \<open>C40. With progress printed, a new peer whose name cannot be looked up (getnameinfo fails for
  any address family it does not know, and the family is the one the peer sent) is freed while
  it is still in the list; the request only reports FAILURE_NETWORK_FUNCTION, but the next
  registration, of whatever peer, reads the freed object.\<close>

theorem failed_lookup_leaves_freed_peer:
  assumes "peers_at bo h list ps" and "wf_peers ps" and "wf_peer p"
    and "\<forall>q \<in> set ps. listen_addr q \<noteq> listen_addr p"
    and "mallocs h = []" and "lookups h = False # bs"
  shows "\<exists>t. register_peer list True p h = (Fail FAILURE_NETWORK_FUNCTION, t) \<and>
    fst (register_peer list print q t) = Undefined"
proof -
  obtain l xs where l: "list_at h list l xs" "map snd xs = map Live ps"
    "compare_function l = Some (peer_compare bo)"
    using assms(1) by (auto simp: peers_at_def)
  have none: "first_match (peer_compare bo) (Live p) xs = None"
  proof (rule ccontr)
    assume "first_match (peer_compare bo) (Live p) xs \<noteq> None"
    then obtain a where "first_match (peer_compare bo) (Live p) xs = Some a" by blast
    from find_peer_Some [OF this l(2) assms(2,3)] assms(4) show False by auto
  qed
  have "alloc h = (Ok (), h\<lparr>mallocs := []\<rparr>)" using assms(5) by simp
  from prepend_at [OF l(1) this, of "Live p"] obtain u where
    u: "linked_list_prepend (Some list) (Some (Live p)) h = (Ok (), u)"
      "list_at u list (l\<lparr>head := Some (brk h)\<rparr>) ((brk h, Live p) # xs)"
    by blast
  have look: "lookups u = False # bs" using prepend_lookups [OF u(1)] assms(6) by simp
  let ?l = "l\<lparr>head := Some (brk h)\<rparr>"
  obtain r where n: "nodes u (brk h) = Some \<lparr>data = Live p, next_node = r\<rparr>" "path (nodes u) r xs None"
    and lst: "lists u list = Some ?l" "heap_ok u"
    using u(2) by (auto simp: list_at_def)
  define t where "t = u\<lparr>lookups := bs, nodes := (nodes u)(brk h \<mapsto> \<lparr>data = Freed, next_node = r\<rparr>)\<rparr>"
  have "brk h \<notin> fst ` set xs" by (rule path_head_notin [OF n(2,1)])
  then have "list_at t list ?l ((brk h, Freed) # xs)"
    using n lst by (auto simp: t_def list_at_def heap_ok_def)
  then have "fst (linked_list_find (Some list) (Some (Live q)) (Some None) t) = Undefined"
    by (rule find_freed) (use l(3) in simp)
  then have "fst (register_peer list print q t) = Undefined"
    by (auto simp: register_peer_def seq_def split: prod.split outcome.split)
  moreover have "register_peer list True p h = (Fail FAILURE_NETWORK_FUNCTION, t)"
    using n lst
    by (simp add: register_peer_def find_peer [OF l assms(2,3)] none u(1) seq_def attempt_def describe_peer_def getname_def look free_head_data_def load_list_def
        store_data_def t_def fail_def)
  ultimately show ?thesis by blast
qed

theorem failed_lookup_leaves_freed_peer_witness:
  "\<exists>t. register_peer 0 True (peer_of_command sample_register 7) (two_peers [False]) =
      (Fail FAILURE_NETWORK_FUNCTION, t) \<and> fst (register_peer 0 False peer_a t) = Undefined"
  by (rule failed_lookup_leaves_freed_peer [OF two_peers_at wf_two_peers
        wf_peer_of_command [OF sample_register_ok]])
    (auto simp: peer_a_def peer_b_def peer_of_command_def sample_register_def two_peers_def)


text \<open>C16. The bootstrap server as a whole: a server that listens, whatever number of peers visit it
  one after the other, each with a well-formed registration and a working connection, serves
  them all and ends with SUCCESS; the list in its heap is then the one that registering each
  peer and dropping the expired ones gives, in the order of the visits, and no two of its peers
  have the same address.\<close>

theorem bootstrap_server_serves_visits:
  assumes "\<forall>v \<in> set visits. visit_ok v" and "peers_at bo h (peer_info_list args) ps" and "wf_peers ps"
    and "no_oom h" and "print_progress args \<longrightarrow> False \<notin> set (lookups h)"
    and "length ps + length visits < 2 ^ 50 - 1"
  shows "\<exists>h'. run_thread (handle_peer_discovery_requests bo args True False True (map visit_event visits)) h =
      (Ok SUCCESS, h') \<and>
    peers_at bo h' (peer_info_list args) (foldl (served (peer_keepalive_microseconds args)) ps visits) \<and>
    wf_peers (foldl (served (peer_keepalive_microseconds args)) ps visits)"
  using accept_visits [OF assms, of "[]"]
  by (auto simp: handle_peer_discovery_requests_def run_server_thread)

definition sample_visit :: "u64 \<Rightarrow> visit" where
  "sample_visit now = (sample_register, toy_net [Received (wire_register_peer sample_register)] [], now, now)"

theorem bootstrap_server_serves_visits_witness:
  "\<exists>h'. run_thread (handle_peer_discovery_requests Little_Endian
      \<lparr>peer_keepalive_microseconds = 100000000, peer_info_list = 0, print_progress = False\<rparr> True False True
      (map visit_event [sample_visit 1050, sample_visit 1060])) (two_peers []) = (Ok SUCCESS, h') \<and>
    peers_at Little_Endian h' 0
      (foldl (served 100000000) [peer_b, peer_a] [sample_visit 1050, sample_visit 1060])"
proof -
  have "\<forall>v \<in> set [sample_visit 1050, sample_visit 1060]. visit_ok v"
    by (simp add: sample_visit_def sample_register_ok toy_net_def)
  from bootstrap_server_serves_visits [OF this, of Little_Endian "two_peers []"
      "\<lparr>peer_keepalive_microseconds = 100000000, peer_info_list = 0, print_progress = False\<rparr>"
      "[peer_b, peer_a]"] show ?thesis
    using two_peers_at [of "[]"] wf_two_peers by (auto simp: two_peers_def)
qed

end
