(* ===== verification/Discovery_Client.thy ===== *)
theory Discovery_Client
  imports Bootstrap_Server
begin

text \<open>
  src/peer_discovery_thread.c: a node registers with the bootstrap server and takes over the list
  of peers it answers with. Its threads share the list behind a mutex; the list is replaced as a
  whole, so it is kept as the sequence of its data.
\<close>

section \<open>State\<close>

record peer_book = env +
  known_peers :: "peer_info_t list"

section \<open>Operations\<close>

text \<open>The command before its length is set.\<close>

definition register_command :: "sockaddr_in6 \<Rightarrow> command_register_peer_t" where
  "register_command peer_addr =
     \<lparr>rp_header = \<lparr>command_prefix = COMMAND_PREFIX, command = command_code COMMAND_REGISTER_PEER,
        command_len = 0\<rparr>,
      rp_sin6_family = sin6_family peer_addr, rp_sin6_port = sin6_port peer_addr,
      rp_sin6_flowinfo = sin6_flowinfo peer_addr, rp_addr = take IN6_ADDR_BYTES (sin6_addr peer_addr),
      rp_sin6_scope_id = sin6_scope_id peer_addr\<rparr>"

text \<open>\<open>connected\<close>: whether socket and connect succeed. The mutex is taken a second time to print the
  list.\<close>

definition discover_peers_once ::
  "byte_order \<Rightarrow> bool \<Rightarrow> sockaddr_in6 \<Rightarrow> bool \<Rightarrow> bool \<Rightarrow> bool \<Rightarrow> bool \<Rightarrow> bool \<Rightarrow>
    (peer_book node, unit) prog" where
  "discover_peers_once bo verbose peer_addr connected locked unlocked locked_again unlocked_again =
     seq (require connected FAILURE_NETWORK_FUNCTION) (\<lambda>_.
     seq (on_conn (command_register_peer_serialize bo (Some (register_command peer_addr)) True True))
       (\<lambda>(_, send_buf, send_buf_size).
     seq (on_conn (send_all (Some send_buf) (unat send_buf_size))) (\<lambda>_.
     seq (on_conn (receive_message True bo COMMAND_SEND_PEER_LIST
       (\<lambda>buffer n. command_send_peer_list_deserialize bo True buffer n))) (\<lambda>command_send_peer_list.
     seq (on_conn (peer_info_list_deserialize bo True (Some (data_bytes command_send_peer_list))
       (data_len command_send_peer_list))) (\<lambda>new_peer_info_list.
     seq (require locked FAILURE_PTHREAD_FUNCTION) (\<lambda>_.
     seq (on_shared (modify (\<lambda>s. s\<lparr>known_peers := new_peer_info_list\<rparr>))) (\<lambda>_.
     seq (require unlocked FAILURE_PTHREAD_FUNCTION) (\<lambda>_.
     if verbose then
       seq (require locked_again FAILURE_PTHREAD_FUNCTION) (\<lambda>_.
       require unlocked_again FAILURE_PTHREAD_FUNCTION)
     else ret ()))))))))"

text \<open>The loop of the thread: each attempt has a connection, the results of the other calls, and
  the flag after the pause that follows; at the end of the list it is set.\<close>

fun discovery_loop ::
  "('p \<Rightarrow> ('x node, unit) prog) \<Rightarrow> return_code_t \<Rightarrow> (net \<times> 'p \<times> bool) list \<Rightarrow> ('x, return_code_t) prog" where
  "discovery_loop once return_code [] x = (Ok return_code, x)"
| "discovery_loop once return_code ((connection, param, stop) # attempts) x =
     (case once param \<lparr>conn = connection, shared = x\<rparr> of
        (Undefined, n) \<Rightarrow> (Undefined, shared n)
      | (Diverges, n) \<Rightarrow> (Diverges, shared n)
      | (Ok v, n) \<Rightarrow>
          if stop then (Ok SUCCESS, shared n) else discovery_loop once SUCCESS attempts (shared n)
      | (Fail c, n) \<Rightarrow>
          if stop then (Ok c, shared n) else discovery_loop once c attempts (shared n))"

definition discover_peers ::
  "byte_order \<Rightarrow> bool \<Rightarrow> sockaddr_in6 \<Rightarrow> bool \<Rightarrow> (net \<times> (bool \<times> bool \<times> bool \<times> bool \<times> bool) \<times> bool) list \<Rightarrow>
    (peer_book thread, return_code_t) prog" where
  "discover_peers bo verbose peer_addr should_stop attempts =
     seq (in_work (if should_stop then ret SUCCESS
          else discovery_loop (\<lambda>(connected, locked, unlocked, locked_again, unlocked_again).
            discover_peers_once bo verbose peer_addr connected locked unlocked locked_again unlocked_again)
            SUCCESS attempts))
       (end_thread malloc)"

lemma discovery_loop_not_Fail: "discovery_loop once c attempts x \<noteq> (Fail e, y)"
  by (induction once c attempts x rule: discovery_loop.induct) (auto split: prod.splits outcome.splits)

lemma announces_discover_peers: "announces_exit (discover_peers bo verbose peer_addr should_stop attempts)"
  unfolding discover_peers_def
proof (rule announces_exitI)
  let ?once = "\<lambda>(connected, locked, unlocked, locked_again, unlocked_again).
    discover_peers_once bo verbose peer_addr connected locked unlocked locked_again unlocked_again"
  show "whenever (if should_stop then ret SUCCESS else discovery_loop ?once SUCCESS attempts)
      (\<lambda>_ _. True) (\<lambda>_ _. False) x" for x
    by (auto simp: whenever_def ret_def discovery_loop_not_Fail split: prod.split outcome.split)
qed simp

section \<open>What arrives at the server\<close>

definition registration :: "sockaddr_in6 \<Rightarrow> command_register_peer_t" where
  "registration peer_addr = (register_command peer_addr)
     \<lparr>rp_header := (rp_header (register_command peer_addr))\<lparr>command_len := of_nat REGISTER_PEER_SIZE\<rparr>\<rparr>"

lemma registration_ok:
  "length (sin6_addr a) = IN6_ADDR_BYTES \<Longrightarrow> register_peer_ok (registration a)"
  by (simp add: register_peer_ok_def registration_def register_command_def IN6_ADDR_SIZE_def
      IN6_ADDR_BYTES_def)

lemma peer_of_registration:
  "length (sin6_addr a) = IN6_ADDR_BYTES \<Longrightarrow>
    peer_of_command (registration a) now = \<lparr>listen_addr = a, last_connected = now\<rparr>"
  by (simp add: peer_of_command_def registration_def register_command_def IN6_ADDR_BYTES_def)

lemma serialize_register_command:
  "command_register_peer_serialize bo (Some (register_command a)) True True =
   command_register_peer_serialize bo (Some (registration a)) True True"
  by (simp add: command_register_peer_serialize_def registration_def register_command_def)

lemma wp_register:
  assumes "length (sin6_addr a) = IN6_ADDR_BYTES" and "no_oom s" and "None \<notin> set (sends s)"
  shows "wp (seq (command_register_peer_serialize bo (Some (register_command a)) True True)
      (\<lambda>(_, send_buf, n). send_all (Some send_buf) (unat n)))
    (\<lambda>_ t. sent t = sent s @ wire_register_peer (registration a) \<and> recvs t = recvs s \<and> no_oom t)
    (\<lambda>_ _. False) (s :: net)"
proof (rule wp_seqI, unfold serialize_register_command,
    rule wp_mono [OF wp_command_register_peer_serialize [OF registration_ok [OF assms(1)]]], goal_cases)
  case (1 v t)
  then obtain c n where v: "v = (c, wire_register_peer (registration a), n)"
    "unat n = length (wire_register_peer (registration a))" and t: "alloc_step s t"
    by (cases v) auto
  have "sent t = sent s" "recvs t = recvs s" "sends t = sends s" "no_oom t"
    using t alloc_step_no_oom [OF t assms(2)] by (auto simp: alloc_step_def)
  then show ?case
    using assms(3) by (auto simp: v no_oom_def intro!: wp_mono [OF wp_send_all])
qed (use assms in auto)

section \<open>What the client takes over\<close>

lemma wp_discover_peers_once:
  assumes "length (sin6_addr a) = IN6_ADDR_BYTES" and "no_oom (conn n)" and "None \<notin> set (sends (conn n))"
    and "wf_peers qs" and "length qs < 2 ^ 50"
    and "arriving (conn n) = wire_data (message COMMAND_SEND_PEER_LIST (wire_peers qs)) @ later"
  shows "wp (discover_peers_once bo verbose a True True True True True)
    (\<lambda>_ t. shared t = (shared n)\<lparr>known_peers := qs\<rparr> \<and>
       sent (conn t) = sent (conn n) @ wire_register_peer (registration a)) (\<lambda>_ _. False) n"
proof -
  let ?c = "message COMMAND_SEND_PEER_LIST (wire_peers qs)"
  let ?rest = "seq (on_conn (receive_message True bo COMMAND_SEND_PEER_LIST
       (\<lambda>buffer n. command_send_peer_list_deserialize bo True buffer n))) (\<lambda>command_send_peer_list.
     seq (on_conn (peer_info_list_deserialize bo True (Some (data_bytes command_send_peer_list))
       (data_len command_send_peer_list))) (\<lambda>new_peer_info_list.
     seq (require True FAILURE_PTHREAD_FUNCTION) (\<lambda>_.
     seq (on_shared (modify (\<lambda>s. s\<lparr>known_peers := new_peer_info_list\<rparr>))) (\<lambda>_.
     seq (require True FAILURE_PTHREAD_FUNCTION) (\<lambda>_.
     if verbose then
       seq (require True FAILURE_PTHREAD_FUNCTION) (\<lambda>_.
       require True FAILURE_PTHREAD_FUNCTION)
     else ret ()))))) :: (peer_book node, unit) prog"
  have wf: "\<forall>p \<in> set qs. wf_peer p" using assms(4) by (simp add: wf_peers_def)
  have len: "length (wire_peers qs) < 2 ^ 62"
    using assms(5) by (simp add: length_wire_peers [OF wf])
  then have size: "unat (of_nat (length (wire_peers qs)) :: u64) = length (wire_peers qs)"
    by (simp add: unsigned_of_nat take_bit_eq_mod)
  have read: "wp (peer_info_list_deserialize bo True (Some (wire_peers qs)) (of_nat (length (wire_peers qs))))
      (\<lambda>v u. v = qs \<and> alloc_step t u) (\<lambda>_ _. False) t" if "no_oom t" for t :: net
    by (rule wp_mono [OF wp_frame [OF wp_peer_info_list_deserialize [OF wf] peer_info_list_deserialize_frame]])
      (use that in \<open>auto simp: size sits_0\<close>)
  have "data_ok COMMAND_SEND_PEER_LIST ?c" by (rule message_ok [OF len])
  note receive = peer_list_codec.receive_wire [OF this]
  have rest: "wp ?rest (\<lambda>_ t. shared t = (shared m)\<lparr>known_peers := qs\<rparr> \<and> sent (conn t) = sent (conn m)) (\<lambda>_ _. False) m"
    if "arriving (conn m) = wire_data ?c @ later" "no_oom (conn m)" for m
  proof (rule wp_seqI, unfold wp_on_conn, rule wp_mono [OF receive [OF that]], goal_cases)
    case (1 v t)
    then have v: "v = ?c" "no_oom t" "sent t = sent (conn m)" by auto
    show ?case
      unfolding v(1) message_def command_data_t.simps
      by (rule wp_seqI, unfold wp_on_conn conn_conn, rule wp_mono [OF read [OF v(2)]])
        (use v in \<open>auto simp: alloc_step_def\<close>)
  qed simp
  have "discover_peers_once bo verbose a True True True True True =
      seq (on_conn (seq (command_register_peer_serialize bo (Some (register_command a)) True True)
        (\<lambda>(_, send_buf, n). send_all (Some send_buf) (unat n)))) (\<lambda>_. ?rest)"
    by (simp add: discover_peers_once_def on_conn_seq seq_assoc split_def)
  moreover have "wp (seq (on_conn (seq (command_register_peer_serialize bo (Some (register_command a)) True True)
        (\<lambda>(_, send_buf, n). send_all (Some send_buf) (unat n)))) (\<lambda>_. ?rest))
    (\<lambda>_ t. shared t = (shared n)\<lparr>known_peers := qs\<rparr> \<and>
       sent (conn t) = sent (conn n) @ wire_register_peer (registration a)) (\<lambda>_ _. False) n"
  proof (rule wp_seqI, unfold wp_on_conn, rule wp_mono [OF wp_register [OF assms(1-3)]], goal_cases)
    case (1 v t)
    then show ?case by (intro wp_mono [OF rest]) (use assms(6) in auto)
  qed simp
  ultimately show ?thesis by simp
qed

section \<open>The loop\<close>

type_synonym discovery_attempt = "net \<times> (bool \<times> bool \<times> bool \<times> bool \<times> bool) \<times> bool"

text \<open>An attempt to register finds the server out of reach, or the connection works and what arrives is
  the server's answer with the list \<open>qs\<close>.\<close>

definition answered :: "discovery_attempt \<Rightarrow> peer_info_t list option \<Rightarrow> bool" where
  "answered = (\<lambda>(c, (connected, mutexes), stop) answer.
     case answer of
       None \<Rightarrow> \<not> connected
     | Some qs \<Rightarrow> connected \<and> mutexes = (True, True, True, True) \<and> no_oom c \<and> None \<notin> set (sends c) \<and>
         wf_peers qs \<and> length qs < 2 ^ 50 \<and>
         arriving c = wire_data (message COMMAND_SEND_PEER_LIST (wire_peers qs)))"

definition asked_to_stop :: "discovery_attempt \<Rightarrow> bool" where
  "asked_to_stop = (\<lambda>(c, param, stop). stop)"

definition attempt_code :: "peer_info_t list option \<Rightarrow> return_code_t" where
  "attempt_code answer = (if answer = None then FAILURE_NETWORK_FUNCTION else SUCCESS)"

text \<open>The lists of the answers, in the order of the attempts.\<close>

abbreviation lists_received :: "peer_info_t list option list \<Rightarrow> peer_info_t list list" where
  "lists_received answers \<equiv> map the (filter (\<lambda>answer. answer \<noteq> None) answers)"

abbreviation attempt_once ::
  "byte_order \<Rightarrow> bool \<Rightarrow> sockaddr_in6 \<Rightarrow> bool \<times> bool \<times> bool \<times> bool \<times> bool \<Rightarrow> (peer_book node, unit) prog" where
  "attempt_once bo verbose a \<equiv> (\<lambda>(connected, locked, unlocked, locked_again, unlocked_again).
     discover_peers_once bo verbose a connected locked unlocked locked_again unlocked_again)"

lemma attempt_out_of_reach:
  "attempt_once bo verbose a (False, mutexes) n = (Fail FAILURE_NETWORK_FUNCTION, n)"
  by (cases mutexes) (simp add: discover_peers_once_def require_def seq_def prog_basic)

lemma attempt_served:
  assumes "length (sin6_addr a) = IN6_ADDR_BYTES" and "answered (c, param, stop) (Some qs)"
  shows "\<exists>v t. attempt_once bo verbose a param \<lparr>conn = c, shared = b\<rparr> = (Ok v, t) \<and>
    shared t = b\<lparr>known_peers := qs\<rparr>"
  using wp_discover_peers_once [OF assms(1), of "\<lparr>conn = c, shared = b\<rparr>" qs "[]" bo verbose] assms(2)
  by (cases param) (auto simp: answered_def wp_Ok_iff)

lemma discovery_loop_answers:
  assumes "length (sin6_addr a) = IN6_ADDR_BYTES" and "list_all2 answered attempts answers" and "attempts \<noteq> []"
    and "\<forall>v \<in> set (butlast attempts). \<not> asked_to_stop v" and "later = [] \<or> asked_to_stop (last attempts)"
  shows "discovery_loop (attempt_once bo verbose a) code (attempts @ later) b =
    (Ok (attempt_code (last answers)), b\<lparr>known_peers := last (known_peers b # lists_received answers)\<rparr>)"
  using assms(2-5)
proof (induction attempts arbitrary: answers code b)
  case (Cons v attempts)
  obtain answer rest where ans: "answers = answer # rest" "answered v answer" "list_all2 answered attempts rest"
    using Cons.prems(1) by (auto simp: list_all2_Cons1)
  obtain c param stop where v: "v = (c, param, stop)" by (cases v)
  let ?b = "b\<lparr>known_peers := case answer of None \<Rightarrow> known_peers b | Some qs \<Rightarrow> qs\<rparr>"
  let ?next = "if stop then (Ok (attempt_code answer), ?b)
    else discovery_loop (attempt_once bo verbose a) (attempt_code answer) (attempts @ later) ?b"
  have one: "discovery_loop (attempt_once bo verbose a) code ((v # attempts) @ later) b = ?next"
  proof (cases answer)
    case None
    then obtain mutexes where "param = (False, mutexes)" using ans(2) v by (cases param) (auto simp: answered_def)
    then show ?thesis
      using attempt_out_of_reach [of bo verbose a mutexes "\<lparr>conn = c, shared = b\<rparr>"] None
      by (simp add: v attempt_code_def)
  next
    case (Some qs)
    then obtain u t where "attempt_once bo verbose a param \<lparr>conn = c, shared = b\<rparr> = (Ok u, t)"
      "shared t = b\<lparr>known_peers := qs\<rparr>"
      using attempt_served [OF assms(1)] ans(2) v by blast
    then show ?thesis using Some by (simp add: v attempt_code_def)
  qed
  have received: "last (known_peers ?b # lists_received rest) = last (known_peers b # lists_received answers)"
    by (cases answer) (simp_all add: ans(1))
  show ?case
  proof (cases "attempts = []")
    case True
    then have "rest = []" using ans(3) by simp
    then show ?thesis
      using one received Cons.prems(4) True by (cases answer) (auto simp: ans(1) v asked_to_stop_def)
  next
    case False
    then have "\<not> stop" "rest \<noteq> []" using Cons.prems(3) ans(3) v by (auto simp: asked_to_stop_def)
    then have "discovery_loop (attempt_once bo verbose a) code ((v # attempts) @ later) b =
        (Ok (attempt_code (last rest)), ?b\<lparr>known_peers := last (known_peers ?b # lists_received rest)\<rparr>)"
      using one Cons.IH [OF ans(3) False] Cons.prems(3,4) False by simp
    then show ?thesis using received \<open>rest \<noteq> []\<close> by (simp add: ans(1))
  qed
qed simp

section \<open>Properties\<close>

text \<open>C20. The discovery thread takes over what the servers answer. Whichever of its attempts find the
  server out of reach, and whatever lists of peers the others are answered with, the thread goes
  on until it is asked to stop and returns; then its list is that of the last answer, or the
  list it started with if there was none, and its code is SUCCESS if the last attempt was
  answered and FAILURE_NETWORK_FUNCTION if not.\<close>

theorem discovery_takes_last_answer:
  assumes "length (sin6_addr a) = IN6_ADDR_BYTES" and "no_oom b" and "list_all2 answered attempts answers"
    and "attempts \<noteq> []" and "\<forall>v \<in> set (butlast attempts). \<not> asked_to_stop v"
    and "later = [] \<or> asked_to_stop (last attempts)"
  shows "\<exists>b'. run_thread (discover_peers bo verbose a False (attempts @ later)) b =
      (Ok (if last answers = None then FAILURE_NETWORK_FUNCTION else SUCCESS), b') \<and>
    known_peers b' = last (known_peers b # lists_received answers)"
proof -
  let ?u = "b\<lparr>known_peers := last (known_peers b # lists_received answers)\<rparr>"
  have "no_oom ?u" using assms(2) by (simp add: no_oom_def)
  then have "wp malloc (\<lambda>ok t. ok \<and> alloc_step ?u t) (\<lambda>_ _. False) ?u"
    by (intro wp_mallocI) simp
  then obtain t where t: "malloc ?u = (Ok True, t)" "alloc_step ?u t" by (auto simp: wp_Ok_iff)
  have "run_thread (discover_peers bo verbose a False (attempts @ later)) b = (Ok (attempt_code (last answers)), t)"
    using discovery_loop_answers [OF assms(1,3-6), of bo verbose SUCCESS b] t(1)
    by (simp add: run_thread_def discover_peers_def end_thread_def in_work_def announced_def seq_def prog_basic)
  moreover have "known_peers t = last (known_peers b # lists_received answers)"
    using t(2) by (auto simp: alloc_step_def)
  ultimately show ?thesis by (simp add: attempt_code_def)
qed

theorem discovery_takes_last_answer_witness:
  "\<exists>b. run_thread (discover_peers Little_Endian True (listen_addr peer_b) False
      [(toy_net [Received (wire_data (message COMMAND_SEND_PEER_LIST (wire_peers [peer_b, peer_a])))] [Some 7],
          (True, True, True, True, True), False),
       (toy_net [] [], (False, True, True, True, True), True)])
      \<lparr>mallocs = [True], known_peers = []\<rparr> = (Ok FAILURE_NETWORK_FUNCTION, b) \<and>
    known_peers b = [peer_b, peer_a]"
proof -
  let ?c = "toy_net [Received (wire_data (message COMMAND_SEND_PEER_LIST (wire_peers [peer_b, peer_a])))] [Some 7]"
  have "list_all2 answered [(?c, (True, True, True, True, True), False), (toy_net [] [], (False, True, True, True, True), True)]
      [Some [peer_b, peer_a], None]"
    using wf_two_peers by (simp add: answered_def toy_net_def no_oom_def)
  from discovery_takes_last_answer [OF _ _ this, of "listen_addr peer_b" "\<lparr>mallocs = [True], known_peers = []\<rparr>" "[]"
      Little_Endian True]
  show ?thesis using wf_peer_samples by (simp add: wf_peer_def no_oom_def asked_to_stop_def)
qed

text \<open>C17. Peer discovery end to end: when each side receives what the other sends, the server has
  registered the node under the address it gave, expired the silent peers, and answered with its
  list, and the node's list is exactly the server's, in the same order; the node itself is in it
  unless it has expired already. Both sides return SUCCESS.\<close>

theorem discovered_peers_are_the_servers:
  assumes "length (sin6_addr a) = IN6_ADDR_BYTES" and "no_oom (conn client)" and "None \<notin> set (sends (conn client))"
    and "resources_ok (print_progress args) server"
    and "peers_at bo (shared server) (peer_info_list args) ps" and "wf_peers ps" and "length ps < 2 ^ 50 - 2"
    and "qs = unexpired now2 (peer_keepalive_microseconds args)
      (registered \<lparr>listen_addr = a, last_connected = now1\<rparr> ps)"
    and "arriving (conn server) = wire_register_peer (registration a)"
    and "arriving (conn client) = wire_data (message COMMAND_SEND_PEER_LIST (wire_peers qs))"
  shows "wp (discover_peers_once bo' verbose a True True True True True)
      (\<lambda>_ t. known_peers (shared t) = qs \<and> sent (conn t) = sent (conn client) @ arriving (conn server))
      (\<lambda>_ _. False) client \<and>
    wp (handle_one_peer_discovery_request bo args now1 now2 None None)
      (\<lambda>_ t. peers_at bo (shared t) (peer_info_list args) qs \<and>
         sent (conn t) = sent (conn server) @ arriving (conn client)) (\<lambda>_ _. False) server \<and>
    ((\<exists>p \<in> set qs. listen_addr p = a \<and> last_connected p = now1) \<or>
     (\<exists>p. listen_addr p = a \<and> last_connected p = now1 \<and>
        peer_expired now2 (peer_keepalive_microseconds args) p))"
proof (intro conjI)
  let ?p = "\<lparr>listen_addr = a, last_connected = now1\<rparr>"
  have p: "peer_of_command (registration a) now1 = ?p" by (rule peer_of_registration [OF assms(1)])
  have "request_ok server (registration a)"
    using assms(9) registration_ok [OF assms(1)] by (simp add: request_ok_def)
  note serve = wp_handle_request [OF this assms(4-6), of now1 now2, unfolded p, folded assms(8)]
  have qs: "wf_peers qs" "length qs < 2 ^ 50"
    using assms(1,6,7) length_registered [of ?p ps]
      length_unexpired [of now2 "peer_keepalive_microseconds args" "registered ?p ps"]
    by (auto simp: assms(8) wf_peer_def intro!: wf_peers_unexpired wf_peers_registered)
  show "wp (discover_peers_once bo' verbose a True True True True True)
      (\<lambda>_ t. known_peers (shared t) = qs \<and> sent (conn t) = sent (conn client) @ arriving (conn server))
      (\<lambda>_ _. False) client"
    by (rule wp_mono [OF wp_discover_peers_once [OF assms(1-3) qs, where later = "[]"]])
      (use assms(9,10) in auto)
  show "wp (handle_one_peer_discovery_request bo args now1 now2 None None)
      (\<lambda>_ t. peers_at bo (shared t) (peer_info_list args) qs \<and>
         sent (conn t) = sent (conn server) @ arriving (conn client)) (\<lambda>_ _. False) server"
    by (rule wp_mono [OF serve]) (use assms(7,10) in \<open>simp_all add: Let_def\<close>)
  obtain r where "r \<in> set (registered ?p ps)" "listen_addr r = a" "last_connected r = now1"
    using registered_seen [of ?p ps] by auto
  then show "(\<exists>p \<in> set qs. listen_addr p = a \<and> last_connected p = now1) \<or>
     (\<exists>p. listen_addr p = a \<and> last_connected p = now1 \<and>
        peer_expired now2 (peer_keepalive_microseconds args) p)"
    by (auto simp: assms(8) unexpired_def)
qed


theorem discovered_peers_are_the_servers_witness:
  "wp (discover_peers_once Big_Endian True (listen_addr peer_b) True True True True True)
     (\<lambda>_ t. known_peers (shared t) = [\<lparr>listen_addr = listen_addr peer_b, last_connected = 1050\<rparr>, peer_a])
     (\<lambda>_ _. False)
     \<lparr>conn = toy_net [Received (wire_data (message COMMAND_SEND_PEER_LIST
         (wire_peers [\<lparr>listen_addr = listen_addr peer_b, last_connected = 1050\<rparr>, peer_a])))] [Some 7],
       shared = \<lparr>mallocs = [], known_peers = []\<rparr>\<rparr>"
proof -
  let ?qs = "[\<lparr>listen_addr = listen_addr peer_b, last_connected = 1050\<rparr>, peer_a]"
  let ?args = "\<lparr>peer_keepalive_microseconds = 100000000, peer_info_list = 0, print_progress = False\<rparr>"
  let ?server = "\<lparr>conn = toy_net [Received (wire_register_peer (registration (listen_addr peer_b)))] [],
    shared = two_peers []\<rparr>"
  let ?client = "\<lparr>conn = toy_net [Received (wire_data (message COMMAND_SEND_PEER_LIST (wire_peers ?qs)))] [Some 7],
     shared = \<lparr>mallocs = [], known_peers = []\<rparr>\<rparr>"
  have qs: "?qs = unexpired 1050 (peer_keepalive_microseconds ?args)
      (registered \<lparr>listen_addr = listen_addr peer_b, last_connected = 1050\<rparr> [peer_b, peer_a])"
    by (simp add: registered_def unexpired_def peer_expired_def peer_a_def peer_b_def)
  have "length (sin6_addr (listen_addr peer_b)) = IN6_ADDR_BYTES"
    using wf_peer_samples by (simp add: wf_peer_def)
  from discovered_peers_are_the_servers [OF this _ _ _ _ wf_two_peers _ qs, of ?client ?server Little_Endian
      Big_Endian True] two_peers_at [of "[]"]
  show ?thesis by (auto simp: toy_net_def resources_ok_def two_peers_def elim: wp_mono)
qed

end
