(* ===== verification/Client_Program.thy ===== *)
theory Client_Program
  imports Discovery_Client Process
begin

text \<open>
  src/peer_discovery_client.c: the program that registers an address with the bootstrap server and
  prints the peers it learns. Nothing ever sets its \<open>should_stop\<close>: the attempts are those up to
  the moment it would be set.
\<close>

section \<open>Operations\<close>

definition print_usage_statement :: "string list \<Rightarrow> ('x process, unit) prog" where
  "print_usage_statement argv =
     (case argv of
        [] \<Rightarrow> ret ()
      | program_name # _ \<Rightarrow>
          print_err (''Usage: '' @ program_name @
            '' [server_ipv6_address] [server_port] [peer_ipv6_address] [peer_port] '' @
            ''-i [communication_interval_seconds]'' @ [CHR 0x0A]))"

fun client_options :: "string list \<Rightarrow> (char \<times> string) list \<Rightarrow> u64 \<Rightarrow> ('x process, u64) prog" where
  "client_options argv [] interval_seconds = ret interval_seconds"
| "client_options argv ((opt, optarg) # options) interval_seconds =
     (if opt = CHR ''i'' then client_options argv options (u64_argument optarg)
      else
        seq (print_usage_statement argv) (\<lambda>_. fail FAILURE_INVALID_COMMAND_LINE_ARGS))"

text \<open>The pointer to the list is allocated first; the list of a thread is a sequence, as in
  Discovery_Client.\<close>

definition create_peer_list :: "(peer_book process, unit) prog" where
  "create_peer_list =
     seq (in_memory malloc) (\<lambda>ok.
     if \<not> ok then fail FAILURE_INVALID_INPUT
     else seq (in_memory ll_create) (\<lambda>ps. in_memory (modify (\<lambda>b. b\<lparr>known_peers := ps\<rparr>))))"

definition destroy_peer_list :: "(peer_book process, unit) prog" where
  "destroy_peer_list = in_memory (modify (\<lambda>b. b\<lparr>known_peers := []\<rparr>))"

definition discovery_client_main ::
  "platform \<Rightarrow> byte_order \<Rightarrow> (net \<times> (bool \<times> bool \<times> bool \<times> bool \<times> bool) \<times> bool) list \<Rightarrow> string list \<Rightarrow>
    (peer_book process, nat) prog" where
  "discovery_client_main pf bo attempts argv =
     exit_status
       (if length argv < 4 + 1 then
          seq (print_usage_statement argv) (\<lambda>_. fail FAILURE_INVALID_COMMAND_LINE_ARGS)
        else
          seq (client_options argv (getopt pf (drop 4 argv) ''i:'') DEFAULT_COMMUNICATION_INTERVAL_SECONDS)
            (\<lambda>interval_seconds.
          seq (discovery_arguments pf bo (argv ! 1, u16_argument (argv ! 2)) ''peer''
            (argv ! 3, u16_argument (argv ! 4)) interval_seconds) (\<lambda>args.
          seq create_peer_list (\<lambda>_.
          seq pthread_call (\<lambda>result.
          if result \<noteq> 0 then seq destroy_peer_list (\<lambda>_. fail FAILURE_PTHREAD_FUNCTION)
          else
            seq pthread_checked (\<lambda>_.
            seq pthread_checked (\<lambda>_.
            seq (in_memory (run_thread (discover_peers bo True (peer_addr args) False attempts))) (\<lambda>return_code.
            seq destroy_peer_list (\<lambda>_.
            ret (enumerator return_code))))))))))"

section \<open>The options\<close>

lemma wp_print_client_usage:
  "wp (print_usage_statement argv) (\<lambda>_ t. memory t = memory s \<and> pthreads t = pthreads s) (\<lambda>_ _. False) s"
  by (simp add: print_usage_statement_def split: list.split)

lemma client_options_ok:
  "\<forall>(c, v) \<in> set options. c = CHR ''i'' \<Longrightarrow>
    client_options argv options i = ret (case option_value CHR ''i'' options of None \<Rightarrow> i | Some v \<Rightarrow> u64_argument v)"
  by (induction argv options i rule: client_options.induct) (auto split: option.split)

lemma client_options_bad:
  "\<exists>(c, v) \<in> set options. c \<noteq> CHR ''i'' \<Longrightarrow>
    wp (client_options argv options i) (\<lambda>_ _. False)
      (\<lambda>c t. c = FAILURE_INVALID_COMMAND_LINE_ARGS \<and> memory t = memory s) s"
  by (induction argv options i rule: client_options.induct)
    (auto split: if_splits intro!: wp_mono [OF wp_print_client_usage])

text \<open>The command lines the program rejects.\<close>

definition client_command_line_bad :: "platform \<Rightarrow> string list \<Rightarrow> bool" where
  "client_command_line_bad pf argv \<longleftrightarrow> length argv < 5 \<or>
     (\<exists>(c, v) \<in> set (getopt pf (drop 4 argv) ''i:''). c \<noteq> CHR ''i'') \<or>
     inet_pton pf (argv ! 1) = None \<or> inet_pton pf (argv ! 3) = None"

lemma client_rejects:
  assumes "client_command_line_bad pf argv"
  shows "wp (discovery_client_main pf bo attempts argv)
    (\<lambda>status t. status = enumerator FAILURE_INVALID_COMMAND_LINE_ARGS \<and> memory t = memory s) (\<lambda>_ _. False) s"
proof (cases "length argv < 4 + 1")
  case True
  then show ?thesis by (auto simp: discovery_client_main_def intro!: wp_mono [OF wp_print_client_usage])
next
  case False
  let ?options = "getopt pf (drop 4 argv) ''i:''"
  show ?thesis
  proof (cases "\<exists>(c, v) \<in> set ?options. c \<noteq> CHR ''i''")
    case True
    then show ?thesis
      using False by (auto simp: discovery_client_main_def intro!: wp_mono [OF client_options_bad [OF True]])
  next
    case ok: False
    then have "\<forall>(c, v) \<in> set ?options. c = CHR ''i''" by auto
    then show ?thesis
      using False ok assms
      by (auto simp: discovery_client_main_def client_options_ok client_command_line_bad_def
          discovery_arguments_def address_argument_def split: option.split)
  qed
qed

end
