(* ===== verification/Bootstrap_Program.thy ===== *)
theory Bootstrap_Program
  imports Bootstrap_Server Process
begin

text \<open>
  src/peer_discovery_bootstrap_server.c: the program that creates the list of peers, serves it with
  the server thread's function, and destroys it. Nothing ever sets its \<open>should_stop\<close>, so it serves
  until a call on the listening socket fails: \<open>events\<close> is what happens before a poll that does.
\<close>

section \<open>Operations\<close>

definition DEFAULT_PEER_KEEPALIVE_SECONDS :: nat where
  "DEFAULT_PEER_KEEPALIVE_SECONDS = 60"

definition unstopped ::
  "'p poll_event list \<Rightarrow> ('p poll_event \<times> bool) list" where
  "unstopped events = map (\<lambda>event. (event, False)) (events @ [Poll_Error])"

text \<open>\<open>listen_on\<close>: whether a socket can be made to listen on an address; \<open>allocated\<close>: whether the
  malloc of the code that the thread function returns succeeds.\<close>

definition run_peer_discovery_bootstrap_server ::
  "platform \<Rightarrow> byte_order \<Rightarrow> (sockaddr_in6 \<Rightarrow> bool) \<Rightarrow> bool \<Rightarrow>
    (u64 \<times> u64 \<times> return_code_t option \<times> return_code_t option) poll_event list \<Rightarrow> u16 \<Rightarrow>
    (discovery process, unit) prog" where
  "run_peer_discovery_bootstrap_server pf bo listen_on allocated events port =
     (let server_addr = socket_address pf bo (replicate IN6_ADDR_BYTES 0) port;
          keepalive = of_nat (double_of_nat (DEFAULT_PEER_KEEPALIVE_SECONDS * 1000000)) in
      seq (in_memory (linked_list_create True (Some Free) (Some (peer_compare bo)))) (\<lambda>list.
      seq pthread_call (\<lambda>result.
      if result \<noteq> 0 then
        seq (in_memory (attempt (linked_list_destroy (Some list)))) (\<lambda>_. fail FAILURE_PTHREAD_FUNCTION)
      else
        seq pthread_checked (\<lambda>_.
        seq pthread_checked (\<lambda>_.
        seq (in_memory (run_thread (handle_peer_discovery_requests bo
          \<lparr>peer_keepalive_microseconds = keepalive, peer_info_list = list, print_progress = True\<rparr>
          (listen_on server_addr) False allocated (unstopped events)))) (\<lambda>return_code.
        seq (in_memory (attempt (linked_list_destroy (Some list)))) (\<lambda>_.
        if return_code = SUCCESS then ret () else fail return_code)))))))"

definition bootstrap_server_main ::
  "platform \<Rightarrow> byte_order \<Rightarrow> (sockaddr_in6 \<Rightarrow> bool) \<Rightarrow> bool \<Rightarrow>
    (u64 \<times> u64 \<times> return_code_t option \<times> return_code_t option) poll_event list \<Rightarrow> string list \<Rightarrow>
    (discovery process, nat) prog" where
  "bootstrap_server_main pf bo listen_on allocated events argv =
     exit_status
       (if length argv \<noteq> 2 then
          (case argv of
             [] \<Rightarrow> undef
           | program_name # _ \<Rightarrow>
               seq (print_err (''Usage: '' @ program_name @ '' [port]'' @ [CHR 0x0A])) (\<lambda>_.
               fail FAILURE_INVALID_COMMAND_LINE_ARGS))
        else
          seq (run_peer_discovery_bootstrap_server pf bo listen_on allocated events
            (u16_argument (argv ! 1))) (\<lambda>_. ret (enumerator SUCCESS)))"

section \<open>From an empty list to its destruction\<close>

lemma alloc_no_oom: "no_oom h \<Longrightarrow> \<exists>bs. alloc h = (Ok (), h\<lparr>mallocs := bs\<rparr>) \<and> no_oom (h\<lparr>mallocs := bs\<rparr>)"
proof (cases rule: alloc_cases [of h])
  case (1 bs)
  then show "no_oom h \<Longrightarrow> ?thesis" using alloc_step_no_oom [OF alloc_eq_Ok] by blast
qed (auto simp: alloc_def malloc_def seq_def no_oom_def prog_basic split: list.splits)

lemma create_peers:
  assumes "heap_ok h" and "no_oom h"
  shows "\<exists>t. linked_list_create True (Some Free) (Some (peer_compare bo)) h = (Ok (brk h), t) \<and>
    peers_at bo t (brk h) [] \<and> no_oom t \<and> lookups t = lookups h \<and> freed t = freed h"
proof -
  obtain bs where bs: "alloc h = (Ok (), h\<lparr>mallocs := bs\<rparr>)" "no_oom (h\<lparr>mallocs := bs\<rparr>)"
    using alloc_no_oom [OF assms(2)] by blast
  let ?l = "\<lparr>free_function = Free, compare_function = Some (peer_compare bo), head = None\<rparr>"
  let ?t = "h\<lparr>mallocs := bs, lists := (lists h)(brk h \<mapsto> ?l), brk := Suc (brk h)\<rparr>"
  have "linked_list_create True (Some Free) (Some (peer_compare bo)) h = (Ok (brk h), ?t)"
    using bs(1) by (simp add: linked_list_create_def seq_Ok new_list_def)
  moreover have "peers_at bo ?t (brk h) []"
    using assms(1) unfolding peers_at_def
    by (intro exI [of _ ?l] exI [of _ "[]"]) (simp add: list_at_def heap_ok_def)
  ultimately show ?thesis using bs(2) by (auto simp: no_oom_def)
qed

lemma destroy_peers:
  assumes "peers_at bo h list ps"
  shows "\<exists>t. linked_list_destroy (Some list) h = (Ok (), t) \<and> lists t list = None \<and>
    freed t = freed h @ map (\<lambda>p. (Free, Live p)) ps"
proof -
  obtain l xs where l: "list_at h list l xs" "map snd xs = map Live ps" "free_function l = Free"
    using assms by (auto simp: peers_at_def)
  have "map (\<lambda>x. (free_function l, snd x)) xs = map (\<lambda>p. (Free, Live p)) ps"
    using arg_cong [OF l(2), of "map (Pair Free)"] by (simp add: l(3) comp_def)
  then show ?thesis using destroy_at [OF l(1)] by auto
qed

lemma unstopped_visits:
  "unstopped (map (fst \<circ> visit_event) visits) = map visit_event visits @ [(Poll_Error, False)]"
  by (auto simp: unstopped_def)

text \<open>What the program does once the calls of pthread have succeeded.\<close>

lemma serve_and_destroy:
  assumes "\<forall>v \<in> set visits. visit_ok v" and "length visits < 2 ^ 50 - 1"
    and "args = \<lparr>peer_keepalive_microseconds = 60000000, peer_info_list = list, print_progress = True\<rparr>"
    and "peers_at bo h list []" and "no_oom h" and "False \<notin> set (lookups h)"
  shows "\<exists>g t. run_thread (handle_peer_discovery_requests bo args True False True
      (unstopped (map (fst \<circ> visit_event) visits))) h = (Ok FAILURE_NETWORK_FUNCTION, g) \<and>
    linked_list_destroy (Some list) g = (Ok (), t) \<and> lists t list = None \<and>
    (\<exists>expired. freed t = expired @ map (\<lambda>p. (Free, Live p)) (foldl (served 60000000) [] visits))"
proof -
  have "\<exists>g. run_thread (handle_peer_discovery_requests bo args True False True
      (unstopped (map (fst \<circ> visit_event) visits))) h = (Ok FAILURE_NETWORK_FUNCTION, g) \<and>
    peers_at bo g list (foldl (served 60000000) [] visits)"
    using accept_visits [OF assms(1), of bo h args "[]" "[(Poll_Error, False)]"] assms(2,4-6)
    by (auto simp: assms(3) wf_peers_def handle_peer_discovery_requests_def unstopped_visits run_server_thread)
  then show ?thesis using destroy_peers by blast
qed

section \<open>Properties\<close>

text \<open>C18. The bootstrap server program, started with a port: when its system calls succeed and any
  number of peers visit it one after the other, each with a well-formed registration and a
  working connection, it listens on that port of every interface, serves them all, and when a
  poll fails it exits with FAILURE_NETWORK_FUNCTION after destroying the list, whose peers are
  those that registering each peer and dropping the expired ones gives from no peers at all.\<close>

theorem bootstrap_program_serves_and_cleans_up:
  assumes "\<forall>v \<in> set visits. visit_ok v" and "length visits < 2 ^ 50 - 1" and "port < 2 ^ 16"
    and "listen_on (socket_address pf bo (replicate IN6_ADDR_BYTES 0) (of_nat port))"
    and "heap_ok (memory s)" and "no_oom (memory s)" and "False \<notin> set (lookups (memory s))"
    and "set (pthreads s) \<subseteq> {0}"
  shows "\<exists>t. bootstrap_server_main pf bo listen_on True (map (fst \<circ> visit_event) visits)
        [program_name, decimal port] s = (Ok (enumerator FAILURE_NETWORK_FUNCTION), t) \<and>
    lists (memory t) (brk (memory s)) = None \<and>
    (\<exists>expired. freed (memory t) = expired @ map (\<lambda>p. (Free, Live p)) (foldl (served 60000000) [] visits))"
proof -
  obtain h where h: "linked_list_create True (Some Free) (Some (peer_compare bo)) (memory s) =
      (Ok (brk (memory s)), h)" "peers_at bo h (brk (memory s)) []" "no_oom h" "False \<notin> set (lookups h)"
    using create_peers [OF assms(5,6)] assms(7) by metis
  obtain g t where t: "run_thread (handle_peer_discovery_requests bo
      \<lparr>peer_keepalive_microseconds = 60000000, peer_info_list = brk (memory s), print_progress = True\<rparr>
      True False True (unstopped (map (fst \<circ> visit_event) visits))) h = (Ok FAILURE_NETWORK_FUNCTION, g)"
    "linked_list_destroy (Some (brk (memory s))) g = (Ok (), t)" "lists t (brk (memory s)) = None"
    "\<exists>expired. freed t = expired @ map (\<lambda>p. (Free, Live p)) (foldl (served 60000000) [] visits)"
    using serve_and_destroy [OF assms(1,2) refl h(2,3,4)] by blast
  let ?u = "s\<lparr>memory := h\<rparr>"
  obtain e1 where e1: "pthread_call ?u = (Ok 0, ?u\<lparr>pthreads := e1\<rparr>)" "set e1 \<subseteq> {0}"
    using pthread_call_ok [of ?u] assms(8) by auto
  obtain e2 where e2: "pthread_checked (?u\<lparr>pthreads := e1\<rparr>) = (Ok (), ?u\<lparr>pthreads := e2\<rparr>)" "set e2 \<subseteq> {0}"
    using pthread_checked_ok [of "?u\<lparr>pthreads := e1\<rparr>"] e1(2) by auto
  obtain e3 where e3: "pthread_checked (?u\<lparr>pthreads := e2\<rparr>) = (Ok (), ?u\<lparr>pthreads := e3\<rparr>)"
    using pthread_checked_ok [of "?u\<lparr>pthreads := e2\<rparr>"] e2(2) by auto
  have "bootstrap_server_main pf bo listen_on True (map (fst \<circ> visit_event) visits)
      [program_name, decimal port] s = (Ok (enumerator FAILURE_NETWORK_FUNCTION), ?u\<lparr>pthreads := e3, memory := t\<rparr>)"
    using h(1) t(1,2) e1(1) e2(1) e3 assms(4)
    by (simp add: bootstrap_server_main_def run_peer_discovery_bootstrap_server_def exit_status_def attempt_def
        seq_def in_memory_def u16_argument_decimal [OF assms(3)] DEFAULT_PEER_KEEPALIVE_SECONDS_def Let_def
        prog_basic)
  then show ?thesis using t(3,4) by auto
qed

theorem bootstrap_program_serves_and_cleans_up_witness:
  "\<exists>t expired. bootstrap_server_main sample_platform Little_Endian (\<lambda>_. True) True
      (map (fst \<circ> visit_event) [sample_visit 1050, sample_visit 1060]) [''server'', decimal 8080]
      \<lparr>pthreads = [], stdout = [], stderr = [],
       memory = \<lparr>mallocs = [True], lists = Map.empty, nodes = Map.empty, brk = 0, freed = [], lookups = []\<rparr>\<rparr> =
      (Ok 15, t) \<and>
    freed (memory t) = expired @ map (\<lambda>p. (Free, Live p))
      (foldl (served 60000000) [] [sample_visit 1050, sample_visit 1060])"
proof -
  have "\<forall>v \<in> set [sample_visit 1050, sample_visit 1060]. visit_ok v"
    by (simp add: sample_visit_def sample_register_ok toy_net_def)
  from bootstrap_program_serves_and_cleans_up [OF this, of 8080 "\<lambda>_. True" sample_platform Little_Endian
      "\<lparr>pthreads = [], stdout = [], stderr = [],
       memory = \<lparr>mallocs = [True], lists = Map.empty, nodes = Map.empty, brk = 0, freed = [], lookups = []\<rparr>\<rparr>"
      "''server''"]
  show ?thesis by (auto simp: heap_ok_def no_oom_def)
qed

end
