(* ===== verification/Chain_Memory.thy ===== *)
theory Chain_Memory
  imports Block
begin

text \<open>
  The memory of a chain, for the functions that give it back: block_destroy of src/block.c and
  blockchain_destroy of src/blockchain.c, with the lists on the heap of Linked_List and the calls
  of the free function of the list of blocks carried out.
\<close>

section \<open>State\<close>

text \<open>Lists of transactions; block objects, each with its pointer to a list of transactions; lists
  of pointers to blocks; chain objects, each with its pointer to a list of blocks. An address is
  that of an object of one kind.\<close>

record chain_memory =
  txn_lists :: "transaction_t heap"
  block_objects :: "addr \<Rightarrow> addr option option"
  block_lists :: "addr heap"
  chain_objects :: "addr \<Rightarrow> addr option option"

definition in_txn_lists :: "(transaction_t heap, 'a) prog \<Rightarrow> (chain_memory, 'a) prog" where
  "in_txn_lists m s = (case m (txn_lists s) of (out, h) \<Rightarrow> (out, s\<lparr>txn_lists := h\<rparr>))"

definition in_block_lists :: "(addr heap, 'a) prog \<Rightarrow> (chain_memory, 'a) prog" where
  "in_block_lists m s = (case m (block_lists s) of (out, h) \<Rightarrow> (out, s\<lparr>block_lists := h\<rparr>))"

definition load_object :: "(chain_memory \<Rightarrow> addr \<Rightarrow> addr option option) \<Rightarrow> addr \<Rightarrow>
    (chain_memory, addr option) prog" where
  "load_object objects a s = (case objects s a of None \<Rightarrow> (Undefined, s) | Some p \<Rightarrow> (Ok p, s))"

definition free_block :: "addr \<Rightarrow> (chain_memory, unit) prog" where
  "free_block b = seq (load_object block_objects b) (\<lambda>_.
     modify (\<lambda>s. s\<lparr>block_objects := (block_objects s)(b := None)\<rparr>))"

definition free_chain :: "addr \<Rightarrow> (chain_memory, unit) prog" where
  "free_chain c = seq (load_object chain_objects c) (\<lambda>_.
     modify (\<lambda>s. s\<lparr>chain_objects := (chain_objects s)(c := None)\<rparr>))"

text \<open>The code of a call whose result is returned after something else has been done.\<close>

definition return_later :: "return_code_t + unit \<Rightarrow> ('s, unit) prog" where
  "return_later r = (case r of Inl c \<Rightarrow> fail c | Inr _ \<Rightarrow> ret ())"

section \<open>Operations\<close>

definition block_destroy :: "addr option \<Rightarrow> (chain_memory, unit) prog" where
  "block_destroy block =
     (case block of
        None \<Rightarrow> fail FAILURE_INVALID_INPUT
      | Some b \<Rightarrow>
          seq (load_object block_objects b) (\<lambda>transaction_list.
          seq (attempt (in_txn_lists (linked_list_destroy transaction_list))) (\<lambda>r.
          seq (free_block b) (\<lambda>_. return_later r))))"

text \<open>linked_list_remove_first calls the free function of the list before it frees the node. The
  call cannot reach the node, so it is carried out afterwards; its result is thrown away.\<close>

fun call_free_functions :: "(free_function_t \<times> addr) list \<Rightarrow> (chain_memory, unit) prog" where
  "call_free_functions [] = ret ()"
| "call_free_functions ((Block_Destroy, b) # calls) =
     seq (attempt (block_destroy (Some b))) (\<lambda>_. call_free_functions calls)"
| "call_free_functions (_ # calls) = undef"

definition remove_first_block :: "addr \<Rightarrow> (chain_memory, unit) prog" where
  "remove_first_block p =
     seq get (\<lambda>s.
     seq (in_block_lists (linked_list_remove_first (Some p))) (\<lambda>_.
     seq get (\<lambda>t.
     call_free_functions (drop (length (freed (block_lists s))) (freed (block_lists t))))))"

definition block_list_destroy :: "addr option \<Rightarrow> (chain_memory, unit) prog" where
  "block_list_destroy block_list =
     (case block_list of
        None \<Rightarrow> fail FAILURE_INVALID_INPUT
      | Some p \<Rightarrow>
          seq (in_block_lists (linked_list_is_empty (Some p) True)) (\<lambda>is_empty.
          seq (loop (\<lambda>is_empty.
              if is_empty then ret (Inr ())
              else
                seq (remove_first_block p) (\<lambda>_.
                seq (in_block_lists (linked_list_is_empty (Some p) True)) (\<lambda>is_empty.
                ret (Inl is_empty)))) is_empty) (\<lambda>_.
          in_block_lists (free_list p))))"

definition destroy_chain_memory :: "addr option \<Rightarrow> (chain_memory, unit) prog" where
  "destroy_chain_memory chain =
     (case chain of
        None \<Rightarrow> fail FAILURE_INVALID_INPUT
      | Some c \<Rightarrow>
          seq (load_object chain_objects c) (\<lambda>block_list.
          seq (attempt (block_list_destroy block_list)) (\<lambda>r.
          seq (free_chain c) (\<lambda>_. return_later r))))"

section \<open>What a chain owns\<close>

text \<open>A block with its list of transactions: the address of the block, of the list, the free
  function of the list, and the nodes. The lists of blocks that are read or received are made
  with transaction_destroy, those of the blocks the miner builds with free.\<close>

type_synonym owned = "addr \<times> addr \<times> free_function_t \<times> (addr \<times> transaction_t) list"

definition owned_lists :: "owned list \<Rightarrow> addr list" where
  "owned_lists os = map (\<lambda>(b, p, f, xs). p) os"

definition owned_nodes :: "owned list \<Rightarrow> addr list" where
  "owned_nodes os = concat (map (\<lambda>(b, p, f, xs). map fst xs) os)"

text \<open>The calls that free the transactions of the blocks.\<close>

definition transaction_calls :: "owned list \<Rightarrow> (free_function_t \<times> transaction_t) list" where
  "transaction_calls os = concat (map (\<lambda>(b, p, f, xs). map (\<lambda>x. (f, snd x)) xs) os)"

lemma owned_simps [simp]:
  "owned_lists [] = []" "owned_lists ((b, p, f, xs) # os) = p # owned_lists os"
  "owned_nodes [] = []" "owned_nodes ((b, p, f, xs) # os) = map fst xs @ owned_nodes os"
  "transaction_calls [] = []"
  "transaction_calls ((b, p, f, xs) # os) = map (\<lambda>x. (f, snd x)) xs @ transaction_calls os"
  by (simp_all add: owned_lists_def owned_nodes_def transaction_calls_def)

text \<open>The blocks are live, their lists are well-formed, and nothing is owned twice.\<close>

definition txn_list_at :: "chain_memory \<Rightarrow> addr \<Rightarrow> free_function_t \<Rightarrow> (addr \<times> transaction_t) list \<Rightarrow> bool" where
  "txn_list_at s p f xs \<longleftrightarrow> f \<in> {Free, Transaction_Destroy} \<and>
     (\<exists>l. list_at (txn_lists s) p l xs \<and> free_function l = f)"

definition owns :: "chain_memory \<Rightarrow> owned list \<Rightarrow> bool" where
  "owns s os \<longleftrightarrow>
     (\<forall>(b, p, f, xs) \<in> set os. block_objects s b = Some (Some p) \<and> txn_list_at s p f xs) \<and>
     distinct (map fst os) \<and> distinct (owned_lists os) \<and> distinct (owned_nodes os)"

definition without :: "'k set \<Rightarrow> ('k \<Rightarrow> 'v option) \<Rightarrow> 'k \<Rightarrow> 'v option" where
  "without A m = (\<lambda>a. if a \<in> A then None else m a)"

lemma without_simps [simp]:
  "without {} m = m" "without A (without B m) = without (B \<union> A) m" "a \<in> A \<Longrightarrow> without A m a = None"
  "a \<notin> A \<Longrightarrow> without A m a = m a"
  by (auto simp: without_def)

text \<open>From \<open>s\<close> to \<open>t\<close> everything that is owned is freed, each transaction once, in order and with
  the function of its list, and nothing else.\<close>

definition released :: "owned list \<Rightarrow> chain_memory \<Rightarrow> chain_memory \<Rightarrow> bool" where
  "released os s t \<longleftrightarrow>
     lists (txn_lists t) = without (set (owned_lists os)) (lists (txn_lists s)) \<and>
     nodes (txn_lists t) = without (set (owned_nodes os)) (nodes (txn_lists s)) \<and>
     freed (txn_lists t) = freed (txn_lists s) @ transaction_calls os \<and>
     brk (txn_lists t) = brk (txn_lists s) \<and>
     block_objects t = without (fst ` set os) (block_objects s)"

lemma released_Cons: "released [o1] s t \<Longrightarrow> released os t u \<Longrightarrow> released (o1 # os) s u"
  by (cases o1) (auto simp: released_def Un_commute)

lemma path_without: "fst ` set xs \<inter> A = {} \<Longrightarrow> path (without A N) p xs q = path N p xs q"
  by (induction xs arbitrary: p) auto

lemma owns_rest:
  assumes "owns s (o1 # os)" and "released [o1] s t"
  shows "owns t os"
proof -
  obtain b p f xs where o1: "o1 = (b, p, f, xs)" by (cases o1)
  have "block_objects t c = Some (Some q) \<and> txn_list_at t q g ys" if "(c, q, g, ys) \<in> set os" for c q g ys
  proof -
    have "q \<in> set (owned_lists os)" "fst ` set ys \<subseteq> set (owned_nodes os)" "c \<in> fst ` set os"
      using that by (force simp: owned_lists_def owned_nodes_def)+
    moreover have "p \<notin> set (owned_lists os)" "fst ` set xs \<inter> set (owned_nodes os) = {}" "b \<notin> fst ` set os"
      using assms(1) by (simp_all add: owns_def o1)
    ultimately have "q \<noteq> p" "fst ` set ys \<inter> fst ` set xs = {}" "c \<noteq> b" by blast+
    have at: "block_objects s c = Some (Some q) \<and> txn_list_at s q g ys"
      using assms(1) bspec [OF _ that, of "\<lambda>(b, p, f, xs). block_objects s b = Some (Some p) \<and> txn_list_at s p f xs"]
      by (simp add: owns_def)
    then obtain l where l: "list_at (txn_lists s) q l ys" "free_function l = g" "g \<in> {Free, Transaction_Destroy}"
      "block_objects s c = Some (Some q)"
      by (auto simp: txn_list_at_def)
    from \<open>q \<noteq> p\<close> \<open>c \<noteq> b\<close> \<open>fst ` set ys \<inter> fst ` set xs = {}\<close> l(1,4) have "list_at (txn_lists t) q l ys" "block_objects t c = Some (Some q)"
      using assms(2) by (auto simp: released_def o1 list_at_def heap_ok_def path_without) (auto simp: without_def)
    then show ?thesis using l(2,3) by (auto simp: txn_list_at_def)
  qed
  then show ?thesis using assms(1) by (auto simp: owns_def o1)
qed

lemma block_destroy_at:
  assumes "owns s (o1 # os)"
  shows "\<exists>t. block_destroy (Some (fst o1)) s = (Ok (), t) \<and> released [o1] s t \<and>
    block_lists t = block_lists s \<and> chain_objects t = chain_objects s"
proof -
  obtain b p f xs where o1: "o1 = (b, p, f, xs)" by (cases o1)
  have b: "block_objects s b = Some (Some p)" using assms by (auto simp: owns_def o1)
  obtain l where l: "list_at (txn_lists s) p l xs" "free_function l = f"
    using assms by (auto simp: owns_def o1 txn_list_at_def)
  obtain h where h: "linked_list_destroy (Some p) (txn_lists s) = (Ok (), h)"
    "lists h = (lists (txn_lists s))(p := None)" "brk h = brk (txn_lists s)"
    "nodes h = (\<lambda>a. if a \<in> fst ` set xs then None else nodes (txn_lists s) a)"
    "freed h = freed (txn_lists s) @ map (\<lambda>x. (free_function l, snd x)) xs"
    using destroy_at [OF l(1)] by blast
  let ?t = "s\<lparr>txn_lists := h, block_objects := (block_objects s)(b := None)\<rparr>"
  have "block_destroy (Some b) s = (Ok (), ?t)"
    using b h(1) by (simp add: block_destroy_def load_object_def free_block_def in_txn_lists_def attempt_def
        seq_def return_later_def prog_basic)
  moreover have "released [o1] s ?t"
    by (simp add: released_def o1 h l(2) without_def fun_eq_iff)
  ultimately show ?thesis by (intro exI [of _ ?t]) (simp add: o1)
qed

section \<open>Destroying the list of blocks\<close>

lemma remove_first_block_at:
  assumes "owns s (o1 # os)" and "list_at (block_lists s) p l ((a, fst o1) # xs)"
    and "free_function l = Block_Destroy"
  shows "\<exists>t q. remove_first_block p s = (Ok (), t) \<and> released [o1] s t \<and> chain_objects t = chain_objects s \<and>
    list_at (block_lists t) p (l\<lparr>head := q\<rparr>) xs \<and>
    lists (block_lists t) = (lists (block_lists s))(p \<mapsto> l\<lparr>head := q\<rparr>) \<and>
    nodes (block_lists t) = without {a} (nodes (block_lists s))"
proof -
  obtain h q where h: "linked_list_remove_first (Some p) (block_lists s) = (Ok (), h)"
    "list_at h p (l\<lparr>head := q\<rparr>) xs" "nodes h = (nodes (block_lists s))(a := None)"
    "lists h = (lists (block_lists s))(p \<mapsto> l\<lparr>head := q\<rparr>)"
    "freed h = freed (block_lists s) @ [(Block_Destroy, fst o1)]"
    using remove_first_at [OF assms(2)] assms(3) by auto
  let ?u = "s\<lparr>block_lists := h\<rparr>"
  have "owns ?u (o1 # os)" using assms(1) by (simp add: owns_def txn_list_at_def)
  from block_destroy_at [OF this] obtain t where t: "block_destroy (Some (fst o1)) ?u = (Ok (), t)"
    "released [o1] ?u t" "block_lists t = h" "chain_objects t = chain_objects s"
    by auto
  have "remove_first_block p s = (Ok (), t)"
    using h(1,5) t(1)
    by (simp add: remove_first_block_def in_block_lists_def seq_def attempt_def prog_basic)
  moreover have "released [o1] s t" using t(2) by (simp add: released_def)
  moreover have "nodes h = without {a} (nodes (block_lists s))" by (simp add: h(3) without_def fun_eq_iff)
  ultimately show ?thesis using h t by auto
qed

lemma block_list_destroy_at:
  assumes "owns s os" and "list_at (block_lists s) p l xs" and "free_function l = Block_Destroy"
    and "map snd xs = map fst os"
  shows "\<exists>t. block_list_destroy (Some p) s = (Ok (), t) \<and> released os s t \<and>
    chain_objects t = chain_objects s \<and> lists (block_lists t) = (lists (block_lists s))(p := None) \<and>
    nodes (block_lists t) = without (fst ` set xs) (nodes (block_lists s))"
proof -
  let ?body = "\<lambda>is_empty. if is_empty then ret (Inr ())
    else seq (remove_first_block p) (\<lambda>_. seq (in_block_lists (linked_list_is_empty (Some p) True))
      (\<lambda>is_empty. ret (Inl is_empty)))"
  have empty: "in_block_lists (linked_list_is_empty (Some p) True) u = (Ok (ys = []), u)"
    if "list_at (block_lists u) p k ys" for u k ys
    by (simp add: in_block_lists_def is_empty_at [OF that])
  have "\<exists>t k. loop ?body (xs = []) s = (Ok (), t) \<and> released os s t \<and> chain_objects t = chain_objects s \<and>
      lists (block_lists t) = (lists (block_lists s))(p \<mapsto> k) \<and>
      nodes (block_lists t) = without (fst ` set xs) (nodes (block_lists s))"
    using assms
  proof (induction os arbitrary: s l xs)
    case Nil
    then have "loop ?body True s = (Ok (), s)" by (intro loop_exit_Inr) (simp add: ret_def)
    then show ?case
      using Nil by (intro exI [of _ s] exI [of _ l]) (auto simp: released_def list_at_def)
  next
    case (Cons o1 os)
    then obtain a ys where xs: "xs = (a, fst o1) # ys" "map snd ys = map fst os" by (cases xs) auto
    obtain u q where u: "remove_first_block p s = (Ok (), u)" "released [o1] s u"
      "chain_objects u = chain_objects s" "list_at (block_lists u) p (l\<lparr>head := q\<rparr>) ys"
      "lists (block_lists u) = (lists (block_lists s))(p \<mapsto> l\<lparr>head := q\<rparr>)"
      "nodes (block_lists u) = without {a} (nodes (block_lists s))"
      using remove_first_block_at [OF Cons.prems(1) Cons.prems(2) [unfolded xs(1)] Cons.prems(3)] by blast
    have "\<exists>t k. loop ?body (ys = []) u = (Ok (), t) \<and> released os u t \<and> chain_objects t = chain_objects u \<and>
        lists (block_lists t) = (lists (block_lists u))(p \<mapsto> k) \<and>
        nodes (block_lists t) = without (fst ` set ys) (nodes (block_lists u))"
      by (rule Cons.IH [OF owns_rest [OF Cons.prems(1) u(2)] u(4)]) (use Cons.prems(3) xs(2) in simp_all)
    then obtain t k where t: "loop ?body (ys = []) u = (Ok (), t)" "released os u t"
      "chain_objects t = chain_objects u" "lists (block_lists t) = (lists (block_lists u))(p \<mapsto> k)"
      "nodes (block_lists t) = without (fst ` set ys) (nodes (block_lists u))"
      by blast
    have "?body False s = (Ok (Inl (ys = [])), u)"
      using u(1) empty [OF u(4)] by (simp add: seq_Ok ret_def)
    from loop_Inl [where body = ?body, OF this t(1)] have "loop ?body (xs = []) s = (Ok (), t)"
      by (simp add: xs)
    then show ?case
      using released_Cons [OF u(2) t(2)] t u by (intro exI [of _ t] exI [of _ k]) (simp add: xs Un_commute)
  qed
  then obtain t k where t: "loop ?body (xs = []) s = (Ok (), t)" "released os s t"
    "chain_objects t = chain_objects s" "lists (block_lists t) = (lists (block_lists s))(p \<mapsto> k)"
    "nodes (block_lists t) = without (fst ` set xs) (nodes (block_lists s))"
    by blast
  let ?t = "t\<lparr>block_lists := (block_lists t)\<lparr>lists := (lists (block_lists t))(p := None)\<rparr>\<rparr>"
  have "block_list_destroy (Some p) s = (Ok (), ?t)"
    using t(1,4) empty [OF assms(2)]
    by (simp add: block_list_destroy_def seq_Ok in_block_lists_def [of "free_list p"] free_list_def)
  then show ?thesis
    using t by (intro exI [of _ ?t]) (simp add: released_def)
qed

section \<open>Properties\<close>

text \<open>C21. Destroying a chain whose blocks and lists of transactions are live and owned once frees
  every transaction once, in the order of the chain and with the function of its list (which for
  the blocks the miner built is free), every node, every list, every block and the
  chain object, and nothing else; it returns SUCCESS, and destroying the chain again is
  undefined.\<close>

theorem destroying_a_chain_frees_it:
  assumes "owns s os" and "chain_objects s c = Some (Some p)" and "list_at (block_lists s) p l xs"
    and "free_function l = Block_Destroy" and "map snd xs = map fst os"
  shows "\<exists>t. destroy_chain_memory (Some c) s = (Ok (), t) \<and> released os s t \<and>
    chain_objects t = (chain_objects s)(c := None) \<and>
    lists (block_lists t) = (lists (block_lists s))(p := None) \<and>
    nodes (block_lists t) = without (fst ` set xs) (nodes (block_lists s)) \<and>
    fst (destroy_chain_memory (Some c) t) = Undefined"
proof -
  obtain t where t: "block_list_destroy (Some p) s = (Ok (), t)" "released os s t"
    "chain_objects t = chain_objects s" "lists (block_lists t) = (lists (block_lists s))(p := None)"
    "nodes (block_lists t) = without (fst ` set xs) (nodes (block_lists s))"
    using block_list_destroy_at [OF assms(1,3,4,5)] by blast
  let ?t = "t\<lparr>chain_objects := (chain_objects t)(c := None)\<rparr>"
  have "destroy_chain_memory (Some c) s = (Ok (), ?t)"
    using t(1,3) assms(2)
    by (simp add: destroy_chain_memory_def load_object_def free_chain_def attempt_def seq_def return_later_def
        prog_basic)
  moreover have "fst (destroy_chain_memory (Some c) ?t) = Undefined"
    by (simp add: destroy_chain_memory_def load_object_def seq_def)
  ultimately show ?thesis using t by (intro exI [of _ ?t]) (simp add: released_def)
qed

text \<open>A chain object 5 with the list 0 of the blocks 3 and 4, each with one transaction; the second is
  like a block that was mined.\<close>

definition two_blocks :: "transaction_t \<Rightarrow> chain_memory" where
  "two_blocks x =
     \<lparr>txn_lists = \<lparr>mallocs = [],
        lists = [0 \<mapsto> \<lparr>free_function = Transaction_Destroy, compare_function = None, head = Some 1\<rparr>,
          2 \<mapsto> \<lparr>free_function = Free, compare_function = None, head = Some 3\<rparr>],
        nodes = [1 \<mapsto> \<lparr>data = x, next_node = None\<rparr>, 3 \<mapsto> \<lparr>data = x, next_node = None\<rparr>],
        brk = 4, freed = []\<rparr>,
      block_objects = [3 \<mapsto> Some 0, 4 \<mapsto> Some 2],
      block_lists = \<lparr>mallocs = [],
        lists = [0 \<mapsto> \<lparr>free_function = Block_Destroy, compare_function = None, head = Some 1\<rparr>],
        nodes = [1 \<mapsto> \<lparr>data = 3, next_node = Some 2\<rparr>, 2 \<mapsto> \<lparr>data = 4, next_node = None\<rparr>],
        brk = 3, freed = []\<rparr>,
      chain_objects = [5 \<mapsto> Some 0]\<rparr>"

theorem destroying_a_chain_frees_it_witness:
  "\<exists>t. destroy_chain_memory (Some 5) (two_blocks (sample_transaction)) = (Ok (), t) \<and>
    freed (txn_lists t) = [(Transaction_Destroy, sample_transaction), (Free, sample_transaction)] \<and> block_objects t 3 = None \<and>
    block_objects t 4 = None"
proof -
  let ?s = "two_blocks (sample_transaction)" and ?os = "[(3, 0, Transaction_Destroy, [(1, sample_transaction)]),
    (4, 2, Free, [(3, sample_transaction)])]"
  let ?l = "\<lparr>free_function = Block_Destroy, compare_function = None, head = Some 1\<rparr>"
  have "owns ?s ?os"
    by (auto simp: owns_def txn_list_at_def list_at_def heap_ok_def two_blocks_def)
  moreover have "list_at (block_lists ?s) 0 ?l [(1, 3), (2, 4)]"
    by (simp add: list_at_def heap_ok_def two_blocks_def)
  ultimately show ?thesis
    using destroying_a_chain_frees_it [of ?s ?os 5 0 ?l "[(1, 3), (2, 4)]"]
    by (force simp: two_blocks_def released_def)
qed

end
