(* ===== verification/Broadcast.thy ===== *)
theory Broadcast
  imports Exchange
begin

text \<open>
  \<open>run_consensus_peer_client\<close> of src/consensus_peer_client_thread.c as a whole, when its peers are
  honest: it visits them one after the other, with the chain it holds by then, and leaves out those
  that it cannot reach.
\<close>

section \<open>Visits\<close>

text \<open>\<open>chain_at p\<close> is the chain that the peer \<open>p\<close> holds when it is visited. Its connection works, and
  what arrives on it is what the server of the peer sends to a client that holds \<open>a\<close>. A peer may
  also be out of reach.\<close>

definition reached ::
  "(peer_info_t \<Rightarrow> net \<times> (u64 \<times> bool \<times> return_code_t option \<times> return_code_t option \<times>
      return_code_t option \<times> return_code_t option) \<times> bool) \<Rightarrow> peer_info_t \<Rightarrow> bool" where
  "reached attempt_at p \<longleftrightarrow> (case attempt_at p of (_, (_, connected, _), _) \<Rightarrow> connected)"

fun honest_visits ::
  "'k openssl \<Rightarrow> byte_order \<Rightarrow> u64 \<Rightarrow> (peer_info_t \<Rightarrow> blockchain_t) \<Rightarrow>
    (peer_info_t \<Rightarrow> net \<times> (u64 \<times> bool \<times> return_code_t option \<times> return_code_t option \<times>
      return_code_t option \<times> return_code_t option) \<times> bool) \<Rightarrow> blockchain_t \<Rightarrow> peer_info_t list \<Rightarrow> bool" where
  "honest_visits ssl bo n chain_at attempt_at a [] \<longleftrightarrow> True"
| "honest_visits ssl bo n chain_at attempt_at a (p # ps) \<longleftrightarrow>
     (if reached attempt_at p then
        deliverable ssl bo n (chain_at p) \<and>
        (\<exists>c now. attempt_at p = (c, (now, True, None, None, None, None), False) \<and> connection_ok c \<and>
           arriving c = wire_data (chain_message (longer (chain_at p) a))) \<and>
        honest_visits ssl bo n chain_at attempt_at (longer a (chain_at p)) ps
      else (\<exists>c param. attempt_at p = (c, param, False)) \<and> honest_visits ssl bo n chain_at attempt_at a ps)"

abbreviation after_visits :: "(peer_info_t \<Rightarrow> blockchain_t) \<Rightarrow> blockchain_t \<Rightarrow> peer_info_t list \<Rightarrow> blockchain_t" where
  "after_visits chain_at \<equiv> foldl (\<lambda>a p. longer a (chain_at p))"

lemma after_visits_longest:
  "length (block_list a) \<le> length (block_list (after_visits chain_at a ps)) \<and>
   (\<forall>p \<in> set ps. length (block_list (chain_at p)) \<le> length (block_list (after_visits chain_at a ps)))"
proof (induction ps arbitrary: a)
  case (Cons p ps)
  have "length (block_list a) \<le> length (block_list (longer a (chain_at p)))"
    "length (block_list (chain_at p)) \<le> length (block_list (longer a (chain_at p)))"
    by (simp_all add: longer_def)
  with Cons.IH [of "longer a (chain_at p)"] show ?case by auto
qed simp

lemma after_visits_in: "after_visits chain_at a ps = a \<or> (\<exists>p \<in> set ps. after_visits chain_at a ps = chain_at p)"
proof (induction ps arbitrary: a)
  case (Cons p ps)
  from Cons.IH [of "longer a (chain_at p)"] show ?case by (auto simp: longer_def)
qed simp

section \<open>The loop\<close>

lemma offered_mallocs [simp]: "mallocs (offered l d) = mallocs l"
  by (simp add: offered_def)

lemma one_visit:
  assumes "hashing_ok ssl" and "connection_ok c" and "holds l a" and "deliverable ssl bo n a"
    and "deliverable ssl bo n b" and "arriving c = wire_data (chain_message (longer b a))"
  shows "\<exists>v t. run_consensus_peer_client_once ssl bo now True None None None None \<lparr>conn = c, shared = l\<rparr> = (Ok v, t) \<and>
    holds (shared t) (longer a b) \<and> mallocs (shared t) = mallocs l"
proof -
  have d: "deliverable ssl bo n (longer b a)" using assms(4,5) by (simp add: longer_def)
  have "longer a (longer b a) = longer a b" by (auto simp: longer_def)
  with wp_run_consensus_peer_client_once [of ssl "\<lparr>conn = c, shared = l\<rparr>" a bo n "longer b a" "[]" now] assms d
    holds_offered [OF assms(3), of "longer b a"]
  show ?thesis by (fastforce simp: wp_Ok_iff)
qed

lemma client_loop_visits:
  assumes "hashing_ok ssl" and "holds l a" and "deliverable ssl bo n a"
    and "honest_visits ssl bo n chain_at attempt_at a ps"
  shows "\<exists>l'. client_loop (\<lambda>(now, connected, lock1, unlock1, lock2, unlock2).
      run_consensus_peer_client_once ssl bo now connected lock1 unlock1 lock2 unlock2) attempt_at False ps l = (Ok (), l') \<and>
    holds l' (after_visits chain_at a (filter (reached attempt_at) ps)) \<and> mallocs l' = mallocs l"
  using assms(2-4)
proof (induction ps arbitrary: l a)
  case Nil
  then show ?case by (simp add: ret_def)
next
  case (Cons p ps)
  show ?case
  proof (cases "reached attempt_at p")
    case True
    obtain c now where at: "attempt_at p = (c, (now, True, None, None, None, None), False)" "connection_ok c"
      "arriving c = wire_data (chain_message (longer (chain_at p) a))"
      and b: "deliverable ssl bo n (chain_at p)"
      and rest: "honest_visits ssl bo n chain_at attempt_at (longer a (chain_at p)) ps"
      using Cons.prems(3) True by auto
    obtain v t where t: "run_consensus_peer_client_once ssl bo now True None None None None \<lparr>conn = c, shared = l\<rparr> = (Ok v, t)"
      "holds (shared t) (longer a (chain_at p))" "mallocs (shared t) = mallocs l"
      using one_visit [OF assms(1) at(2) Cons.prems(1,2) b at(3)] by blast
    have "deliverable ssl bo n (longer a (chain_at p))" using Cons.prems(2) b by (simp add: longer_def)
    from Cons.IH [OF t(2) this rest] t(1,3) at(1) True show ?thesis by simp
  next
    case False
    then obtain c param where "attempt_at p = (c, param, False)"
      and visits: "honest_visits ssl bo n chain_at attempt_at a ps"
      using Cons.prems(3) by auto
    with False obtain now rest where at: "attempt_at p = (c, (now, False, rest), False)"
      by (cases param) (auto simp: reached_def)
    from Cons.IH [OF Cons.prems(1,2) visits] at False show ?thesis
      by (cases rest) (simp add: run_consensus_peer_client_once_def require_def fail_def seq_def)
  qed
qed

lemma wp_copy_peers:
  "no_oom l \<Longrightarrow> wp (copy_peers ps qs) (\<lambda>v t. v = Some (rev ps @ qs) \<and> alloc_step l t) (\<lambda>_ _. False) (l :: ledger)"
proof (induction ps arbitrary: qs l)
  case (Cons p ps)
  show ?case
    unfolding copy_peers.simps ll_prepend_def
  proof (rule wp_seqI, rule wp_mallocI, goal_cases)
    case (1 ok t)
    have trans: "no_oom u \<and> alloc_step l u" if "alloc_step t u" for u
      using alloc_step_trans [OF 1(1) that] Cons.prems alloc_step_no_oom by blast
    then have "no_oom t" using Cons.prems alloc_step_no_oom 1(1) by blast
    moreover have "alloc_step l v" if "alloc_step t u" "alloc_step u v" for u v
      using trans [OF that(1)] alloc_step_trans [OF _ that(2)] by blast
    ultimately show ?case
      using 1 trans Cons.prems
      by (auto simp del: wp_seq intro!: wp_seqI wp_allocI wp_mono [OF Cons.IH])
  qed
qed simp

lemma holds_alloc_step: "alloc_step l l' \<Longrightarrow> holds l' a = holds l a" for l :: ledger
  by (auto simp: alloc_step_def holds_def)

section \<open>Properties\<close>

text \<open>C6. A broadcast to honest peers finds the longest chain: when every peer of the list that can
  be reached answers with the chain it holds then, over a working connection, and memory
  suffices, run_consensus_peer_client visits all of them, in the reverse order of the list, and
  returns SUCCESS; the node then holds a chain that is its own or one of the peers', valid and at
  least as long as its own and that of every peer it has reached.\<close>

theorem broadcast_finds_longest_chain:
  assumes "hashing_ok ssl" and "holds l a" and "deliverable ssl bo n a" and "no_oom l"
    and "honest_visits ssl bo n chain_at attempt_at a (rev peers)"
  shows "\<exists>l' c. run_thread (run_consensus_peer_client ssl bo None None False attempt_at peers) l = (Ok SUCCESS, l') \<and>
    holds l' c \<and> c \<in> {a} \<union> chain_at ` {p \<in> set peers. reached attempt_at p} \<and> deliverable ssl bo n c \<and>
    length (block_list a) \<le> length (block_list c) \<and>
    (\<forall>p \<in> set peers. reached attempt_at p \<longrightarrow>
       length (block_list (chain_at p)) \<le> length (block_list c))"
proof -
  let ?reached = "filter (reached attempt_at) (rev peers)"
  let ?c = "after_visits chain_at a ?reached"
  let ?loop = "client_loop (\<lambda>(now, connected, lock1, unlock1, lock2, unlock2).
    run_consensus_peer_client_once ssl bo now connected lock1 unlock1 lock2 unlock2) attempt_at False"
  have loop: "wp (?loop (rev peers)) (\<lambda>_ t. holds t ?c \<and> no_oom t) (\<lambda>_ _. False) u"
    if "alloc_step l u" for u
  proof -
    have "holds u a" "no_oom u" using holds_alloc_step [OF that] assms(2,4) alloc_step_no_oom [OF that] by simp_all
    with client_loop_visits [OF assms(1) _ assms(3,5), of u] show ?thesis by (auto simp: wp_Ok_iff no_oom_def)
  qed
  have copied: "wp (seq (copy_peers peers []) (case_option (ret ()) ?loop))
    (\<lambda>_ t. holds t ?c \<and> no_oom t) (\<lambda>_ _. False) u" if "alloc_step l u" for u
    by (rule wp_seqI, rule wp_mono [OF wp_copy_peers])
      (use that assms(4) alloc_step_no_oom in \<open>auto intro!: loop alloc_step_trans [OF that]\<close>)
  have "wp (seq ll_create (\<lambda>peers_copy. seq (copy_peers peers peers_copy) (case_option (ret ()) ?loop)))
    (\<lambda>_ t. holds t ?c \<and> no_oom t) (\<lambda>_ _. False) l"
    by (rule wp_seqI, rule wp_ll_createI) (use assms(4) in \<open>auto simp del: wp_seq intro!: copied\<close>)
  then obtain t where t: "seq ll_create (\<lambda>peers_copy. seq (copy_peers peers peers_copy) (case_option (ret ()) ?loop)) l = (Ok (), t)"
    "holds t ?c" "no_oom t"
    by (auto simp: wp_Ok_iff)
  have "wp malloc (\<lambda>ok u. ok \<and> alloc_step t u) (\<lambda>_ _. False) t"
    by (rule wp_mallocI) (use t(3) in simp)
  then obtain u where u: "malloc t = (Ok True, u)" "alloc_step t u" by (auto simp: wp_Ok_iff)
  have "run_thread (run_consensus_peer_client ssl bo None None False attempt_at peers) l = (Ok SUCCESS, u)"
    by (simp add: run_thread_def run_consensus_peer_client_def end_thread_def in_work_def announced_def attempt_def
        pthread_simps(1) seq_ret seq_def [of "in_work _"] seq_def [of "attempt _"] seq_def [of "modify _"] t(1) u(1) prog_basic)
  moreover have "holds u ?c" using t(2) holds_alloc_step [OF u(2)] by simp
  moreover have "deliverable ssl bo n (after_visits chain_at a (filter (reached attempt_at) ps))"
    if "honest_visits ssl bo n chain_at attempt_at a ps" "deliverable ssl bo n a" for ps a
    using that by (induction ps arbitrary: a) (auto simp: longer_def split: if_splits)
  ultimately show ?thesis
    using after_visits_longest [of a chain_at ?reached] after_visits_in [of chain_at a ?reached] assms(3,5)
    by (intro exI [of _ u] exI [of _ ?c]) auto
qed

theorem broadcast_finds_longest_chain_witness:
  "\<exists>l'. run_thread (run_consensus_peer_client (toy_ssl 4) Little_Endian None None False
      (\<lambda>p. (conn (toy_peer toy_start (wire_data (chain_message (toy_chain [toy_mint])))),
         (7, p = peer_b, None, None, None, None), False)) [peer_a, peer_b]) (toy_ledger toy_start) = (Ok SUCCESS, l') \<and>
    holds l' (toy_chain [toy_mint])"
proof -
  let ?c = "conn (toy_peer toy_start (wire_data (chain_message (toy_chain [toy_mint]))))"
  let ?at = "\<lambda>p. (?c, (7 :: u64, p = peer_b, None, None, None, None), False)"
  let ?chain_at = "\<lambda>_. toy_chain [toy_mint]"
  have conn: "connection_ok ?c" "arriving ?c = wire_data (chain_message (toy_chain [toy_mint]))"
    by (simp_all add: connection_ok_def toy_peer_def toy_net_def)
  have l: "longer toy_start (toy_chain [toy_mint]) = toy_chain [toy_mint]"
    "longer (toy_chain [toy_mint]) toy_start = toy_chain [toy_mint]"
    by (simp_all add: longer_def toy_start_def)
  have len: "length (block_list toy_start) = 1" by (simp add: toy_start_def)
  have ne: "peer_b \<noteq> peer_a" by (simp add: peer_a_def peer_b_def)
  have visits: "honest_visits (toy_ssl 4) Little_Endian 3 ?chain_at ?at toy_start (rev [peer_a, peer_b])"
    using toy_deliverable conn ne by (simp add: l reached_def ex_bool_eq)
  have "holds (toy_ledger toy_start) toy_start" "no_oom (toy_ledger toy_start)"
    by (simp_all add: holds_def toy_ledger_def no_oom_def)
  from broadcast_finds_longest_chain [OF toy_chain_facts(1) this(1) toy_deliverable(1) this(2) visits]
  show ?thesis using len by (auto simp: reached_def)
qed

end
