(* ===== verification/Concurrent_Append.thy ===== *)
theory Concurrent_Append
  imports Exchange
begin

text \<open>
  A consensus thread serializes the current chain under the mutex, but mine_blocks of
  src/mining_thread.c appends to the list of that chain without it. Here
  \<open>blockchain_serialize\<close> of src/blockchain.c reads the list node by node, and the miner links new
  nodes in between: a step is one read of a pointer of the list, or the write that makes a node
  reachable (the last of \<open>linked_list_append\<close>, when the node and its block are complete). Memory
  is sequentially consistent.
\<close>

section \<open>The steps\<close>

text \<open>Where the serializing thread is: in the loop of \<open>linked_list_length\<close>, with its result; about
  to write the header; in the loop over the blocks, with the index of the next node.\<close>

datatype serializer =
    Counting nat
  | Header u64
  | Writing nat "u8 list"
  | Serialized "u8 list"
  | Not_Serialized return_code_t

text \<open>\<open>linked\<close> are the blocks of the nodes that can be reached from the head.\<close>

record shared_list = env +
  linked :: "block_t list"
  serializer :: serializer

fun serializer_step :: "byte_order \<Rightarrow> u64 \<Rightarrow> serializer \<Rightarrow> shared_list \<Rightarrow> shared_list" where
  "serializer_step bo num_zero_bytes (Counting result) w =
     w\<lparr>serializer := if result < length (linked w) then Counting (Suc result) else Header (of_nat result)\<rparr>"
| "serializer_step bo num_zero_bytes (Header num_blocks) w =
     (case alloc w of
        (Ok _, v) \<Rightarrow> v\<lparr>serializer := Writing 0 (store_u64 bo num_zero_bytes @ store_u64 bo num_blocks)\<rparr>
      | (Fail c, v) \<Rightarrow> v\<lparr>serializer := Not_Serialized c\<rparr>
      | (_, v) \<Rightarrow> v)"
| "serializer_step bo num_zero_bytes (Writing i buffer) w =
     (if i < length (linked w) then
        (case serialize_blocks bo buffer [linked w ! i] w of
           (Ok buffer, v) \<Rightarrow> v\<lparr>serializer := Writing (Suc i) buffer\<rparr>
         | (Fail c, v) \<Rightarrow> v\<lparr>serializer := Not_Serialized c\<rparr>
         | (_, v) \<Rightarrow> v)
      else w\<lparr>serializer := Serialized buffer\<rparr>)"
| "serializer_step bo num_zero_bytes (Serialized buffer) w = w"
| "serializer_step bo num_zero_bytes (Not_Serialized c) w = w"

text \<open>The miner, whose requests for memory have results of their own, links a node.\<close>

definition link_block :: "block_t \<Rightarrow> bool list \<Rightarrow> shared_list \<Rightarrow> shared_list" where
  "link_block b ms w = w\<lparr>linked := linked w @ [b], mallocs := ms\<rparr>"

inductive list_step :: "byte_order \<Rightarrow> u64 \<Rightarrow> shared_list \<Rightarrow> shared_list \<Rightarrow> bool" for bo num_zero_bytes where
  serialize: "list_step bo num_zero_bytes w (serializer_step bo num_zero_bytes (serializer w) w)"
| append: "list_step bo num_zero_bytes w (link_block b ms w)"

abbreviation list_steps :: "byte_order \<Rightarrow> u64 \<Rightarrow> shared_list \<Rightarrow> shared_list \<Rightarrow> bool" where
  "list_steps bo num_zero_bytes \<equiv> (list_step bo num_zero_bytes)\<^sup>*\<^sup>*"

section \<open>What the buffer holds\<close>

text \<open>The number of blocks that the header states, \<open>k\<close>, is a length that the list has had; the
  blocks written are the first of the list, and at least as many when the loop ends.\<close>

definition first_blocks :: "nat \<Rightarrow> u64 \<Rightarrow> block_t list \<Rightarrow> blockchain_t" where
  "first_blocks k n bs = \<lparr>block_list = take k bs, num_leading_zero_bytes_required_in_block_hash = n\<rparr>"

definition buffer_of :: "u64 \<Rightarrow> nat \<Rightarrow> block_t list \<Rightarrow> u8 list" where
  "buffer_of n k bs = be_bytes n @ be_bytes (of_nat k :: u64) @ concat (map wire_block bs)"

fun serializer_inv :: "u64 \<Rightarrow> nat \<Rightarrow> block_t list \<Rightarrow> serializer \<Rightarrow> bool" where
  "serializer_inv n j bs (Counting i) \<longleftrightarrow> j \<le> length bs \<and> i \<le> length bs"
| "serializer_inv n j bs (Header m) \<longleftrightarrow> (\<exists>k. j \<le> k \<and> k \<le> length bs \<and> m = of_nat k)"
| "serializer_inv n j bs (Writing i buffer) \<longleftrightarrow>
     (\<exists>k. j \<le> k \<and> k \<le> length bs \<and> i \<le> length bs \<and> buffer = buffer_of n k (take i bs))"
| "serializer_inv n j bs (Serialized buffer) \<longleftrightarrow>
     (\<exists>k m. j \<le> k \<and> k \<le> m \<and> m \<le> length bs \<and> buffer = buffer_of n k (take m bs))"
| "serializer_inv n j bs (Not_Serialized c) \<longleftrightarrow> True"

lemma serializer_inv_append:
  assumes "serializer_inv n j bs p"
  shows "serializer_inv n j (bs @ [b]) p"
proof (cases p)
  case (Header m)
  with assms obtain k where "j \<le> k" "k \<le> length bs" "m = of_nat k" by auto
  then show ?thesis unfolding Header serializer_inv.simps by (intro exI [of _ k]) simp
next
  case (Writing i buffer)
  with assms obtain k where "j \<le> k" "k \<le> length bs" "i \<le> length bs" "buffer = buffer_of n k (take i bs)"
    by auto
  then show ?thesis unfolding Writing serializer_inv.simps by (intro exI [of _ k]) simp
next
  case (Serialized buffer)
  with assms obtain k m where "j \<le> k" "k \<le> m" "m \<le> length bs" "buffer = buffer_of n k (take m bs)"
    by auto
  then show ?thesis unfolding Serialized serializer_inv.simps by (intro exI [of _ k] exI [of _ m]) simp
qed (use assms in simp_all)

lemma alloc_outcomes:
  obtains v where "alloc w = (Ok (), v)" "alloc_step w v"
  | v where "alloc w = (Fail FAILURE_COULD_NOT_MALLOC, v)" "alloc_step w v" "\<not> no_oom w"
  using wp_allocI [of w "\<lambda>_ t. alloc_step w t" "\<lambda>c t. c = FAILURE_COULD_NOT_MALLOC \<and> alloc_step w t \<and> \<not> no_oom w"]
  by (cases "alloc w"; cases "fst (alloc w)") (auto simp: wp_def)

lemma serialize_block_cases:
  obtains v where "serialize_blocks bo buffer [b] w = (Ok (buffer @ wire_block b), v)" "alloc_step w v"
  | v where "serialize_blocks bo buffer [b] w = (Fail FAILURE_COULD_NOT_MALLOC, v)" "alloc_step w v" "\<not> no_oom w"
  using wp_serialize_blocks [of bo buffer "[b]" w]
  by (cases "serialize_blocks bo buffer [b] w"; cases "fst (serialize_blocks bo buffer [b] w)") (auto simp: wp_def)

lemma serializer_step_linked [simp]: "linked (serializer_step bo n p w) = linked w"
proof (cases p)
  case (Header m)
  show ?thesis
    by (rule alloc_outcomes [of w]) (auto simp: Header alloc_step_def)
next
  case (Writing i buffer)
  show ?thesis
    by (rule serialize_block_cases [of bo buffer "linked w ! i" w])
      (auto simp: Writing alloc_step_def simp del: serialize_blocks.simps)
qed simp_all

lemma serializer_inv_I:
  "j \<le> k \<Longrightarrow> k \<le> length bs \<Longrightarrow> serializer_inv n j bs (Header (of_nat k))"
  "j \<le> k \<Longrightarrow> k \<le> length bs \<Longrightarrow> i \<le> length bs \<Longrightarrow>
     serializer_inv n j bs (Writing i (buffer_of n k (take i bs)))"
  "j \<le> k \<Longrightarrow> k \<le> m \<Longrightarrow> m \<le> length bs \<Longrightarrow> serializer_inv n j bs (Serialized (buffer_of n k (take m bs)))"
  by (fastforce intro: exI [of _ k])+

lemma serializer_step_inv:
  assumes "serializer_inv n j (linked w) (serializer w)"
  shows "serializer_inv n j (linked w) (serializer (serializer_step bo n (serializer w) w))"
proof (cases "serializer w")
  case (Counting i)
  show ?thesis
  proof (cases "i < length (linked w)")
    case False
    with assms Counting have "j \<le> i" "i \<le> length (linked w)" by simp_all
    then show ?thesis
      using serializer_inv_I(1) [of j i "linked w" n] Counting False by (simp del: serializer_inv.simps(2))
  qed (use assms Counting in simp)
next
  case (Header m)
  then obtain k where k: "j \<le> k" "k \<le> length (linked w)" "m = of_nat k" using assms by auto
  show ?thesis
  proof (rule alloc_outcomes [of w])
    fix v assume "alloc w = (Ok (), v)"
    moreover have "store_u64 bo n @ store_u64 bo m = buffer_of n k (take 0 (linked w))"
      by (simp add: buffer_of_def k(3))
    ultimately show ?thesis
      using Header serializer_inv_I(2) [OF k(1,2), of 0] by (simp del: serializer_inv.simps)
  qed (simp add: Header)
next
  case (Writing i buffer)
  then obtain k where k: "j \<le> k" "k \<le> length (linked w)" "i \<le> length (linked w)"
    "buffer = buffer_of n k (take i (linked w))"
    using assms by auto
  show ?thesis
  proof (cases "i < length (linked w)")
    case True
    then have "buffer @ wire_block (linked w ! i) = buffer_of n k (take (Suc i) (linked w))"
      by (simp add: k(4) buffer_of_def take_Suc_conv_app_nth)
    then show ?thesis
      using True Writing serializer_inv_I(2) [OF k(1,2), of "Suc i" n]
      by (rule_tac serialize_block_cases [of bo buffer "linked w ! i" w])
        (simp_all del: serialize_blocks.simps serializer_inv.simps(3))
  next
    case False
    then have "k \<le> i" "i \<le> length (linked w)" using k(2,3) by simp_all
    then show ?thesis
      using serializer_inv_I(3) [OF k(1), of i "linked w" n] False Writing by (simp add: k(4) del: serializer_inv.simps)
  qed
qed (use assms in simp_all)

lemma list_steps_read:
  "list_steps bo n w v \<Longrightarrow> list_steps bo n w (serializer_step bo n (serializer v) v)"
  by (rule rtranclp.rtrancl_into_rtrancl) (auto intro: list_step.serialize)

lemma list_steps_inv:
  assumes "list_steps bo n w v" and "serializer w = Counting 0"
  shows "(\<exists>bs. linked v = linked w @ bs) \<and> serializer_inv n (length (linked w)) (linked v) (serializer v)"
  using assms(1)
proof induction
  case base
  then show ?case by (simp add: assms(2))
next
  case (step u v)
  from step(2) show ?case
  proof cases
    case serialize
    then show ?thesis using step(3) serializer_step_inv by auto
  next
    case (append b ms)
    then show ?thesis using step(3) by (auto simp: link_block_def serializer_inv_append)
  qed
qed

section \<open>What is sent is an earlier chain\<close>

lemma buffer_of_first_blocks:
  assumes "k \<le> m" and "m \<le> length bs"
  shows "buffer_of n k (take m bs) =
    wire_chain (first_blocks k n bs) @ concat (map wire_block (drop k (take m bs)))"
proof -
  have "concat (map wire_block (take m bs)) =
      concat (map wire_block (take k bs)) @ concat (map wire_block (drop k (take m bs)))"
    using assms append_take_drop_id [of k "take m bs"] by (metis concat_append map_append min.absorb1 take_take)
  then show ?thesis using assms by (simp add: buffer_of_def wire_chain_def first_blocks_def)
qed

lemma deliverable_first_blocks:
  assumes "deliverable ssl bo n c"
  shows "deliverable ssl bo n (first_blocks k n (block_list c))"
proof -
  let ?bs = "block_list c"
  have c: "acceptable ssl bo n c" "signatures_fit ?bs" "unat n \<le> SHA256_DIGEST_LENGTH" "wire_chain_size c < 2 ^ 62"
    using assms by (simp_all add: deliverable_def)
  have "sum_list (map wire_block_size (take k ?bs)) \<le> sum_list (map wire_block_size ?bs)"
    by (metis append_take_drop_id le_add1 map_append sum_list_append)
  then have "wire_chain_size (first_blocks k n ?bs) < 2 ^ 62"
    using c(4) by (simp add: wire_chain_size_def first_blocks_def)
  moreover have "valid_chain ssl bo n (take k ?bs)"
    using c(1) valid_chain_prefix [of ssl bo n "take k ?bs" "drop k ?bs"] by (simp add: acceptable_def)
  moreover have "set (take k ?bs) \<subseteq> set ?bs" by (rule set_take_subset)
  ultimately show ?thesis
    using c(1-3) by (auto simp: deliverable_def acceptable_def first_blocks_def wf_blockchain_def signatures_fit_def)
qed

lemma serialized_buffer:
  assumes "list_steps bo n w v" and "serializer w = Counting 0" and "serializer v = Serialized buffer"
  obtains k m where "length (linked w) \<le> k" "k \<le> m" "m \<le> length (linked v)"
    and "buffer = wire_chain (first_blocks k n (linked v)) @ concat (map wire_block (drop k (take m (linked v))))"
proof -
  from list_steps_inv [OF assms(1,2)] assms(3) obtain k m where "length (linked w) \<le> k" "k \<le> m"
    "m \<le> length (linked v)" "buffer = buffer_of n k (take m (linked v))"
    by auto
  with buffer_of_first_blocks [of k m "linked v" n] that show ?thesis by simp
qed

section \<open>The thread alone\<close>

text \<open>Without appends the steps are those of \<open>blockchain_serialize\<close>, whose functions do not look at
  the position of the thread.\<close>

definition blind :: "(shared_list, 'a) prog \<Rightarrow> bool" where
  "blind m \<longleftrightarrow> (\<forall>w p. m (w\<lparr>serializer := p\<rparr>) = map_prod id (serializer_update (\<lambda>_. p)) (m w))"

lemma blind_ret: "blind (ret v)"
  by (simp add: blind_def ret_def)

lemma blind_alloc: "blind alloc"
  by (auto simp: blind_def alloc_def malloc_def seq_def prog_basic split: list.split)

lemma blind_seq: "blind m \<Longrightarrow> (\<And>v. blind (f v)) \<Longrightarrow> blind (seq m f)"
  unfolding blind_def seq_def by (auto split: prod.split outcome.split)

lemma blind_serialize_transactions: "blind (serialize_transactions bo buffer ts)"
  by (induction ts arbitrary: buffer) (simp_all add: blind_ret blind_seq blind_alloc)

lemma blind_serialize_blocks: "blind (serialize_blocks bo buffer bs)"
  by (induction bs arbitrary: buffer)
    (simp_all add: ll_length_def blind_ret blind_seq blind_alloc blind_serialize_transactions)

lemma serialize_blocks_Cons:
  "serialize_blocks bo buffer (b # bs) =
     seq (serialize_blocks bo buffer [b]) (\<lambda>buffer. serialize_blocks bo buffer bs)"
  by (simp add: seq_assoc)

text \<open>Where the thread is when it has an outcome.\<close>

fun ended :: "u8 list outcome \<Rightarrow> serializer \<Rightarrow> bool" where
  "ended (Ok buffer) p \<longleftrightarrow> p = Serialized buffer"
| "ended (Fail c) p \<longleftrightarrow> p = Not_Serialized c"
| "ended _ p \<longleftrightarrow> False"

abbreviation alone :: "byte_order \<Rightarrow> u64 \<Rightarrow> shared_list \<Rightarrow> shared_list \<Rightarrow> bool" where
  "alone bo n \<equiv> (\<lambda>w v. v = serializer_step bo n (serializer w) w)\<^sup>*\<^sup>*"

lemma alone_step: "alone bo n (serializer_step bo n (serializer w) w) v \<Longrightarrow> alone bo n w v"
  by (rule converse_rtranclp_into_rtranclp) auto

lemma alone_counts:
  "serializer w = Counting i \<Longrightarrow> i \<le> length (linked w) \<Longrightarrow>
    alone bo n w (w\<lparr>serializer := Header (of_nat (length (linked w)))\<rparr>)"
proof (induction "length (linked w) - i" arbitrary: i w)
  case 0
  then show ?case by (rule_tac alone_step) simp
next
  case (Suc d)
  let ?w = "w\<lparr>serializer := Counting (Suc i)\<rparr>"
  have "alone bo n ?w (?w\<lparr>serializer := Header (of_nat (length (linked ?w)))\<rparr>)"
    by (rule Suc.hyps(1) [of _ "Suc i"]) (use Suc.hyps(2) in simp_all)
  then show ?case using Suc by (rule_tac alone_step) simp
qed

lemma serializer_step_writes:
  assumes "serializer w = Writing i buffer" and "i < length (linked w)"
  shows "serialize_blocks bo buffer [linked w ! i] w = (Ok buffer', v) \<Longrightarrow>
      serializer_step bo n (serializer w) w = v\<lparr>serializer := Writing (Suc i) buffer'\<rparr>"
    and "serialize_blocks bo buffer [linked w ! i] w = (Fail c, v) \<Longrightarrow>
      serializer_step bo n (serializer w) w = v\<lparr>serializer := Not_Serialized c\<rparr>"
  using assms by (simp_all del: serialize_blocks.simps)

lemma alone_writes:
  assumes "serializer w = Writing i buffer" and "i \<le> length (linked w)"
    and "serialize_blocks bo buffer (drop i (linked w)) w = (out, t)"
  shows "\<exists>p. alone bo n w (t\<lparr>serializer := p\<rparr>) \<and> ended out p"
  using assms
proof (induction "length (linked w) - i" arbitrary: i w buffer t)
  case 0
  then have "out = Ok buffer" "t = w" by (simp_all add: ret_def)
  moreover have "alone bo n w (w\<lparr>serializer := Serialized buffer\<rparr>)" using 0 by (rule_tac alone_step) simp
  ultimately show ?case by (intro exI [of _ "Serialized buffer"]) simp
next
  case (Suc d)
  then have i: "i < length (linked w)" by simp
  let ?b = "linked w ! i"
  have run: "seq (serialize_blocks bo buffer [?b]) (\<lambda>buffer. serialize_blocks bo buffer (drop (Suc i) (linked w))) w =
      (out, t)"
    by (simp only: serialize_blocks_Cons [symmetric] Cons_nth_drop_Suc [OF i] Suc.prems(3))
  show ?case
  proof (rule serialize_block_cases [of bo buffer ?b w])
    fix v assume v: "serialize_blocks bo buffer [?b] w = (Ok (buffer @ wire_block ?b), v)" "alloc_step w v"
    define p where "p = Writing (Suc i) (buffer @ wire_block ?b)"
    define u where "u = v\<lparr>serializer := p\<rparr>"
    have same: "linked u = linked w" "serializer u = p"
      using v(2) by (auto simp: alloc_step_def u_def)
    have "serialize_blocks bo (buffer @ wire_block ?b) (drop (Suc i) (linked w)) v = (out, t)"
      using run v(1) by (simp only: seq_def prod.case outcome.case)
    then have rest: "serialize_blocks bo (buffer @ wire_block ?b) (drop (Suc i) (linked u)) u = (out, t\<lparr>serializer := p\<rparr>)"
      using blind_serialize_blocks [unfolded blind_def] same by (simp add: u_def)
    have d: "d = length (linked u) - Suc i" using Suc.hyps(2) same by simp
    have "\<exists>q. alone bo n u (t\<lparr>serializer := p, serializer := q\<rparr>) \<and> ended out q"
      by (rule Suc.hyps(1) [OF d _ _ rest]) (use i same in \<open>simp_all add: p_def\<close>)
    then obtain q where "alone bo n u (t\<lparr>serializer := q\<rparr>)" "ended out q" by auto
    then show ?case
      using serializer_step_writes(1) [OF Suc.prems(1) i v(1), of n] alone_step [of bo n w "t\<lparr>serializer := q\<rparr>"]
      unfolding p_def u_def by (intro exI [of _ q]) (simp only: simp_thms)
  next
    fix v assume v: "serialize_blocks bo buffer [?b] w = (Fail FAILURE_COULD_NOT_MALLOC, v)"
    then have "out = Fail FAILURE_COULD_NOT_MALLOC" "t = v"
      using run by (simp_all only: seq_def v prod.case outcome.case prod.inject)
    then show ?case
      using serializer_step_writes(2) [OF Suc.prems(1) i v, of n]
        alone_step [of bo n w "v\<lparr>serializer := Not_Serialized FAILURE_COULD_NOT_MALLOC\<rparr>"]
      by (intro exI [of _ "Not_Serialized FAILURE_COULD_NOT_MALLOC"]) simp
  qed
qed

section \<open>Properties\<close>

text \<open>C14. The race is harmless: whatever the miner appends while a consensus thread serializes the
  chain, the receiver of the message gets the first blocks of the chain, all that it had when the
  serialization started and perhaps some that were appended meanwhile, and finds them valid.
  (Blocks that are written after they were counted follow the chain in the message, where the
  receiver does not look.)\<close>

theorem racing_append_is_harmless:
  assumes "hashing_ok ssl" and "list_steps bo n w v" and "serializer w = Counting 0"
    and "serializer v = Serialized buffer"
    and "deliverable ssl bo n \<lparr>block_list = linked v, num_leading_zero_bytes_required_in_block_hash = n\<rparr>"
    and "arriving s = wire_data (message COMMAND_SEND_BLOCKCHAIN buffer) @ later" and "no_oom s"
  shows "\<exists>k. length (linked w) \<le> k \<and> k \<le> length (linked v) \<and> take (length (linked w)) (linked v) = linked w \<and>
    wp (receive_blockchain ssl bo now)
      (\<lambda>(_, c, is_valid) _. c = first_blocks k n (linked v) \<and> is_valid) (\<lambda>_ _. False) s"
proof -
  let ?c = "\<lparr>block_list = linked v, num_leading_zero_bytes_required_in_block_hash = n\<rparr>"
  obtain k m where k: "length (linked w) \<le> k" "k \<le> m" "m \<le> length (linked v)"
    and buffer: "buffer = wire_chain (first_blocks k n (linked v)) @ concat (map wire_block (drop k (take m (linked v))))"
    using serialized_buffer [OF assms(2-4)] .
  have "buffer = wire_chain (first_blocks k n (linked v)) @ concat (map wire_block (drop k (take m (linked v)))) \<Longrightarrow>
      length buffer \<le> length (wire_chain ?c)"
    using k
    by (simp add: wire_chain_def first_blocks_def)
      (metis (no_types, lifting) append_take_drop_id concat_append length_append le_add1 map_append min.absorb1 take_take)
  then have len: "length buffer < 2 ^ 62" using buffer deliverable_length [OF assms(5)] by simp
  have "deliverable ssl bo n (first_blocks k n (linked v))"
    using deliverable_first_blocks [OF assms(5), of k] by simp
  from wp_receive_blockchain_and_extra [OF assms(1) this len [unfolded buffer] assms(6) [unfolded buffer] assms(7)]
  have "wp (receive_blockchain ssl bo now)
      (\<lambda>(_, c, is_valid) _. c = first_blocks k n (linked v) \<and> is_valid) (\<lambda>_ _. False) s"
    by (rule wp_mono) auto
  moreover have "take (length (linked w)) (linked v) = linked w"
    using list_steps_inv [OF assms(2,3)] by auto
  ultimately show ?thesis using k by auto
qed

text \<open>The miner appends between the count and the loop: the header says one block, two are written.\<close>

definition raced_list :: shared_list where
  "raced_list = \<lparr>mallocs = [], linked = [toy_genesis], serializer = Counting 0\<rparr>"

lemma serialize_block_plenty:
  "mallocs w = [] \<Longrightarrow> serialize_blocks bo buffer [b] w = (Ok (buffer @ wire_block b), w)"
  by (rule serialize_block_cases [of bo buffer b w]) (auto simp: alloc_step_def no_oom_def)

lemma raced_run:
  "\<exists>v. list_steps Little_Endian 3 raced_list v \<and> linked v = [toy_genesis, toy_block [toy_mint]] \<and>
     serializer v = Serialized (buffer_of 3 1 [toy_genesis, toy_block [toy_mint]])"
proof -
  let ?step = "\<lambda>w. serializer_step Little_Endian 3 (serializer w) w"
  let ?counted = "?step (?step (?step raced_list))"
  let ?appended = "link_block (toy_block [toy_mint]) [] ?counted"
  let ?v = "?step (?step (?step ?appended))"
  have "list_steps Little_Endian 3 raced_list ?counted"
    by (intro list_steps_read) simp
  then have "list_steps Little_Endian 3 raced_list ?appended"
    by (rule rtranclp.rtrancl_into_rtrancl) (rule list_step.append)
  then have run: "list_steps Little_Endian 3 raced_list ?v"
    by (intro list_steps_read)
  have "?counted = raced_list\<lparr>serializer := Writing 0 (be_bytes (3 :: u64) @ be_bytes (1 :: u64))\<rparr>"
    by (simp add: raced_list_def alloc_def malloc_def seq_def prog_basic)
  then have "?appended = \<lparr>mallocs = [], linked = [toy_genesis, toy_block [toy_mint]],
      serializer = Writing 0 (be_bytes (3 :: u64) @ be_bytes (1 :: u64))\<rparr>"
    by (simp add: link_block_def raced_list_def)
  then have "?v = \<lparr>mallocs = [], linked = [toy_genesis, toy_block [toy_mint]],
      serializer = Serialized (buffer_of 3 1 [toy_genesis, toy_block [toy_mint]])\<rparr>"
    by (simp only:) (simp add: serialize_block_plenty buffer_of_def del: serialize_blocks.simps)
  with run show ?thesis by (intro exI [of _ ?v]) simp
qed

theorem racing_append_is_harmless_witness:
  "\<exists>c. wp (receive_blockchain (toy_ssl 4) Little_Endian 7) (\<lambda>(_, d, is_valid) _. d = c \<and> is_valid) (\<lambda>_ _. False)
     (toy_net [Received (wire_data (message COMMAND_SEND_BLOCKCHAIN
        (buffer_of 3 1 [toy_genesis, toy_block [toy_mint]])))] [])"
proof -
  obtain v where v: "list_steps Little_Endian 3 raced_list v" "linked v = [toy_genesis, toy_block [toy_mint]]"
    "serializer v = Serialized (buffer_of 3 1 [toy_genesis, toy_block [toy_mint]])"
    using raced_run by blast
  have d: "deliverable (toy_ssl 4) Little_Endian 3
      \<lparr>block_list = linked v, num_leading_zero_bytes_required_in_block_hash = 3\<rparr>"
    using toy_deliverable(2) by (simp add: v(2) toy_chain_def)
  show ?thesis
    using racing_append_is_harmless [OF toy_chain_facts(1) v(1) _ v(3) d, where later = "[]"
        and s = "toy_net [Received (wire_data (message COMMAND_SEND_BLOCKCHAIN
          (buffer_of 3 1 [toy_genesis, toy_block [toy_mint]])))] []" and now = 7]
    by (auto simp: raced_list_def toy_net_def no_oom_def)
qed

text \<open>C36. The steps are those of the code: a thread that nobody disturbs reaches what
  blockchain_serialize returns, its buffer or its failure, and leaves the same memory.\<close>

theorem serializer_alone_is_serialize:
  assumes "serializer w = Counting 0"
    and "blockchain_serialize bo (Some \<lparr>block_list = linked w, num_leading_zero_bytes_required_in_block_hash = n\<rparr>)
      True True w = (out, t)"
  shows "\<exists>p. alone bo n w (t\<lparr>serializer := p\<rparr>) \<and> (case out of
      Ok (buffer, buffer_size) \<Rightarrow> p = Serialized buffer \<and> buffer_size = of_nat (length buffer)
    | Fail c \<Rightarrow> p = Not_Serialized c | _ \<Rightarrow> False)"
proof -
  let ?header = "store_u64 bo n @ store_u64 bo (of_nat (length (linked w)) :: u64)"
  let ?w = "w\<lparr>serializer := Header (of_nat (length (linked w)))\<rparr>"
  have count: "alone bo n w ?w" by (rule alone_counts [OF assms(1)]) simp
  have run: "seq alloc (\<lambda>_. seq (serialize_blocks bo ?header (linked w)) (\<lambda>buffer.
      ret (buffer, of_nat (length buffer)))) w = (out, t)"
    using assms(2) by (simp add: blockchain_serialize_def ll_length_def)
  show ?thesis
  proof (rule alloc_outcomes [of w])
    fix v assume v: "alloc w = (Ok (), v)" "alloc_step w v"
    let ?v = "v\<lparr>serializer := Writing 0 ?header\<rparr>"
    have same: "linked ?v = linked w" using v(2) by (auto simp: alloc_step_def)
    obtain out' t' where s: "serialize_blocks bo ?header (linked w) v = (out', t')" by fastforce
    have "alloc ?w = (Ok (), v\<lparr>serializer := Header (of_nat (length (linked w)))\<rparr>)"
      using blind_alloc [unfolded blind_def] v(1) by simp
    then have "serializer_step bo n (serializer ?w) ?w = ?v" by simp
    then have "alone bo n w ?v" using count by (metis (mono_tags, lifting) rtranclp.rtrancl_into_rtrancl)
    moreover have "serialize_blocks bo ?header (drop 0 (linked ?v)) ?v = (out', t'\<lparr>serializer := Writing 0 ?header\<rparr>)"
      using blind_serialize_blocks [unfolded blind_def] s same by simp
    from alone_writes [OF _ _ this] obtain p where "alone bo n ?v (t'\<lparr>serializer := p\<rparr>)" "ended out' p" by auto
    moreover have "seq (serialize_blocks bo ?header (linked w)) (\<lambda>buffer. ret (buffer, of_nat (length buffer))) v = (out, t)"
      using run v(1) by (simp add: seq_Ok)
    ultimately show ?thesis
      using s by (intro exI [of _ p]) (cases out'; auto simp: seq_def prog_basic)
  next
    fix v assume v: "alloc w = (Fail FAILURE_COULD_NOT_MALLOC, v)"
    have "alloc ?w = (Fail FAILURE_COULD_NOT_MALLOC, v\<lparr>serializer := Header (of_nat (length (linked w)))\<rparr>)"
      using blind_alloc [unfolded blind_def] v(1) by simp
    then have "serializer_step bo n (serializer ?w) ?w = v\<lparr>serializer := Not_Serialized FAILURE_COULD_NOT_MALLOC\<rparr>" by simp
    then have "alone bo n w (v\<lparr>serializer := Not_Serialized FAILURE_COULD_NOT_MALLOC\<rparr>)"
      using count by (metis (mono_tags, lifting) rtranclp.rtrancl_into_rtrancl)
    then show ?thesis using run v by (auto simp: seq_Fail)
  qed
qed

theorem serializer_alone_is_serialize_witness:
  "\<exists>p. alone Big_Endian 3 raced_list (raced_list\<lparr>serializer := p\<rparr>) \<and> p = Serialized (buffer_of 3 1 [toy_genesis])"
proof -
  have "serialize_blocks Big_Endian buffer [toy_genesis] raced_list = (Ok (buffer @ wire_block toy_genesis), raced_list)"
    for buffer by (rule serialize_block_plenty) (simp add: raced_list_def)
  then have "blockchain_serialize Big_Endian
      (Some \<lparr>block_list = linked raced_list, num_leading_zero_bytes_required_in_block_hash = 3\<rparr>) True True raced_list =
    (Ok (buffer_of 3 1 [toy_genesis], of_nat (length (buffer_of 3 1 [toy_genesis]))), raced_list)"
    by (simp add: blockchain_serialize_def ll_length_def raced_list_def alloc_def malloc_def seq_def prog_basic
        buffer_of_def del: serialize_blocks.simps)
  from serializer_alone_is_serialize [OF _ this] show ?thesis by (auto simp: raced_list_def)
qed

end
