(* ===== verification/Miner_Outputs.thy ===== *)
theory Miner_Outputs
  imports Mining_Thread
begin

text \<open>
  What mine_blocks of src/mining_thread.c tells others beside the chain: the flag \<open>exit_ready\<close>,
  which a caller waits for with a timeout, and the file in which the chain survives the process.
\<close>

section \<open>The flag\<close>

lemma finish_exit_ready [simp]: "exit_ready (finish e w) = exit_ready w"
  by (simp add: finish_def split: prod.split outcome.split bool.split)

lemma join_exit_ready:
  "exit_ready (k w) = exit_ready w \<Longrightarrow> exit_ready (join_broadcast joins_garbage w k) = exit_ready w"
  by (simp add: join_broadcast_def)

text \<open>Only the end of the loop sets the flag.\<close>

lemma miner_step_exit_ready:
  assumes "\<nexists>p c. s = Check_Version p c"
  shows "exit_ready (miner_step ssl bo args joins_garbage a w s) = exit_ready w"
proof (cases s)
  case (Add p b)
  then show ?thesis
    by (auto simp: join_exit_ready split: option.split prod.split outcome.split)
qed (use assms in \<open>auto simp: after_mining_def Let_def
  split: option.split prod.split outcome.split sum.split\<close>)

text \<open>Until the miner has returned the flag is not set, and then it says how the loop was left.\<close>

definition exit_flag_ok :: "miner \<Rightarrow> bool" where
  "exit_flag_ok w \<longleftrightarrow>
     (case pc w of
        Returned c \<Rightarrow> exit_ready w \<longleftrightarrow> stop_code c
      | Faulty f \<Rightarrow> True
      | Check_Version p c \<Rightarrow> \<not> exit_ready w \<and> stop_code c
      | _ \<Rightarrow> \<not> exit_ready w)"

lemma exit_flag_ok_finish:
  "\<not> exit_ready w \<Longrightarrow> \<not> stop_code e \<Longrightarrow> exit_flag_ok (finish e w)"
  using finish_facts [of w e] by (auto simp: exit_flag_ok_def)

lemma exit_flag_ok_finish_announced: "stop_code e \<Longrightarrow> exit_flag_ok (finish e (announced w))"
  using finish_facts [of "announced w" e] by (auto simp: exit_flag_ok_def announced_def)

lemma exit_flag_ok_join:
  "exit_flag_ok (k w) \<Longrightarrow> exit_flag_ok (join_broadcast joins_garbage w k)"
  by (simp add: join_broadcast_def exit_flag_ok_def)

lemma exit_flag_ok_after_mining:
  "\<not> exit_ready w \<Longrightarrow> e \<noteq> SUCCESS \<Longrightarrow> exit_flag_ok (after_mining p e w)"
  by (auto simp: after_mining_def exit_flag_ok_finish) (simp_all add: exit_flag_ok_def)

lemma miner_step_exit_flag_ok:
  assumes "miner_ok ssl bo n w" and "openssl_ok ssl args" and "unat n \<le> SHA256_DIGEST_LENGTH"
    and "exit_flag_ok w"
  shows "exit_flag_ok (miner_step ssl bo args joins_garbage a w (pc w))"
proof -
  have hash: "hashing_ok ssl" using assms(2) by (simp add: openssl_ok_def)
  show ?thesis
  proof (cases "pc w")
    case (Check_Version p c)
    then show ?thesis
      using assms(4) by (auto intro!: exit_flag_ok_join exit_flag_ok_finish_announced) (simp_all add: exit_flag_ok_def)
  next
    case (Drop old p)
    then obtain c where "chains (ledger_of w) old = Some c"
      using assms(1) by (auto simp: miner_ok_def alive_def)
    then show ?thesis using Drop assms(4) by (simp add: exit_flag_ok_def)
  next
    case (Build p)
    then obtain c where c: "chains (ledger_of w) p = Some c" "acceptable ssl bo n c"
      using assms(1) by (auto simp: miner_ok_def alive_def)
    have fin: "exit_flag_ok (finish e (w\<lparr>ledger_of := l\<rparr>))" if "\<not> stop_code e" for e l
      using that assms(4) Build by (intro exit_flag_ok_finish) (simp_all add: exit_flag_ok_def)
    show ?thesis
      using wp_build_block [OF assms(2,3) c(2), of "transaction_time a" "block_time a" "ledger_of w"] Build c(1) assms(4) fin
      by (auto simp: wp_def split: prod.splits outcome.splits) (simp_all add: exit_flag_ok_def)
  next
    case (Mine p q x m)
    then obtain c where c: "chains (ledger_of w) q = Some c" "num_leading_zero_bytes_required_in_block_hash c = n"
      using assms(1) by (auto simp: miner_ok_def alive_def acceptable_def)
    obtain k best digest where x: "x = (k, best, digest)" by (cases x)
    have off: "\<not> exit_ready w" using Mine assms(4) by (simp add: exit_flag_ok_def)
    show ?thesis
      using wp_mine_iteration [OF hash c(2) assms(3), of bo args a w k best digest m] Mine c(1)
        exit_flag_ok_after_mining [OF off]
      by (auto simp: wp_def x split: prod.splits outcome.splits sum.splits) (simp_all add: exit_flag_ok_def off)
  next
    case (Add p b)
    then obtain c where c: "chains (ledger_of w) p = Some c"
      using assms(1) by (auto simp: miner_ok_def candidate_at_def)
    have off: "\<not> exit_ready w" using Add assms(4) by (simp add: exit_flag_ok_def)
    have fin: "exit_flag_ok (finish e (w\<lparr>ledger_of := l\<rparr>))" if "\<not> stop_code e" for e l
      using that off by (intro exit_flag_ok_finish) simp_all
    show ?thesis
      using wp_extend_chain [of c b "ledger_of w"] Add c fin off
      by (auto simp: wp_def split: prod.splits outcome.splits intro!: exit_flag_ok_join) (simp_all add: exit_flag_ok_def)
  qed (use assms(4) in \<open>auto simp: exit_flag_ok_def [of w] exit_flag_ok_def [of "_\<lparr>pc := _\<rparr>"] Let_def
      intro!: exit_flag_ok_finish exit_flag_ok_after_mining\<close>)
qed

lemma steps_exit_flag_ok:
  assumes "steps ssl bo args joins_garbage w v" and "miner_ok ssl bo n w" and "pc w \<noteq> Start"
    and "openssl_ok ssl args" and "unat n \<le> SHA256_DIGEST_LENGTH" and "exit_flag_ok w"
  shows "exit_flag_ok v"
proof -
  obtain x where "node_steps ssl bo args joins_garbage (w, None) (v, x)" using assms(1) by (auto simp: steps_def)
  then show ?thesis
  proof (rule node_steps_invariant [where P = exit_flag_ok, OF _ _ assms(4,5,6)])
    show "exit_flag_ok (miner_step ssl bo args joins_garbage a u (pc u))"
      if "miner_ok ssl bo n u" "exit_flag_ok u" for u a
      by (rule miner_step_exit_flag_ok [OF that(1) assms(4,5) that(2)])
    show "exit_flag_ok (u\<lparr>ledger_of := l\<rparr>)" if "exit_flag_ok u" for u l
      using that by (cases "pc u") (simp_all add: exit_flag_ok_def)
  qed (use assms(2,3) in simp)
qed

section \<open>The file\<close>

lemma save_chain_saves:
  assumes "wf_blockchain c" and "wire_chain_size c < 2 ^ 64" and "no_oom (ledger_of w)"
    and "fopen_wb io name" and "wire_chain_size c \<le> fwrite_limit io"
  shows "saved (save_chain bo io (Some name) c w) = Some (wire_chain c)"
proof -
  let ?s = "\<lparr>mallocs = mallocs (ledger_of w), contents = (\<lambda>_. saved w)\<rparr>"
  have "wp (blockchain_write_to_file bo io (Some c) (Some name))
      (\<lambda>_ t. contents t name = Some (wire_chain c)) (\<lambda>_ _. False) ?s"
    by (rule wp_mono [OF wp_blockchain_write_to_file [OF assms(1,2)]])
      (use assms(3-5) in \<open>auto simp: no_oom_def\<close>)
  then show ?thesis by (auto simp: save_chain_def wp_Ok_iff split: prod.split)
qed

lemma extend_chain_no_oom:
  assumes "no_oom l" and "Suc (length (block_list c)) < 2 ^ 64"
  shows "wp (extend_chain c b) (\<lambda>d t. d = c\<lparr>block_list := block_list c @ [b]\<rparr> \<and> no_oom t) (\<lambda>_ _. False) l"
  using assms
  by (auto simp: extend_chain_def blockchain_add_block_def intro!: wp_ll_appendI dest: alloc_step_no_oom)

section \<open>Properties\<close>

text \<open>C28. A caller that waits for exit_ready is told of a regular end only: in every interleaving, a
  mine_blocks that has returned has set the flag if its code is SUCCESS or that of a search for
  a proof that failed, and it has not for any other code, although the comment on
  mine_blocks_args_t promises that it sets the flag before it returns: who waits for a mine_blocks
  that failed waits until the timeout. The flag is never set while the miner still runs.\<close>

theorem failed_miner_never_announces_exit:
  assumes "steps ssl bo args joins_garbage w v" and "miner_ok ssl bo n w" and "pc w \<noteq> Start"
    and "\<nexists>c. pc w = Returned c" and "\<not> exit_ready w" and "\<forall>p c. pc w = Check_Version p c \<longrightarrow> stop_code c"
    and "openssl_ok ssl args" and "unat n \<le> SHA256_DIGEST_LENGTH"
  shows "(\<forall>c. pc v = Returned c \<longrightarrow>
      (exit_ready v \<longleftrightarrow> c = SUCCESS \<or> c = FAILURE_COULD_NOT_FIND_VALID_PROOF_OF_WORK)) \<and>
    (exit_ready v \<longrightarrow> (\<exists>c. pc v = Returned c) \<or> (\<exists>f. pc v = Faulty f))"
proof -
  have "exit_flag_ok w" using assms(3-6) by (cases "pc w") (simp_all add: exit_flag_ok_def)
  from steps_exit_flag_ok [OF assms(1,2,3,7,8) this] show ?thesis
    by (cases "pc v") (simp_all add: exit_flag_ok_def)
qed

theorem failed_miner_never_announces_exit_witness:
  "\<exists>v u. steps (toy_ssl 4) Little_Endian toy_miner_args True ((toy_miner toy_start)\<lparr>pc := Publish 0\<rparr>) v \<and>
     steps (toy_ssl 4) Little_Endian toy_miner_args True (toy_miner toy_start) u \<and>
     pc v = Returned FAILURE_PTHREAD_FUNCTION \<and> \<not> exit_ready v \<and> pc u = Returned SUCCESS \<and> exit_ready u"
proof -
  let ?run = "run_miner (toy_ssl 4) Little_Endian toy_miner_args True"
  let ?w = "(toy_miner toy_start)\<lparr>pc := Publish 0\<rparr>"
  let ?v = "?run (working\<lparr>locked := False\<rparr>) 1 ?w"
    and ?u = "?run (working\<lparr>should_stop := True\<rparr>) 1 (toy_miner toy_start)"
  have ok: "miner_ok (toy_ssl 4) Little_Endian 3 (toy_miner toy_start)"
    by (rule toy_miner_ok [OF toy_acceptable(2)])
  then have ok': "miner_ok (toy_ssl 4) Little_Endian 3 ?w"
    by (simp add: miner_ok_def toy_miner_def)
  have d: "unat (3 :: u64) \<le> SHA256_DIGEST_LENGTH" by (simp add: size_defs)
  have v: "pc ?v = Returned FAILURE_PTHREAD_FUNCTION" and u: "pc ?u = Returned SUCCESS"
    by (simp_all add: toy_miner_def toy_ledger_def finish_def malloc_def join_broadcast_def announced_def)
  have "\<not> exit_ready ?v"
    using failed_miner_never_announces_exit [OF run_miner_steps [of _ _ _ True _ 1 "working\<lparr>locked := False\<rparr>"] ok' _ _ _ _ toy_openssl_ok d] v
    by (simp add: toy_miner_def)
  moreover have "exit_ready ?u"
    using failed_miner_never_announces_exit [OF run_miner_steps [of _ _ _ True _ 1 "working\<lparr>should_stop := True\<rparr>"] ok _ _ _ _ toy_openssl_ok d] u
    by (simp add: toy_miner_def)
  ultimately show ?thesis using run_miner_steps v u by blast
qed

text \<open>C15. A block that is mined is not lost: when the miner adds a block to its chain, memory
  suffices and the file can be written, the file then holds the whole chain, which is valid, and
  blockchain_read_from_file reads exactly that chain from it, on a host of any byte order.\<close>

theorem mined_chain_is_saved:
  assumes "miner_ok ssl bo n w" and "pc w = Add p b" and "chains (ledger_of w) p = Some c"
    and "outfile args = Some name" and "d = c\<lparr>block_list := block_list c @ [b]\<rparr>"
    and "signatures_fit (block_list d)" and "length (block_list d) < 2 ^ 64" and "wire_chain_size d < 2 ^ 64"
    and "no_oom (ledger_of w)" and "fopen_wb (file_calls a) name" and "wire_chain_size d \<le> fwrite_limit (file_calls a)"
    and "joins_garbage \<or> has_broadcast w"
    and "v = miner_step ssl bo args joins_garbage a w (pc w)"
    and "contents s name = saved v" and "no_oom s" and "fopen_rb io name" and "wire_chain_size d \<le> fread_limit io"
  shows "pc v = Check_Version p SUCCESS \<and> chains (ledger_of v) p = Some d \<and> acceptable ssl bo n d \<and>
    wp (blockchain_read_from_file bo' now io True (Some name)) (\<lambda>e _. e = d) (\<lambda>_ _. False) s"
proof -
  have cand: "acceptable ssl bo n c" "candidate ssl bo c b" "good_proof ssl bo n b (proof_of_work b)"
    using assms(1-3) by (auto simp: miner_ok_def candidate_at_def)
  have len: "Suc (length (block_list c)) < 2 ^ 64" using assms(5,7) by simp
  have d: "acceptable ssl bo n d"
    using candidate_accepted [OF cand(2,3,1) len] assms(5) by simp
  then have wf: "wf_blockchain d" by (simp add: acceptable_def)
  obtain t where t: "extend_chain c b (ledger_of w) = (Ok d, t)" "no_oom t"
    using extend_chain_no_oom [OF assms(9) len, of b] assms(5) by (auto simp: wp_Ok_iff)
  let ?u = "save_chain bo (file_calls a) (outfile args) d (w\<lparr>ledger_of := t\<lparr>chains := (chains t)(p \<mapsto> d)\<rparr>\<rparr>)"
  have "no_oom (t\<lparr>chains := (chains t)(p \<mapsto> d)\<rparr>)" using t(2) by (simp add: no_oom_def)
  then have u: "saved ?u = Some (wire_chain d)"
    using save_chain_saves [OF wf assms(8) _ assms(10,11)] assms(4) by simp
  have v: "v = ?u\<lparr>has_broadcast := created_thread a, pc := Check_Version p SUCCESS\<rparr>"
    using t(1) assms(2,3,12,13) by (auto simp: join_broadcast_def)
  have "contents s name = Some (wire_chain d)" using assms(14) u by (simp add: v)
  then have "wp (blockchain_read_from_file bo' now io True (Some name)) (\<lambda>e _. e = d) (\<lambda>_ _. False) s"
    by (intro wp_mono [OF wp_blockchain_read_from_file [OF wf assms(6,8)]]) (use assms(15-17) in auto)
  then show ?thesis using d by (simp add: v)
qed

theorem mined_chain_is_saved_witness:
  "\<exists>b v. let d = toy_start\<lparr>block_list := [toy_genesis, b]\<rparr> in
     v = miner_step (toy_ssl 4) Little_Endian toy_miner_args True working ((toy_miner toy_start)\<lparr>pc := Add 0 b\<rparr>) (Add 0 b) \<and>
     wp (blockchain_read_from_file Big_Endian 7 (file_calls working) True (Some ''blockchain.bin''))
       (\<lambda>e _. e = d) (\<lambda>_ _. False) \<lparr>mallocs = [], contents = (\<lambda>_. saved v)\<rparr>"
proof -
  let ?b = "toy_block [toy_mint]"
  let ?w = "(toy_miner toy_start)\<lparr>pc := Add 0 ?b\<rparr>"
  have d: "toy_chain [toy_mint] = toy_start\<lparr>block_list := block_list toy_start @ [?b]\<rparr>"
    by (simp add: toy_chain_def toy_start_def)
  let ?v = "miner_step (toy_ssl 4) Little_Endian toy_miner_args True working ?w (pc ?w)"
  have "block_ok (toy_ssl 4) Little_Endian 3 toy_genesis ?b" using toy_block_ok by simp
  moreover have "?b\<lparr>proof_of_work := 0\<rparr> = ?b" by (simp add: toy_block_def)
  ultimately have "candidate (toy_ssl 4) Little_Endian toy_start ?b"
    "good_proof (toy_ssl 4) Little_Endian 3 ?b (proof_of_work ?b)"
    using wf_toy_block [of "[toy_mint]"] wf_toy_mint
    by (auto simp: candidate_def block_ok_def good_proof_def toy_start_def toy_block_def)
  then have ok: "miner_ok (toy_ssl 4) Little_Endian 3 ?w"
    using toy_miner_ok [OF toy_acceptable(2) [of Little_Endian]] toy_acceptable(2)
    by (auto simp: miner_ok_def toy_miner_def candidate_at_def up_to_date_def toy_ledger_def)
  have len: "length (block_list (toy_chain [toy_mint])) < 2 ^ 64" by (simp add: toy_chain_def)
  have "wp (blockchain_read_from_file Big_Endian 7 (file_calls working) True (Some ''blockchain.bin''))
      (\<lambda>e _. e = toy_chain [toy_mint]) (\<lambda>_ _. False) \<lparr>mallocs = [], contents = (\<lambda>_. saved ?v)\<rparr>"
    by (rule mined_chain_is_saved [OF ok _ _ _ d _ _ _ _ _ _ _ refl, where p = 0 and args = toy_miner_args and a = working
          and joins_garbage = True, THEN conjunct2, THEN conjunct2, THEN conjunct2])
      (use toy_chain_facts(4) len in \<open>simp_all add: toy_chain_size toy_miner_def toy_ledger_def toy_miner_args_def
        working_def no_oom_def del: miner_step.simps\<close>)
  then show ?thesis
    using d by (intro exI [of _ ?b] exI [of _ ?v]) (simp add: toy_start_def toy_chain_def del: miner_step.simps)
qed

end
