(* ===== verification/Peer_Network.thy ===== *)
theory Peer_Network
  imports Exchange
begin

text \<open>
  A network of nodes, each with its ledger, whose consensus threads of
  src/consensus_peer_client_thread.c and src/consensus_peer_server_thread.c exchange chains. What
  is in flight are bytes: a request travels from the client of one node to the server of another,
  a reply back; messages may be delayed, lost, overtaken and delivered more than once, and any
  number of exchanges may be under way at a time. Connections that fail are messages that are lost.
\<close>

section \<open>The network\<close>

record network =
  ledgers :: "nat \<Rightarrow> ledger"
  requests :: "(nat \<times> nat \<times> u8 list) list"
  replies :: "(nat \<times> u8 list) list"

datatype event =
    Request nat nat
  | Serve nat nat "u8 list"
  | Reply nat "u8 list"
  | Mine nat blockchain_t

definition on_connection :: "net \<Rightarrow> u8 list \<Rightarrow> bool" where
  "on_connection c bytes \<longleftrightarrow> connection_ok c \<and> arriving c = bytes \<and> sent c = []"

text \<open>The steps: the client of \<open>i\<close> sends its chain to \<open>j\<close>; the server of \<open>j\<close> handles a request
  and replies; the client of \<open>i\<close> considers a reply, with the chain its node holds by then; the
  miner of \<open>i\<close> adds a block to the chain of its node.\<close>

inductive net_step :: "'k openssl \<Rightarrow> byte_order \<Rightarrow> u64 \<Rightarrow> network \<Rightarrow> event \<Rightarrow> network \<Rightarrow> bool" for ssl bo n where
  request: "on_connection c [] \<Longrightarrow>
    client_request bo None None \<lparr>conn = c, shared = ledgers w i\<rparr> = (Ok (), t) \<Longrightarrow>
    net_step ssl bo n w (Request i j)
      (w\<lparr>ledgers := (ledgers w)(i := shared t), requests := (i, j, sent (conn t)) # requests w\<rparr>)"
| serve: "(i, j, bytes) \<in> set (requests w) \<Longrightarrow> on_connection c bytes \<Longrightarrow>
    handle_one_consensus_request ssl bo now None None \<lparr>conn = c, shared = ledgers w j\<rparr> = (Ok (), t) \<Longrightarrow>
    net_step ssl bo n w (Serve i j bytes)
      (w\<lparr>ledgers := (ledgers w)(j := shared t), replies := (i, sent (conn t)) # replies w\<rparr>)"
| reply: "(i, bytes) \<in> set (replies w) \<Longrightarrow> on_connection c bytes \<Longrightarrow>
    client_response ssl bo now None None \<lparr>conn = c, shared = ledgers w i\<rparr> = (Ok (), t) \<Longrightarrow>
    net_step ssl bo n w (Reply i bytes) (w\<lparr>ledgers := (ledgers w)(i := shared t)\<rparr>)"
| mine: "holds (ledgers w i) a \<Longrightarrow> blockchain_add_block (Some a) (Some b) (ledgers w i) = (Ok d, l) \<Longrightarrow>
    deliverable ssl bo n d \<Longrightarrow>
    net_step ssl bo n w (Mine i d)
      (w\<lparr>ledgers := (ledgers w)(i := l\<lparr>chains := (chains l)(current l \<mapsto> d)\<rparr>)\<rparr>)"

inductive net_run :: "'k openssl \<Rightarrow> byte_order \<Rightarrow> u64 \<Rightarrow> network \<Rightarrow> event list \<Rightarrow> network \<Rightarrow> bool" for ssl bo n where
  none: "net_run ssl bo n w [] w"
| step: "net_step ssl bo n w e v \<Longrightarrow> net_run ssl bo n v es u \<Longrightarrow> net_run ssl bo n w (e # es) u"


section \<open>What is in flight\<close>

text \<open>\<open>P\<close> holds of every chain of the network: those the nodes hold and those in flight.\<close>

definition chain_bytes :: "blockchain_t \<Rightarrow> u8 list" where
  "chain_bytes c = wire_data (chain_message c)"

definition chains_satisfy ::
  "'k openssl \<Rightarrow> byte_order \<Rightarrow> u64 \<Rightarrow> (blockchain_t \<Rightarrow> bool) \<Rightarrow> network \<Rightarrow> bool" where
  "chains_satisfy ssl bo n P w \<longleftrightarrow>
     (\<forall>i. \<exists>c. holds (ledgers w i) c \<and> deliverable ssl bo n c \<and> P c) \<and>
     (\<forall>bytes \<in> (snd \<circ> snd) ` set (requests w) \<union> snd ` set (replies w).
        \<exists>c. bytes = chain_bytes c \<and> deliverable ssl bo n c \<and> P c)"

text \<open>What each kind of step does, in terms of the chains.\<close>

lemma holds_unique: "holds l a \<Longrightarrow> holds l b \<Longrightarrow> a = b"
  by (simp add: holds_def)

lemma request_effect:
  assumes "on_connection c []" and "holds l a" and "deliverable ssl bo n a"
  obtains t where "client_request bo None None \<lparr>conn = c, shared = l\<rparr> = (Ok (), t)"
    "shared t = l" "sent (conn t) = chain_bytes a"
  using wp_client_request [of "\<lparr>conn = c, shared = l\<rparr>" a ssl bo n] assms that
  by (auto simp: wp_Ok_iff on_connection_def chain_bytes_def)

lemma serve_effect:
  assumes "hashing_ok ssl" and "on_connection c (chain_bytes a)" and "holds l b"
    and "deliverable ssl bo n a" and "deliverable ssl bo n b"
  obtains t where "handle_one_consensus_request ssl bo now None None \<lparr>conn = c, shared = l\<rparr> = (Ok (), t)"
    "shared t = offered l a" "sent (conn t) = chain_bytes (longer b a)"
  using wp_handle_one_consensus_request [of ssl "\<lparr>conn = c, shared = l\<rparr>" b bo n a "[]" now] assms that
  by (auto simp: wp_Ok_iff on_connection_def chain_bytes_def)

lemma reply_effect:
  assumes "hashing_ok ssl" and "on_connection c (chain_bytes b)" and "holds l a"
    and "deliverable ssl bo n a" and "deliverable ssl bo n b"
  obtains t where "client_response ssl bo now None None \<lparr>conn = c, shared = l\<rparr> = (Ok (), t)"
    "shared t = offered l b"
  using wp_client_response [of ssl "\<lparr>conn = c, shared = l\<rparr>" a bo n b "[]" now] assms that
  by (auto simp: wp_Ok_iff on_connection_def connection_ok_def chain_bytes_def)

lemma mine_effect:
  assumes "blockchain_add_block (Some a) (Some b) l = (Ok d, l')" and "holds l a"
  shows "length (block_list d) = Suc (length (block_list a))"
  using assms
  by (auto simp: blockchain_add_block_def ll_append_def seq_def prog_basic split: prod.splits outcome.splits if_splits)

text \<open>An event delivers a chain to a node.\<close>

definition delivers :: "event \<Rightarrow> nat \<Rightarrow> blockchain_t \<Rightarrow> bool" where
  "delivers e k c \<longleftrightarrow> (\<exists>i. e = Serve i k (chain_bytes c)) \<or> e = Reply k (chain_bytes c)"

definition mines :: "event \<Rightarrow> bool" where
  "mines e \<longleftrightarrow> (\<exists>i d. e = Mine i d)"

lemma longer_cases: "longer a b = a \<or> longer a b = b"
  by (simp add: longer_def)

lemma longer_length:
  "length (block_list a) \<le> length (block_list (longer a b))" "length (block_list b) \<le> length (block_list (longer a b))"
  by (simp_all add: longer_def)

text \<open>One step: the chains stay as they were demanded, no chain gets shorter, and a delivered chain
  is considered.\<close>

lemma chains_satisfy_holds:
  assumes "chains_satisfy ssl bo n P w"
  obtains a where "holds (ledgers w i) a" "deliverable ssl bo n a" "P a"
  using assms unfolding chains_satisfy_def by blast

lemma chains_satisfyD:
  assumes "chains_satisfy ssl bo n P w" and "holds (ledgers w i) a"
  shows "deliverable ssl bo n a" and "P a"
  by (rule chains_satisfy_holds [OF assms(1), of i]; use assms(2) holds_unique in blast)+

lemma chains_satisfy_flight:
  assumes "chains_satisfy ssl bo n P w"
    and "(i, j, bytes) \<in> set (requests w) \<or> (i, bytes) \<in> set (replies w)"
  obtains a where "bytes = chain_bytes a" "deliverable ssl bo n a" "P a"
  using assms by (force simp: chains_satisfy_def)

lemma chains_satisfy_change:
  assumes "chains_satisfy ssl bo n P w" and "holds l a" and "deliverable ssl bo n a" and "P a"
    and "(snd \<circ> snd) ` set rs \<union> snd ` set rs' \<subseteq> {chain_bytes b | b. deliverable ssl bo n b \<and> P b}"
  shows "chains_satisfy ssl bo n P
    (w\<lparr>ledgers := (ledgers w)(i := l), requests := rs @ requests w, replies := rs' @ replies w\<rparr>)"
  using assms by (auto simp: chains_satisfy_def)

text \<open>What a step has to do.\<close>

definition step_effect ::
  "'k openssl \<Rightarrow> byte_order \<Rightarrow> u64 \<Rightarrow> (blockchain_t \<Rightarrow> bool) \<Rightarrow> network \<Rightarrow> event \<Rightarrow> network \<Rightarrow> bool" where
  "step_effect ssl bo n P w e v \<longleftrightarrow> chains_satisfy ssl bo n P v \<and>
    (\<forall>k a. holds (ledgers w k) a \<longrightarrow>
      (\<exists>b. holds (ledgers v k) b \<and> length (block_list a) \<le> length (block_list b) \<and>
        (\<forall>c. deliverable ssl bo n c \<longrightarrow> delivers e k c \<longrightarrow> b = longer a c)))"

lemma considered_effect:
  assumes w: "chains_satisfy ssl bo n P w" and b: "holds (ledgers w j) b" "deliverable ssl bo n b" "P b"
    and a: "bytes = chain_bytes a" "deliverable ssl bo n a" "P a"
    and offered: "\<And>x. bytes = chain_bytes x \<Longrightarrow> deliverable ssl bo n x \<Longrightarrow> l = offered (ledgers w j) x"
    and delivers: "\<And>k c. delivers e k c \<Longrightarrow> k = j \<and> bytes = chain_bytes c"
    and sent: "snd ` set rs \<subseteq> {chain_bytes (longer b a)}"
    and v: "v = w\<lparr>ledgers := (ledgers w)(j := l), replies := rs @ replies w\<rparr>"
  shows "step_effect ssl bo n P w e v"
proof -
  have l: "holds l (longer b x)" if "bytes = chain_bytes x" "deliverable ssl bo n x" for x
    using holds_offered [OF b(1)] offered [OF that] by simp
  have x: "deliverable ssl bo n (longer b a)" "P (longer b a)" using a b by (simp_all add: longer_def)
  from chains_satisfy_change [OF w l [OF a(1,2)] x, of "[]" rs j] x sent v
  have "chains_satisfy ssl bo n P v" by auto
  moreover have "\<exists>b'. holds (ledgers v k) b' \<and> length (block_list a') \<le> length (block_list b') \<and>
      (\<forall>c. deliverable ssl bo n c \<longrightarrow> delivers e k c \<longrightarrow> b' = longer a' c)" if "holds (ledgers w k) a'" for k a'
  proof (cases "k = j")
    case True
    then have "a' = b" using that b(1) holds_unique by blast
    moreover have "longer b a = longer b c" if "deliverable ssl bo n c" "delivers e k c" for c
      using holds_unique [OF l [OF a(1,2)] l] delivers that by blast
    ultimately show ?thesis
      using l [OF a(1,2)] longer_length(1) [of b a] True v by (intro exI [of _ "longer b a"]) auto
  qed (use that v delivers in auto)
  ultimately show ?thesis unfolding step_effect_def by blast
qed

lemma net_step_effect:
  assumes "net_step ssl bo n w e v" and "hashing_ok ssl" and "chains_satisfy ssl bo n P w"
    and "\<And>i d. e = Mine i d \<Longrightarrow> P d"
  shows "step_effect ssl bo n P w e v"
  using assms(1)
proof cases
  case (request c i t j)
  obtain a where a: "holds (ledgers w i) a" "deliverable ssl bo n a" "P a"
    using chains_satisfy_holds [OF assms(3)] .
  obtain u where "client_request bo None None \<lparr>conn = c, shared = ledgers w i\<rparr> = (Ok (), u)"
    "shared u = ledgers w i" "sent (conn u) = chain_bytes a"
    using request_effect [OF request(3) a(1,2)] .
  with request(4) have t: "shared t = ledgers w i" "sent (conn t) = chain_bytes a" by simp_all
  have "chains_satisfy ssl bo n P v"
    using chains_satisfy_change [OF assms(3) a, of "[(i, j, chain_bytes a)]" "[]" i] a request(2) t by auto
  then show ?thesis using request(1,2) t by (auto simp: step_effect_def delivers_def)
next
  case (serve i j bytes c now t)
  obtain b where b: "holds (ledgers w j) b" "deliverable ssl bo n b" "P b"
    using chains_satisfy_holds [OF assms(3)] .
  obtain a where a: "bytes = chain_bytes a" "deliverable ssl bo n a" "P a"
    using chains_satisfy_flight [OF assms(3)] serve(3) by blast
  have t: "shared t = offered (ledgers w j) x \<and> sent (conn t) = chain_bytes (longer b x)"
    if "bytes = chain_bytes x" "deliverable ssl bo n x" for x
    using serve_effect [OF assms(2) serve(4) [unfolded that(1)] b(1) that(2) b(2), of now] serve(5) by auto
  show ?thesis
    by (rule considered_effect [OF assms(3) b a, where l = "shared t" and rs = "[(i, sent (conn t))]"])
      (use t a(1,2) serve(1,2) in \<open>auto simp: delivers_def\<close>)
next
  case (reply i bytes c now t)
  obtain b where b: "holds (ledgers w i) b" "deliverable ssl bo n b" "P b"
    using chains_satisfy_holds [OF assms(3)] .
  obtain a where a: "bytes = chain_bytes a" "deliverable ssl bo n a" "P a"
    using chains_satisfy_flight [OF assms(3)] reply(3) by blast
  have t: "shared t = offered (ledgers w i) x" if "bytes = chain_bytes x" "deliverable ssl bo n x" for x
    using reply_effect [OF assms(2) reply(4) [unfolded that(1)] b(1,2) that(2), of now] reply(5) by auto
  show ?thesis
    by (rule considered_effect [OF assms(3) b a, where l = "shared t" and rs = "[]"])
      (use t reply(1,2) in \<open>auto simp: delivers_def\<close>)
next
  case (mine i a b d l)
  let ?l = "l\<lparr>chains := (chains l)(current l \<mapsto> d)\<rparr>"
  have d: "holds ?l d" "P d" using assms(4) mine(1) by (simp_all add: holds_def)
  from chains_satisfy_change [OF assms(3) d(1) mine(5) d(2), of "[]" "[]" i]
  have "chains_satisfy ssl bo n P v" using mine(2) by simp
  moreover have "length (block_list a) \<le> length (block_list d)"
    using mine_effect [OF mine(4,3)] by simp
  ultimately show ?thesis
    using mine(1,2,3) d(1) holds_unique by (auto simp: step_effect_def delivers_def)
qed

section \<open>Runs\<close>

lemma step_effectD:
  assumes "step_effect ssl bo n P w e v" and "holds (ledgers w k) a"
  obtains b where "holds (ledgers v k) b" "length (block_list a) \<le> length (block_list b)"
    "\<forall>c. deliverable ssl bo n c \<longrightarrow> delivers e k c \<longrightarrow> b = longer a c"
  using assms unfolding step_effect_def by blast

lemma net_run_effect:
  assumes "net_run ssl bo n w es v" and "hashing_ok ssl" and "chains_satisfy ssl bo n P w"
    and "\<And>i d. Mine i d \<in> set es \<Longrightarrow> P d" and "holds (ledgers w k) a"
  shows "chains_satisfy ssl bo n P v \<and>
    (\<exists>b. holds (ledgers v k) b \<and> length (block_list a) \<le> length (block_list b) \<and>
      (\<forall>e \<in> set es. \<forall>c. deliverable ssl bo n c \<longrightarrow> delivers e k c \<longrightarrow> length (block_list c) \<le> length (block_list b)))"
  using assms(1,3-5)
proof (induction arbitrary: a)
  case (none w)
  then show ?case by auto
next
  case (step w e v es u)
  have effect: "step_effect ssl bo n P w e v"
    by (rule net_step_effect [OF step.hyps(1) assms(2) step.prems(1)]) (metis list.set_intros(1) step.prems(2))
  obtain b where b: "holds (ledgers v k) b" "length (block_list a) \<le> length (block_list b)"
    "\<forall>c. deliverable ssl bo n c \<longrightarrow> delivers e k c \<longrightarrow> b = longer a c"
    using step_effectD [OF effect step.prems(3)] .
  have "chains_satisfy ssl bo n P v" using effect by (simp add: step_effect_def)
  from step.IH [OF this _ b(1)] step.prems(2) obtain x where x: "chains_satisfy ssl bo n P u"
    "holds (ledgers u k) x" "length (block_list b) \<le> length (block_list x)"
    "\<forall>e \<in> set es. \<forall>c. deliverable ssl bo n c \<longrightarrow> delivers e k c \<longrightarrow> length (block_list c) \<le> length (block_list x)"
    by auto
  have "length (block_list c) \<le> length (block_list x)" if "deliverable ssl bo n c" "delivers e k c" for c
    using b(3) that longer_length(2) [of c a] x(3) by simp
  then show ?case using x b(2) by (intro conjI exI [of _ x]) auto
qed

text \<open>Nothing in the network competes with \<open>c\<close>.\<close>

definition leads :: "'k openssl \<Rightarrow> byte_order \<Rightarrow> u64 \<Rightarrow> blockchain_t \<Rightarrow> network \<Rightarrow> bool" where
  "leads ssl bo n c = chains_satisfy ssl bo n (\<lambda>x. x = c \<or> length (block_list x) < length (block_list c))"

lemma net_run_leads:
  assumes "net_run ssl bo n w es v" and "hashing_ok ssl" and "leads ssl bo n c w"
    and "\<forall>e \<in> set es. \<not> mines e" and "deliverable ssl bo n c"
    and "holds (ledgers w k) c \<or> (\<exists>e \<in> set es. delivers e k c)"
  shows "leads ssl bo n c v \<and> holds (ledgers v k) c"
proof -
  obtain a where a: "holds (ledgers w k) a"
    using chains_satisfy_holds [OF assms(3) [unfolded leads_def]] .
  have "\<And>i d. Mine i d \<notin> set es" using assms(4) by (force simp: mines_def)
  with net_run_effect [OF assms(1,2) assms(3) [unfolded leads_def] _ a] obtain b where b: "leads ssl bo n c v"
    "holds (ledgers v k) b" "length (block_list a) \<le> length (block_list b)"
    "\<forall>e \<in> set es. \<forall>c. deliverable ssl bo n c \<longrightarrow> delivers e k c \<longrightarrow> length (block_list c) \<le> length (block_list b)"
    unfolding leads_def by auto
  from assms(6) have "length (block_list c) \<le> length (block_list b)"
  proof
    assume "holds (ledgers w k) c"
    with a b(3) show ?thesis using holds_unique by blast
  qed (use assms(5) b(4) in blast)
  moreover have "b = c \<or> length (block_list b) < length (block_list c)"
    by (rule chains_satisfyD(2) [OF b(1) [unfolded leads_def] b(2)])
  ultimately show ?thesis using b(1,2) by auto
qed

text \<open>The client of \<open>i\<close> visits the nodes \<open>ks\<close>.\<close>

definition visit :: "nat \<Rightarrow> blockchain_t \<Rightarrow> nat \<Rightarrow> event list" where
  "visit i c k = [Request i k, Serve i k (chain_bytes c)]"

lemma on_connectionI: "on_connection \<lparr>mallocs = [], recvs = [Received bytes], sends = [], sent = []\<rparr> bytes"
  by (simp add: on_connection_def connection_ok_def no_oom_def)

lemma net_run_visit:
  assumes "hashing_ok ssl" and "leads ssl bo n c w" and "holds (ledgers w i) c"
  obtains v where "net_run ssl bo n w (visit i c k) v"
proof -
  have c: "deliverable ssl bo n c"
    by (rule chains_satisfyD(1) [OF assms(2) [unfolded leads_def] assms(3)])
  have on: "on_connection \<lparr>mallocs = [], recvs = [], sends = [], sent = []\<rparr> []"
    by (simp add: on_connection_def connection_ok_def no_oom_def)
  obtain t where t: "client_request bo None None
      \<lparr>conn = \<lparr>mallocs = [], recvs = [], sends = [], sent = []\<rparr>, shared = ledgers w i\<rparr> = (Ok (), t)"
    "shared t = ledgers w i" "sent (conn t) = chain_bytes c"
    using request_effect [OF on assms(3) c] .
  let ?w = "w\<lparr>ledgers := (ledgers w)(i := shared t), requests := (i, k, chain_bytes c) # requests w\<rparr>"
  have "net_step ssl bo n w (Request i k) ?w"
    using net_step.request [OF on t(1), of ssl n k] t(3) by simp
  moreover
  obtain b where "holds (ledgers w k) b" "deliverable ssl bo n b"
    using chains_satisfy_holds [OF assms(2) [unfolded leads_def]] .
  then have b: "holds (ledgers ?w k) b" "deliverable ssl bo n b" using t(2) by simp_all
  obtain u where "handle_one_consensus_request ssl bo 0 None None
      \<lparr>conn = \<lparr>mallocs = [], recvs = [Received (chain_bytes c)], sends = [], sent = []\<rparr>, shared = ledgers ?w k\<rparr> = (Ok (), u)"
    using serve_effect [OF assms(1) on_connectionI b(1) c b(2)] .
  from net_step.serve [where i = i and n = n, OF _ on_connectionI this] obtain v where "net_step ssl bo n ?w (Serve i k (chain_bytes c)) v"
    by simp
  ultimately have "net_run ssl bo n w (visit i c k) v"
    unfolding visit_def by (blast intro: net_run.intros)
  then show ?thesis by (rule that)
qed

lemma net_run_append: "net_run ssl bo n w es v \<Longrightarrow> net_run ssl bo n v es' u \<Longrightarrow> net_run ssl bo n w (es @ es') u"
  by (induction rule: net_run.induct) (auto intro: net_run.step)

lemma visit_facts:
  "\<forall>e \<in> set (visit i c k). \<not> mines e" "\<exists>e \<in> set (visit i c k). delivers e k c" "length (visit i c k) = 2"
  by (simp_all add: visit_def mines_def delivers_def)

lemma net_run_visits:
  assumes "hashing_ok ssl" and "leads ssl bo n c w" and "holds (ledgers w i) c"
  shows "\<exists>v. net_run ssl bo n w (concat (map (visit i c) ks)) v"
  using assms(2,3)
proof (induction ks arbitrary: w)
  case Nil
  then show ?case by (auto intro: net_run.none)
next
  case (Cons k ks)
  have c: "deliverable ssl bo n c"
    by (rule chains_satisfyD(1) [OF Cons.prems(1) [unfolded leads_def] Cons.prems(2)])
  obtain v where v: "net_run ssl bo n w (visit i c k) v"
    using net_run_visit [OF assms(1) Cons.prems] .
  have "leads ssl bo n c v \<and> holds (ledgers v i) c"
    by (rule net_run_leads [OF v assms(1) Cons.prems(1) visit_facts(1) c]) (use Cons.prems(2) in simp)
  with Cons.IH [of v] net_run_append [OF v] show ?case by auto
qed

section \<open>Properties\<close>

text \<open>C4. The network agrees: whatever the order in which requests and replies are sent, delivered,
  repeated or lost, and whoever mines meanwhile, every node holds a valid chain that never gets
  shorter, and a node to which \<open>c\<close> has been delivered holds one at least as long as \<open>c\<close>; when no
  other chain as long as \<open>c\<close> is held or in flight at the start and nobody mines, it holds \<open>c\<close>.\<close>

theorem network_agrees:
  assumes "hashing_ok ssl" and "net_run ssl bo n w es v" and "chains_satisfy ssl bo n (\<lambda>_. True) w"
    and "deliverable ssl bo n c" and "holds (ledgers w k) c \<or> (\<exists>e \<in> set es. delivers e k c)"
  shows "(\<forall>i a. holds (ledgers w i) a \<longrightarrow>
      (\<exists>b. holds (ledgers v i) b \<and> deliverable ssl bo n b \<and> length (block_list a) \<le> length (block_list b))) \<and>
    (\<exists>b. holds (ledgers v k) b \<and> length (block_list c) \<le> length (block_list b)) \<and>
    (leads ssl bo n c w \<and> (\<forall>e \<in> set es. \<not> mines e) \<longrightarrow> holds (ledgers v k) c)"
proof (intro conjI allI impI)
  note run = net_run_effect [OF assms(2,1,3)]
  show "\<exists>b. holds (ledgers v i) b \<and> deliverable ssl bo n b \<and> length (block_list a) \<le> length (block_list b)"
    if "holds (ledgers w i) a" for i a
    using run [OF _ that] chains_satisfyD(1) by blast
  obtain a where a: "holds (ledgers w k) a" using chains_satisfy_holds [OF assms(3)] .
  show "\<exists>b. holds (ledgers v k) b \<and> length (block_list c) \<le> length (block_list b)"
    using assms(5)
  proof
    assume "holds (ledgers w k) c"
    with run [OF _ this] show ?thesis by blast
  next
    assume "\<exists>e \<in> set es. delivers e k c"
    with run [OF _ a] assms(4) show ?thesis by blast
  qed
  show "holds (ledgers v k) c" if "leads ssl bo n c w \<and> (\<forall>e \<in> set es. \<not> mines e)"
    using net_run_leads [OF assms(2,1) _ _ assms(4,5)] that by blast
qed

text \<open>C5. A longest chain spreads: when no other chain as long as \<open>c\<close> is held or in flight, then one
  visit of its holder to each of the other nodes, two events for each, is possible in any order and
  leaves them all with \<open>c\<close>.\<close>

theorem longest_chain_spreads:
  assumes "hashing_ok ssl" and "leads ssl bo n c w" and "holds (ledgers w i) c"
  shows "\<exists>es v. net_run ssl bo n w es v \<and> length es = 2 * length ks \<and>
    (\<forall>k \<in> insert i (set ks). holds (ledgers v k) c)"
proof -
  let ?es = "concat (map (visit i c) ks)"
  have c: "deliverable ssl bo n c"
    by (rule chains_satisfyD(1) [OF assms(2) [unfolded leads_def] assms(3)])
  obtain v where v: "net_run ssl bo n w ?es v" using net_run_visits [OF assms] by blast
  have "\<forall>e \<in> set ?es. \<not> mines e" using visit_facts(1) by auto
  moreover have "holds (ledgers w k) c \<or> (\<exists>e \<in> set ?es. delivers e k c)" if "k \<in> insert i (set ks)" for k
    using that assms(3) visit_facts(2) [of i c k] by auto
  ultimately have "\<forall>k \<in> insert i (set ks). holds (ledgers v k) c"
    using net_run_leads [OF v assms(1,2) _ c] by blast
  moreover have "length ?es = 2 * length ks"
    by (induction ks) (simp_all add: visit_facts(3))
  ultimately show ?thesis using v by blast
qed

definition toy_network :: network where
  "toy_network = \<lparr>ledgers = (\<lambda>i. toy_ledger (if i = 0 then toy_chain [toy_mint] else toy_start)), requests = [], replies = []\<rparr>"

lemma toy_network_leads: "leads (toy_ssl 4) Little_Endian 3 (toy_chain [toy_mint]) toy_network"
  using toy_deliverable
  by (auto simp: leads_def chains_satisfy_def toy_network_def holds_def toy_ledger_def toy_start_def)

lemma toy_network_holds: "holds (ledgers toy_network 0) (toy_chain [toy_mint])"
  by (simp add: toy_network_def holds_def toy_ledger_def)

theorem network_agrees_witness:
  "\<exists>v. net_run (toy_ssl 4) Little_Endian 3 toy_network (visit 0 (toy_chain [toy_mint]) 1) v \<and>
     holds (ledgers v 1) (toy_chain [toy_mint])"
proof -
  obtain v where v: "net_run (toy_ssl 4) Little_Endian 3 toy_network (visit 0 (toy_chain [toy_mint]) 1) v"
    using net_run_visit [OF toy_chain_facts(1) toy_network_leads toy_network_holds] .
  have "chains_satisfy (toy_ssl 4) Little_Endian 3 (\<lambda>_. True) toy_network"
    using toy_network_leads by (auto simp: leads_def chains_satisfy_def)
  from network_agrees [OF toy_chain_facts(1) v this toy_deliverable(2), of 1] v toy_network_leads
  show ?thesis using visit_facts [where i = 0 and c = "toy_chain [toy_mint]" and k = 1] by blast
qed

theorem longest_chain_spreads_witness:
  "\<exists>es v. net_run (toy_ssl 4) Little_Endian 3 toy_network es v \<and> length es = 4 \<and>
     holds (ledgers v 1) (toy_chain [toy_mint]) \<and> holds (ledgers v 2) (toy_chain [toy_mint])"
  using longest_chain_spreads [OF toy_chain_facts(1) toy_network_leads toy_network_holds, of "[1, 2]"] by auto

end
