(* ===== verification/Spec2Isabelle.thy ===== *)
theory Spec2Isabelle
  imports Miner_Program Client_Program Bootstrap_Program Chain_Memory Broadcast Concurrent_Append Miner_Outputs
    Peer_Network
begin

text \<open>
  LeoCoin, a proof-of-work currency in C: a miner that extends a chain of blocks, peers that
  exchange their chains and keep the longest valid one, and a bootstrap server through which they
  find each other.

  The program and the theories. Paths are under src/.

  \<^item> return_codes.h: Return_Codes. Prelude has the model of C functions: a \<open>prog\<close> takes a state to
    an outcome (\<open>Ok\<close> with the values written to the out-parameters, \<open>Fail\<close> with the return code,
    \<open>Undefined\<close> for a memory error, \<open>Diverges\<close>) and a new state; \<open>seq\<close> is the early return of the
    source, \<open>loop\<close> a C loop, \<open>alloc\<close> a checked malloc, whose failures are a schedule in the state.
    \<open>wp\<close> is total correctness: the function returns, without undefined behaviour.
  \<^item> endian.c: Endian; machine words as bytes in the order of a host (\<open>byte_order\<close>) and on the wire.
    Byte_Codec has the interface of a fixed-width encoding, whose sequences are decodable.
  \<^item> linked_list.c: Linked_List has the operations on a heap of nodes; List_Refinement shows that they
    refine operations on sequences, through the interface \<open>list_provider\<close>. The components whose
    lists have one owner use the sequences; the bootstrap server, which unlinks nodes and frees
    data itself, uses the heap.
  \<^item> transaction.c: Transaction. OpenSSL is a parameter, the record \<open>openssl\<close> of what its calls
    return; \<open>key_pair\<close>, \<open>hashing_ok\<close> and \<open>verifying_ok\<close> state what is relied on.
  \<^item> block.c: Block. A block is hashed as the memory image of its fields.
  \<^item> blockchain.c: Blockchain (creation, extension, blockchain_verify against the specification
    \<open>valid_chain\<close>), Mining (the two mining functions and the progress they print), Chain_Codec
    (serialization, deserialization with the bounds checks the code makes, files). Cursor has the
    reading of a buffer; a read outside the object is \<open>Undefined\<close>.
  \<^item> networking.c: Sockets (recv_all, send_all over schedules of what recv and send return) and
    Networking (the commands; the interface \<open>command_codec\<close> is interpreted for the three of them).
  \<^item> peer_discovery.c: Peer_Discovery. peer_discovery_bootstrap_server_thread.c: Bootstrap_Server.
    peer_discovery_thread.c: Discovery_Client.
  \<^item> Node: the state of a thread (its connection and the data it shares), messages, what a thread does
    in a critical section (\<open>whenever\<close>), the end of a thread, which sets exit_ready and signals whoever
    waits for it (\<open>end_thread\<close>), and the accept loop of the two servers, over a list of poll events.
  \<^item> consensus_peer_server_thread.c and consensus_peer_client_thread.c: Consensus. The \<open>ledger\<close> is the
    synchronized_blockchain_t: chain objects by address, the pointer to the current one, and the
    version. The contract of an exchange is the locale \<open>exchange\<close>, interpreted for the handler of the
    server and for the client. Exchange has the case of two honest nodes, Broadcast that of a client
    that visits a list of peers, Peer_Network that of any number of nodes with messages in flight.
    Concurrent_Append has blockchain_serialize, as the consensus threads call it, read by read,
    while the miner links blocks to the list.
  \<^item> mining_thread.c, and the first chain of miner.c: Mining_Thread. \<open>miner_step\<close> is the thread as a
    step function between the points where another thread can act; \<open>node_step\<close> interleaves it with
    threads that offer chains. What such a thread does under the mutex is two steps, \<open>count_ours\<close> and
    \<open>switch_if_longer\<close>, whose sequence is \<open>consider_chain\<close>: in between the miner cannot take the mutex
    but goes on, and appends. Miner_Outputs follows the exit_ready flag and the file through the
    steps.
  \<^item> The programs. C_Library has strtol, decimal numbers and the arithmetic of doubles; Process the
    state of a process (the pthread calls' results, the two output streams, the memory), the calls of
    the platform as the record \<open>platform\<close>, base64.c, sleep.c and the arguments the programs share;
    Printing hash.c and blockchain_print. miner.c: Miner_Program, \<open>miner_setup\<close> up to the start of the
    threads and \<open>miner_main\<close> around it, where \<open>threads\<close> yields how mine_blocks ends, if it does, and
    what the threads that go on hold and access while \<open>stop_miner\<close> frees what they share. peer_discovery_client.c: Client_Program.
    peer_discovery_bootstrap_server.c: Bootstrap_Program.
  \<^item> block_destroy and blockchain_destroy on memory: Chain_Memory, where a chain is lists of pointers to
    blocks on the heap of Linked_List, and a free of what is not allocated is \<open>Undefined\<close>. Blockchain
    has the same functions on values, for the code whose chains have one owner.

  What is shown. Lists: refinement of sequences, destruction, search. Codecs: round trips between
  hosts of any byte order, canonicity of what is accepted, memory safety of the readers and the
  inputs on which it fails. Chains: verification decides the documented conditions; mining finds
  the least proof and its block is accepted; the last hash commits to the chain. Threads: each
  server and client keeps the ledger valid whatever its peers send; honest exchanges end with a
  longest chain on both sides, a broadcast with the longest chain of all peers that are reached, and
  a network in which nothing competes with a chain agrees on it; an append that races with a
  serialization sends a valid earlier chain, and one that races with an exchange can be lost; each thread announces its exit once, except for a
  miner that failed; what is mined is in the file; the bootstrap server refines the list of live
  peers and a node takes over exactly that list; the discovery thread ends with the last list it was
  answered with; the miner, interleaved with the other threads, keeps the chain valid and never
  shorter, and makes progress, if it has read the pointer before the first switch. Programs: a
  command line is rejected or becomes well-formed arguments, the miner's chain is valid when
  mine_blocks ends and its status is the code of mine_blocks unless a thread that goes on touches
  what main has freed, the bootstrap server gives back every node and peer. Memory:
  blockchain_destroy frees exactly what the chain owns, each object once, the blocks that were mined
  and those that were received. The properties of kind
  error state the undefined behaviour and the races of the code as theorems.

  Hypotheses. SHA-256 yields 32 bytes and the digest context is allocated (\<open>hashing_ok\<close>); the keys
  of a miner belong together (\<open>key_pair\<close>); difficulties are at most 32 bytes where the code would
  read past the digest; lists are shorter than what their 64-bit lengths can express. A long has 64
  bits and a double is an IEEE double; inet_pton writes 16 bytes and EVP_DecodeBlock three for each
  four characters, of which it returns no more than it wrote (\<open>platform_ok\<close>); an interval on the
  command line is one whose microseconds fit in 64 bits (\<open>command_line_sane\<close>). Before the miner has
  created its first broadcast thread, mine_blocks calls pthread_join with a handle that was never
  set, which POSIX leaves undefined: \<open>joins_garbage\<close>, on which the theorems about the miner do not
  depend unless they say so, is whether the platform returns from it; where it does not, that is the fault
  \<open>Uninitialised_Join\<close>. No fuel is
  used: loops that may not end are \<open>while_option\<close> loops whose divergence is an outcome, and the
  loops over events and attempts run over the list of what happens.

  Granularity. The steps of the mining thread are atomic: what it reads of a chain object between
  two of them no other thread writes. The converse, that a consensus thread serializes the chain
  while the miner appends to it without the mutex, is \<open>racing_append_is_harmless\<close>: a step is one read
  of the list or the write that links a node, and memory is sequentially consistent, which C does
  not promise here. That the miner appends while a consensus thread holds the mutex is in
  \<open>node_step\<close>, between the count of the blocks, which is one step, and the switch of the pointer with
  its version, which is the other; \<open>append_during_exchange_is_lost\<close> shows what comes of it. A request
  during which the miner does nothing is such steps (\<open>run_is_steps\<close>, proved in the locale \<open>exchange\<close>).
  Where nodes without a miner are considered, and in Peer_Network, where a mined block is appended at
  once, the critical sections are single steps: the two of a client, before and after it waits for
  the peer, and the one of a server. After mine_blocks has returned, main frees the
  objects that the server and discovery threads go on to use, one after the other; \<open>stop_miner\<close> has
  their accesses in between, and \<open>shutdown_leaves_dangling_chain\<close> shows that the next request reads a
  destroyed chain.

  Not modelled. Every source file is modelled, except for these of its effects. The branches for
  Windows. The signal for sync_version_currently_mined_cond, for which nothing in the program waits.
  What pthread_mutex_destroy, pthread_cond_destroy and close do, and wrap_connect, the
  pointer through which tests replace connect. Leaks on error paths: memory that is never given back is visible in List_Refinement,
  Bootstrap_Server, Bootstrap_Program and Chain_Memory, where the heap is explicit, and not where
  chains, commands and keys are values. The text printed on the way, except by the mining functions, hash_print, blockchain_print and the command lines. Nothing
  sets the should_stop of the bootstrap server and of the discovery client, so their programs end
  when a call fails, and for the client the attempts considered are any number of first ones.
  The expiry of a peer compares times exactly (\<open>peer_expired\<close>); the source compares with the quotient
  as a double, which is the same below 2 to the power 53 microseconds.
  The tests under tests/, the build files and the media are no part of the program.
\<close>

section \<open>The threads\<close>

text \<open>Whoever waits for the exit_ready of a thread, other than the miner, is told: however the
  function ends, it has set the flag and signalled it once.\<close>

theorem thread_functions_announce_exit:
  "announces_exit (run_consensus_peer_server ssl bo verbose listening stop allocated events)"
  "announces_exit (run_consensus_peer_client ssl bo lock unlock stop attempt_at peers)"
  "announces_exit (handle_peer_discovery_requests bo args listening stop allocated visits)"
  "announces_exit (discover_peers bo verbose bootstrap_server stop attempts)"
  by (rule announces_consensus_peer_server announces_consensus_peer_client
    announces_peer_discovery_requests announces_discover_peers)+

section \<open>The programs\<close>

text \<open>C29. A command line that a program does not accept - too few arguments, an option it does not
  have, a key that is given nowhere, or an address that is none; for the bootstrap server any number
  of arguments but one - makes each of the three programs exit with the number of
  FAILURE_INVALID_COMMAND_LINE_ARGS before it allocates anything or starts a thread.\<close>

theorem command_line_errors:
  assumes "command_line_bad pf miner_argv" and "client_command_line_bad pf client_argv"
    and "length server_argv \<noteq> 2" and "server_argv \<noteq> []"
  shows "(\<exists>t. miner_main pf bo now threads miner_argv s =
        (Ok (enumerator FAILURE_INVALID_COMMAND_LINE_ARGS), t) \<and> memory t = memory s) \<and>
    (\<exists>t. discovery_client_main pf bo attempts client_argv c =
        (Ok (enumerator FAILURE_INVALID_COMMAND_LINE_ARGS), t) \<and> memory t = memory c) \<and>
    (\<exists>t. bootstrap_server_main pf bo listen_on allocated events server_argv b =
        (Ok (enumerator FAILURE_INVALID_COMMAND_LINE_ARGS), t) \<and> memory t = memory b)"
proof (intro conjI)
  have "wp (miner_main pf bo now threads miner_argv)
      (\<lambda>status t. status = enumerator FAILURE_INVALID_COMMAND_LINE_ARGS \<and> memory t = memory s) (\<lambda>_ _. False) s"
    by (auto simp: miner_main_def intro!: wp_mono [OF wp_rejects [OF assms(1)]])
  then show "\<exists>t. miner_main pf bo now threads miner_argv s =
      (Ok (enumerator FAILURE_INVALID_COMMAND_LINE_ARGS), t) \<and> memory t = memory s"
    by (auto simp: wp_Ok_iff)
  show "\<exists>t. discovery_client_main pf bo attempts client_argv c =
      (Ok (enumerator FAILURE_INVALID_COMMAND_LINE_ARGS), t) \<and> memory t = memory c"
    using client_rejects [OF assms(2), of bo attempts c] by (auto simp: wp_Ok_iff)
  show "\<exists>t. bootstrap_server_main pf bo listen_on allocated events server_argv b =
      (Ok (enumerator FAILURE_INVALID_COMMAND_LINE_ARGS), t) \<and> memory t = memory b"
    using assms(3,4)
    by (auto simp: bootstrap_server_main_def exit_status_def attempt_def seq_def print_err_def prog_basic
        split: list.split)
qed

theorem command_line_errors_witness:
  "\<exists>t u v. miner_main sample_platform Little_Endian 5 stopping_threads [''miner'', ''::1''] sample_process = (Ok 6, t) \<and>
    discovery_client_main sample_platform Little_Endian [] [''client'', ''::1'', ''9000'', ''not an address'', ''8080'']
      \<lparr>pthreads = [], stdout = [], stderr = [], memory = \<lparr>mallocs = [], known_peers = []\<rparr>\<rparr> = (Ok 6, u) \<and>
    bootstrap_server_main sample_platform Little_Endian (\<lambda>_. True) True [] [''server'']
      \<lparr>pthreads = [], stdout = [], stderr = [],
       memory = \<lparr>mallocs = [], lists = Map.empty, nodes = Map.empty, brk = 0, freed = [], lookups = []\<rparr>\<rparr> = (Ok 6, v)"
proof -
  have "command_line_bad sample_platform [''miner'', ''::1'']" by (simp add: command_line_bad_def)
  moreover have "client_command_line_bad sample_platform [''client'', ''::1'', ''9000'', ''not an address'', ''8080'']"
    by (simp add: client_command_line_bad_def sample_platform_def)
  ultimately show ?thesis
    using command_line_errors [of sample_platform "[''miner'', ''::1'']"
        "[''client'', ''::1'', ''9000'', ''not an address'', ''8080'']" "[''server'']" Little_Endian 5]
    by simp blast
qed

end
